(* ===== verification/Prelude.thy ===== *)
theory Prelude
  imports Main "HOL-Library.Word"
begin

text \<open>
  Shared vocabulary of the development: machine integers, the saturating, checked and wrapping
  arithmetic of Rust's \<open>usize\<close>, byte strings and their fixed-width integer encodings, and the
  \<open>named_theorems\<close> collections that the component theories extend.

  \<^item> \<open>usize\<close> and \<open>u128\<close> counters are naturals; every operation that can leave the range of the
    type is written out (\<open>sat_add\<close>, \<open>checked_add\<close>, \<open>usize_sum\<close>).
  \<^item> \<open>u8\<close>, \<open>u32\<close> and \<open>u64\<close> values whose bits matter are words.
  \<^item> A fallible function returns \<open>'e + 'a\<close>, with \<open>Inl\<close> for the error.
\<close>

unbundle bit_operations_syntax

named_theorems cmp_simps "computation rules of three-way comparisons"
named_theorems len_simps "lengths of encodings"
named_theorems roundtrip_simps "decoding an encoding gives the value back"
named_theorems inv_intros "operations keep the invariant of their component"

type_synonym u8 = "8 word"
type_synonym u16 = "16 word"
type_synonym u32 = "32 word"
type_synonym u64 = "64 word"
type_synonym i64 = "64 word"
type_synonym bytes = "u8 list"

section \<open>Arithmetic on machine-sized counters\<close>

definition usize_max :: nat where
  "usize_max = 2 ^ 64 - 1"

definition sat_add :: "nat \<Rightarrow> nat \<Rightarrow> nat" where
  "sat_add a b = min (a + b) usize_max"

definition checked_add :: "nat \<Rightarrow> nat \<Rightarrow> nat option" where
  "checked_add a b = (if a + b \<le> usize_max then Some (a + b) else None)"

text \<open>\<open>Iterator::sum\<close> over \<open>usize\<close> in a release build wraps around.\<close>

definition usize_sum :: "nat list \<Rightarrow> nat" where
  "usize_sum ns = sum_list ns mod 2 ^ 64"

lemma sat_add_exact [simp]: "a + b \<le> usize_max \<Longrightarrow> sat_add a b = a + b"
  by (simp add: sat_add_def)

lemma sat_add_le_max [simp]: "sat_add a b \<le> usize_max"
  by (simp add: sat_add_def)

lemma sat_add_le_iff: "c < usize_max \<Longrightarrow> sat_add a b \<le> c \<longleftrightarrow> a + b \<le> c"
  by (auto simp: sat_add_def)

lemma sat_add_eq_if_le: "sat_add a b \<le> c \<Longrightarrow> c < usize_max \<Longrightarrow> sat_add a b = a + b"
  by (auto simp: sat_add_def)

lemma checked_add_Some_iff: "checked_add a b = Some c \<longleftrightarrow> c = a + b \<and> c \<le> usize_max"
  by (auto simp: checked_add_def)

lemma usize_sum_exact: "sum_list ns \<le> usize_max \<Longrightarrow> usize_sum ns = sum_list ns"
  by (simp add: usize_sum_def usize_max_def)

lemma usize_sum_Nil [simp]: "usize_sum [] = 0"
  by (simp add: usize_sum_def)

lemma sum_list_filter_split:
  "sum_list (map f xs) = sum_list (map f (filter P xs)) + sum_list (map f (filter (\<lambda>x. \<not> P x) xs))"
  for f :: "'a \<Rightarrow> nat"
  by (induction xs) auto

lemma sum_list_filter_le: "sum_list (map f (filter P xs)) \<le> sum_list (map f xs)"
  for f :: "'a \<Rightarrow> nat"
  by (induction xs) auto

lemma length_filter_split:
  "length xs = length (filter P xs) + length (filter (\<lambda>x. \<not> P x) xs)"
  by (induction xs) auto

end
