(* ===== verification/Rust_Ord.thy ===== *)
theory Rust_Ord
  imports Prelude "HOL-Library.List_Lexorder" "HOL-Library.Product_Lexorder"
begin

text \<open>
  Rust's \<open>Ord\<close> as an interface. A comparison function returns an \<open>ordering\<close>; the locale
  \<open>rust_ord\<close> states the laws an implementation of \<open>Ord\<close> owes (a total preorder: two values may
  compare \<open>Equal\<close> without being the same value, as \<open>1.0\<close> and \<open>1.00\<close> do). \<open>BTreeMap\<close> and
  \<open>BTreeSet\<close> of the standard library are strictly ascending association lists over such a
  comparison, with the standard library's behaviour on equal keys: the resident key stays.
\<close>

section \<open>Three-way comparison\<close>

datatype ordering = Less | Equal | Greater

primrec ord_reverse :: "ordering \<Rightarrow> ordering" where
  "ord_reverse Less = Greater"
| "ord_reverse Equal = Equal"
| "ord_reverse Greater = Less"

text \<open>\<open>Ordering::then\<close> and \<open>Ordering::then_with\<close>.\<close>

primrec ord_then :: "ordering \<Rightarrow> ordering \<Rightarrow> ordering" where
  "ord_then Less b = Less"
| "ord_then Equal b = b"
| "ord_then Greater b = Greater"

definition cmp_lin :: "'a::linorder \<Rightarrow> 'a \<Rightarrow> ordering" where
  "cmp_lin x y = (if x < y then Less else if x = y then Equal else Greater)"

text \<open>The derived \<open>Ord\<close> of \<open>Vec\<close> and of slices, and that of \<open>Option\<close>.\<close>

fun lex_cmp :: "('a \<Rightarrow> 'a \<Rightarrow> ordering) \<Rightarrow> 'a list \<Rightarrow> 'a list \<Rightarrow> ordering" where
  "lex_cmp c [] [] = Equal"
| "lex_cmp c [] (y # ys) = Less"
| "lex_cmp c (x # xs) [] = Greater"
| "lex_cmp c (x # xs) (y # ys) = ord_then (c x y) (lex_cmp c xs ys)"

fun option_cmp :: "('a \<Rightarrow> 'a \<Rightarrow> ordering) \<Rightarrow> 'a option \<Rightarrow> 'a option \<Rightarrow> ordering" where
  "option_cmp c None None = Equal"
| "option_cmp c None (Some y) = Less"
| "option_cmp c (Some x) None = Greater"
| "option_cmp c (Some x) (Some y) = c x y"

abbreviation cmp_le :: "('a \<Rightarrow> 'a \<Rightarrow> ordering) \<Rightarrow> 'a \<Rightarrow> 'a \<Rightarrow> bool" where
  "cmp_le c x y \<equiv> c x y \<noteq> Greater"

abbreviation cmp_lt :: "('a \<Rightarrow> 'a \<Rightarrow> ordering) \<Rightarrow> 'a \<Rightarrow> 'a \<Rightarrow> bool" where
  "cmp_lt c x y \<equiv> c x y = Less"

lemma cmp_lin_simps [cmp_simps]:
  "cmp_lin x y = Less \<longleftrightarrow> x < y"
  "cmp_lin x y = Equal \<longleftrightarrow> x = y"
  "cmp_lin x y = Greater \<longleftrightarrow> y < x"
  by (auto simp: cmp_lin_def)

lemma ord_reverse_simps [simp]:
  "ord_reverse a = Less \<longleftrightarrow> a = Greater"
  "ord_reverse a = Equal \<longleftrightarrow> a = Equal"
  "ord_reverse a = Greater \<longleftrightarrow> a = Less"
  "ord_reverse (ord_reverse a) = a"
  by (cases a; simp)+

lemma ord_then_simps [cmp_simps]:
  "ord_then a b = Less \<longleftrightarrow> a = Less \<or> a = Equal \<and> b = Less"
  "ord_then a b = Equal \<longleftrightarrow> a = Equal \<and> b = Equal"
  "ord_then a b = Greater \<longleftrightarrow> a = Greater \<or> a = Equal \<and> b = Greater"
  by (cases a; simp)+

lemma ord_then_assoc: "ord_then (ord_then a b) c = ord_then a (ord_then b c)"
  by (cases a) simp_all

lemma ord_reverse_then: "ord_reverse (ord_then a b) = ord_then (ord_reverse a) (ord_reverse b)"
  by (cases a) simp_all

lemma cmp_lin_prod:
  "ord_then (cmp_lin a b) (cmp_lin c d) = cmp_lin (a, c) (b, d)"
  by (auto simp: cmp_lin_def less_prod_def)

lemma lex_cmp_lin: "lex_cmp cmp_lin xs ys = cmp_lin xs ys"
  by (induction "cmp_lin :: 'a \<Rightarrow> 'a \<Rightarrow> ordering" xs ys rule: lex_cmp.induct)
    (auto simp: cmp_lin_def)

section \<open>The contract of Ord\<close>

locale rust_ord =
  fixes cmp :: "'a \<Rightarrow> 'a \<Rightarrow> ordering"
  assumes cmp_refl: "cmp x x = Equal"
    and cmp_rev: "cmp y x = ord_reverse (cmp x y)"
    and cmp_le_trans: "cmp x y \<noteq> Greater \<Longrightarrow> cmp y z \<noteq> Greater \<Longrightarrow> cmp x z \<noteq> Greater"
begin

lemma cmp_Less_rev: "cmp y x = Less \<longleftrightarrow> cmp x y = Greater"
  by (simp add: cmp_rev [of y x])

lemma cmp_Equal_rev: "cmp y x = Equal \<longleftrightarrow> cmp x y = Equal"
  by (simp add: cmp_rev [of y x])

lemma cmp_lt_le_trans: "cmp x y = Less \<Longrightarrow> cmp y z \<noteq> Greater \<Longrightarrow> cmp x z = Less"
  by (metis cmp_le_trans cmp_Less_rev ordering.distinct(3) ordering.exhaust cmp_Equal_rev)

lemma cmp_le_lt_trans: "cmp x y \<noteq> Greater \<Longrightarrow> cmp y z = Less \<Longrightarrow> cmp x z = Less"
  by (metis cmp_le_trans cmp_Less_rev ordering.distinct(3) ordering.exhaust cmp_Equal_rev)

lemma cmp_lt_trans: "cmp x y = Less \<Longrightarrow> cmp y z = Less \<Longrightarrow> cmp x z = Less"
  by (simp add: cmp_lt_le_trans)

lemma cmp_gt_trans: "cmp x y = Greater \<Longrightarrow> cmp y z = Greater \<Longrightarrow> cmp x z = Greater"
  by (metis cmp_Less_rev cmp_lt_trans)

lemma cmp_Equal_left: "cmp x y = Equal \<Longrightarrow> cmp x z = cmp y z"
  by (metis cmp_Equal_rev cmp_le_lt_trans cmp_le_trans cmp_Less_rev ordering.distinct(5)
      ordering.exhaust)

lemma cmp_Equal_right: "cmp x y = Equal \<Longrightarrow> cmp z x = cmp z y"
  by (metis cmp_Equal_left cmp_rev)

lemma cmp_Equal_trans: "cmp x y = Equal \<Longrightarrow> cmp y z = Equal \<Longrightarrow> cmp x z = Equal"
  using cmp_Equal_left by metis

lemma cmp_total: "cmp x y \<noteq> Greater \<or> cmp y x \<noteq> Greater"
  by (simp add: cmp_rev [of y x])

end

text \<open>An \<open>Ord\<close> whose \<open>Equal\<close> is equality, as a derived one is.\<close>

locale rust_ord_eq = rust_ord +
  assumes cmp_Equal_eq: "cmp x y = Equal \<Longrightarrow> x = y"
begin

lemma cmp_Equal_iff: "cmp x y = Equal \<longleftrightarrow> x = y"
  by (auto simp: cmp_refl intro: cmp_Equal_eq)

end

lemma rust_ord_image:
  assumes "\<And>x y. cmp x y = cmp_lin (f x) (f y)"
  shows "rust_ord cmp"
  by standard (auto simp: assms cmp_lin_def split: if_splits)

lemma rust_ord_eq_image:
  assumes "\<And>x y. cmp x y = cmp_lin (f x) (f y)" "inj f"
  shows "rust_ord_eq cmp"
proof (rule rust_ord_eq.intro)
  show "rust_ord cmp" by (rule rust_ord_image [OF assms(1)])
  show "rust_ord_eq_axioms cmp"
    by standard (use assms in \<open>auto simp: cmp_simps inj_def\<close>)
qed

interpretation lin_ord: rust_ord_eq "cmp_lin :: 'a::linorder \<Rightarrow> 'a \<Rightarrow> ordering"
  by (rule rust_ord_eq_image [where f = "\<lambda>x. x"]) simp_all

end
