(* ===== verification/Byte_Codec.thy ===== *)
theory Byte_Codec
  imports Rust_Ord
begin

text \<open>
  Fixed-width integer encodings (\<open>to_le_bytes\<close>, \<open>to_be_bytes\<close> and their inverses) and the facts
  the codecs share: lengths, round trips, and that big-endian encodings compare like the
  numbers they encode. \<open>str::from_utf8\<close> is the validity test of the standard library.
\<close>

section \<open>Little-endian and big-endian integers\<close>

primrec le_bytes :: "nat \<Rightarrow> nat \<Rightarrow> bytes" where
  "le_bytes 0 x = []"
| "le_bytes (Suc n) x = of_nat (x mod 256) # le_bytes n (x div 256)"

primrec le_nat :: "bytes \<Rightarrow> nat" where
  "le_nat [] = 0"
| "le_nat (b # bs) = unat b + 256 * le_nat bs"

definition be_bytes :: "nat \<Rightarrow> nat \<Rightarrow> bytes" where
  "be_bytes n x = rev (le_bytes n x)"

definition be_nat :: "bytes \<Rightarrow> nat" where
  "be_nat bs = le_nat (rev bs)"

lemma length_le_bytes [simp]: "length (le_bytes n x) = n"
  by (induction n arbitrary: x) auto

lemma length_be_bytes [simp]: "length (be_bytes n x) = n"
  by (simp add: be_bytes_def)

lemma unat_byte [simp]: "unat (of_nat (x mod 256) :: u8) = x mod 256"
  by (simp add: unat_of_nat)

lemma unat_lt_256 [simp]: "unat (b :: u8) < 256"
  using unsigned_less [of b, where ?'a = nat] by simp

lemma byte_of_unat [simp]: "(of_nat (unat b) :: u8) = b"
  by simp

lemma le_nat_le_bytes: "le_nat (le_bytes n x) = x mod 256 ^ n"
proof (induction n arbitrary: x)
  case 0
  then show ?case by simp
next
  case (Suc n)
  have "x mod 256 ^ Suc n = 256 * (x div 256 mod 256 ^ n) + x mod 256"
    by (simp add: mod_mult2_eq)
  with Suc show ?case by simp
qed

lemma le_nat_lt: "le_nat bs < 256 ^ length bs"
proof (induction bs)
  case Nil
  then show ?case by simp
next
  case (Cons b bs)
  have "unat b + 256 * le_nat bs < 256 + 256 * le_nat bs" by simp
  also have "\<dots> \<le> 256 * 256 ^ length bs" using Cons by simp
  finally show ?case by simp
qed

lemma le_bytes_le_nat: "le_bytes (length bs) (le_nat bs) = bs"
  by (induction bs) (auto simp: div_mult_self4)

lemma le_bytes_le_nat_n: "length bs = n \<Longrightarrow> le_bytes n (le_nat bs) = bs"
  using le_bytes_le_nat by blast

lemma le_nat_le_bytes_id [roundtrip_simps]: "x < 256 ^ n \<Longrightarrow> le_nat (le_bytes n x) = x"
  by (simp add: le_nat_le_bytes)

lemma be_nat_be_bytes_id [roundtrip_simps]: "x < 256 ^ n \<Longrightarrow> be_nat (be_bytes n x) = x"
  by (simp add: be_nat_def be_bytes_def le_nat_le_bytes)

lemma be_bytes_be_nat: "length bs = n \<Longrightarrow> be_bytes n (be_nat bs) = bs"
  by (simp add: be_nat_def be_bytes_def le_bytes_le_nat_n)

lemma be_nat_lt: "be_nat bs < 256 ^ length bs"
  using le_nat_lt [of "rev bs"] by (simp add: be_nat_def)

lemma le_nat_append: "le_nat (xs @ ys) = le_nat xs + 256 ^ length xs * le_nat ys"
  by (induction xs) (auto simp: algebra_simps)

lemma be_nat_Cons: "be_nat (b # bs) = unat b * 256 ^ length bs + be_nat bs"
  by (simp add: be_nat_def le_nat_append)

text \<open>Equal-length byte strings compare like the big-endian numbers they spell.\<close>

lemma lex_cmp_be_nat:
  "length xs = length ys \<Longrightarrow> lex_cmp cmp_lin xs ys = cmp_lin (be_nat xs) (be_nat ys)"
proof (induction xs ys rule: list_induct2)
  case Nil
  then show ?case by (simp add: be_nat_def cmp_lin_def)
next
  case (Cons x xs y ys)
  have lx: "be_nat xs < 256 ^ length ys" and ly: "be_nat ys < 256 ^ length ys"
    using be_nat_lt [of xs] be_nat_lt [of ys] Cons.hyps by simp_all
  have step: "be_nat (a # as) < be_nat (b # bs)"
    if "a < b" "length as = length bs" for a b :: u8 and as bs
  proof -
    from that(1) have "Suc (unat a) \<le> unat b" by (simp add: word_less_nat_alt)
    then have "Suc (unat a) * 256 ^ length bs \<le> unat b * 256 ^ length bs"
      by (rule mult_le_mono1)
    with be_nat_lt [of as] that(2) show ?thesis by (simp add: be_nat_Cons)
  qed
  consider "x < y" | "x = y" | "y < x" by (rule linorder_cases)
  then show ?case
  proof cases
    case 1
    with step [OF 1 Cons.hyps] show ?thesis by (simp add: cmp_lin_def)
  next
    case 2
    with Cons show ?thesis by (simp add: cmp_lin_def be_nat_Cons)
  next
    case 3
    with step [OF 3 Cons.hyps [symmetric]] show ?thesis by (auto simp: cmp_lin_def)
  qed
qed

lemma lex_cmp_be_bytes:
  assumes "x < 256 ^ n" "y < 256 ^ n"
  shows "lex_cmp cmp_lin (be_bytes n x) (be_bytes n y) = cmp_lin x y"
  using assms by (simp add: lex_cmp_be_nat be_nat_be_bytes_id)

text \<open>The order of two byte strings with a common prefix is decided after it.\<close>

lemma lex_cmp_append_same: "rust_ord c \<Longrightarrow> lex_cmp c (p @ xs) (p @ ys) = lex_cmp c xs ys"
  by (induction p) (simp_all add: rust_ord.cmp_refl)

lemma lex_cmp_append_decided:
  "length xs = length ys \<Longrightarrow> lex_cmp c (xs @ xs') (ys @ ys') =
     ord_then (lex_cmp c xs ys) (lex_cmp c xs' ys')"
  by (induction xs ys rule: list_induct2) (simp_all add: ord_then_assoc)

section \<open>Words of 16, 32 and 64 bits\<close>

definition u16_le :: "u16 \<Rightarrow> bytes" where "u16_le w = le_bytes 2 (unat w)"
definition u32_le :: "u32 \<Rightarrow> bytes" where "u32_le w = le_bytes 4 (unat w)"
definition u64_le :: "u64 \<Rightarrow> bytes" where "u64_le w = le_bytes 8 (unat w)"
definition u64_be :: "u64 \<Rightarrow> bytes" where "u64_be w = be_bytes 8 (unat w)"

definition le_u16 :: "bytes \<Rightarrow> u16" where "le_u16 bs = of_nat (le_nat bs)"
definition le_u32 :: "bytes \<Rightarrow> u32" where "le_u32 bs = of_nat (le_nat bs)"
definition le_u64 :: "bytes \<Rightarrow> u64" where "le_u64 bs = of_nat (le_nat bs)"
definition be_u64 :: "bytes \<Rightarrow> u64" where "be_u64 bs = of_nat (be_nat bs)"

lemma length_word_bytes [simp, len_simps]:
  "length (u16_le a) = 2" "length (u32_le b) = 4" "length (u64_le c) = 8" "length (u64_be d) = 8"
  by (simp_all add: u16_le_def u32_le_def u64_le_def u64_be_def)

lemma unat_bounds:
  fixes a :: u16 and b :: u32 and c :: u64
  shows "unat a < 256 ^ 2" "unat b < 256 ^ 4" "unat c < 256 ^ 8"
  using unsigned_less [of a, where ?'a = nat] unsigned_less [of b, where ?'a = nat]
    unsigned_less [of c, where ?'a = nat]
  by simp_all

lemma word_bytes_roundtrip [simp, roundtrip_simps]:
  "le_u16 (u16_le a) = a" "le_u32 (u32_le b) = b" "le_u64 (u64_le c) = c" "be_u64 (u64_be c) = c"
  using unat_bounds(1) [of a] unat_bounds(2) [of b] unat_bounds(3) [of c]
  by (simp_all add: le_u16_def u16_le_def le_u32_def u32_le_def le_u64_def u64_le_def be_u64_def
      u64_be_def roundtrip_simps)

lemma u64_be_be_u64: "length bs = 8 \<Longrightarrow> u64_be (be_u64 bs) = bs"
  using be_nat_lt [of bs]
  by (simp add: u64_be_def be_u64_def unat_of_nat be_bytes_be_nat)

lemma lex_cmp_u64_be: "lex_cmp cmp_lin (u64_be a) (u64_be b) = cmp_lin a b"
  using unat_bounds(3) [of a] unat_bounds(3) [of b]
  by (simp add: u64_be_def lex_cmp_be_bytes)
    (simp add: cmp_lin_def word_less_nat_alt word_unat_eq_iff)

section \<open>UTF-8\<close>

text \<open>The well-formed byte sequences of the Unicode standard (table 3-7), which is what
  \<open>String::from_utf8\<close> accepts.\<close>

definition cont :: "u8 \<Rightarrow> bool" where
  "cont b \<longleftrightarrow> 0x80 \<le> b \<and> b \<le> 0xBF"

fun utf8_valid :: "bytes \<Rightarrow> bool" where
  "utf8_valid [] = True"
| "utf8_valid (a # bs) =
    (if a < 0x80 then utf8_valid bs
     else if 0xC2 \<le> a \<and> a \<le> 0xDF then
       (case bs of b # r \<Rightarrow> cont b \<and> utf8_valid r | _ \<Rightarrow> False)
     else if 0xE0 \<le> a \<and> a \<le> 0xEF then
       (case bs of b # c # r \<Rightarrow>
          cont b \<and> cont c \<and> (a = 0xE0 \<longrightarrow> 0xA0 \<le> b) \<and> (a = 0xED \<longrightarrow> b \<le> 0x9F) \<and> utf8_valid r
        | _ \<Rightarrow> False)
     else if 0xF0 \<le> a \<and> a \<le> 0xF4 then
       (case bs of b # c # d # r \<Rightarrow>
          cont b \<and> cont c \<and> cont d \<and> (a = 0xF0 \<longrightarrow> 0x90 \<le> b) \<and> (a = 0xF4 \<longrightarrow> b \<le> 0x8F) \<and>
          utf8_valid r
        | _ \<Rightarrow> False)
     else False)"


section \<open>Complemented bytes\<close>

lemma uint_not: "uint (NOT (x :: 'a::len word)) = mask LENGTH('a) - uint x"
  by (simp add: unsigned_not_eq take_bit_not_eq_mask_diff take_bit_int_eq_self)

lemma cmp_lin_not_word: "cmp_lin (NOT x) (NOT y) = ord_reverse (cmp_lin x (y :: 'a::len word))"
  by (auto simp: cmp_lin_def word_less_def uint_not word_uint_eq_iff)

lemma lex_cmp_map_mono:
  "(\<And>x y. x \<in> set xs \<Longrightarrow> y \<in> set ys \<Longrightarrow> cmp_lin (f x) (f y) = cmp_lin x y) \<Longrightarrow>
   lex_cmp cmp_lin (map f xs) (map f ys) = lex_cmp cmp_lin xs ys"
  by (induction "cmp_lin :: 'a::linorder \<Rightarrow> 'a \<Rightarrow> ordering" xs ys rule: lex_cmp.induct) auto

lemma lex_cmp_map_antimono:
  "length xs = length ys \<Longrightarrow>
   (\<And>x y. x \<in> set xs \<Longrightarrow> y \<in> set ys \<Longrightarrow> cmp_lin (f x) (f y) = ord_reverse (cmp_lin x y)) \<Longrightarrow>
   lex_cmp cmp_lin (map f xs) (map f ys) = ord_reverse (lex_cmp cmp_lin xs ys)"
  by (induction xs ys rule: list_induct2) (auto simp: ord_reverse_then)

lemma lex_cmp_not:
  "length xs = length ys \<Longrightarrow>
   lex_cmp cmp_lin (map NOT xs) (map NOT (ys :: 'a::len word list)) = ord_reverse (lex_cmp cmp_lin xs ys)"
  by (rule lex_cmp_map_antimono) (simp_all add: cmp_lin_not_word)

end
