(* ===== verification/Decimal.thy ===== *)
theory Decimal
  imports Complex_Main Byte_Codec "HOL-Library.Signed_Division"
begin

text \<open>
  The bounded exact decimal of \<open>crates/core/src/decimal.rs\<close>: a coefficient of at most 38 digits
  and a scale of at most 38. The coefficient's sixteen bytes of storage are the \<open>i128\<close> they
  encode. \<open>BigInt\<close> intermediates are \<open>int\<close>; Rust's truncating \<open>/\<close> and \<open>%\<close> are \<open>sdiv\<close> and
  \<open>smod\<close>. This theory shows that the byte order of the ordered encoding is the numeric order; the
  laws of equality, encoding and arithmetic are in \<open>Decimal_Laws\<close>, the text form in \<open>Decimal_Text\<close>.
\<close>

section \<open>Types\<close>

datatype decimal_error =
    InvalidLiteral
  | InvalidType
  | InvalidEncoding
  | DecimalOverflow
  | DivisionByZero
  | Fractional
  | IntegerOutOfRange

record decimal_type =
  dt_precision :: nat
  dt_scale :: nat

record decimal =
  coefficient :: int
  dscale :: nat

definition max_precision :: nat where
  "max_precision = 38"

definition max_coefficient :: int where
  "max_coefficient = 10 ^ 38 - 1"

definition max_literal_bytes :: nat where
  "max_literal_bytes = 256"

definition decimal_type_new :: "nat \<Rightarrow> nat \<Rightarrow> decimal_error + decimal_type" where
  "decimal_type_new precision scale =
     (if precision = 0 \<or> precision > max_precision \<or> scale > precision then Inl InvalidType
      else Inr \<lparr>dt_precision = precision, dt_scale = scale\<rparr>)"

definition decimal_new :: "int \<Rightarrow> nat \<Rightarrow> decimal_error + decimal" where
  "decimal_new c s =
     (if \<bar>c\<bar> > max_coefficient \<or> s > 38 then Inl DecimalOverflow
      else Inr \<lparr>coefficient = c, dscale = s\<rparr>)"

definition decimal_zero :: decimal where
  "decimal_zero = \<lparr>coefficient = 0, dscale = 0\<rparr>"

text \<open>Every constructor goes through \<open>decimal_new\<close> or keeps its bounds.\<close>

definition decimal_ok :: "decimal \<Rightarrow> bool" where
  "decimal_ok d \<longleftrightarrow> \<bar>coefficient d\<bar> \<le> max_coefficient \<and> dscale d \<le> 38"

definition to_i128 :: "int \<Rightarrow> int option" where
  "to_i128 c = (if - (2 ^ 127) \<le> c \<and> c < 2 ^ 127 then Some c else None)"

definition new_of_big :: "int \<Rightarrow> nat \<Rightarrow> decimal_error + decimal" where
  "new_of_big c s = (case to_i128 c of None \<Rightarrow> Inl DecimalOverflow | Some c \<Rightarrow> decimal_new c s)"

section \<open>Digits\<close>

fun precision_loop :: "nat \<Rightarrow> nat \<Rightarrow> nat" where
  "precision_loop v digits = (if v \<ge> 10 then precision_loop (v div 10) (digits + 1) else digits)"

declare precision_loop.simps [simp del]

definition precision :: "decimal \<Rightarrow> nat" where
  "precision d = precision_loop (nat \<bar>coefficient d\<bar>) 1"

definition decimal_type_of :: "decimal \<Rightarrow> decimal_type" where
  "decimal_type_of d =
     \<lparr>dt_precision = (if precision d > dscale d then precision d else dscale d),
      dt_scale = dscale d\<rparr>"

text \<open>The decimal digits of a number, most significant first; none for zero.\<close>

fun digits_loop :: "nat \<Rightarrow> nat list \<Rightarrow> nat list" where
  "digits_loop v ds = (if v = 0 then ds else digits_loop (v div 10) (v mod 10 # ds))"

declare digits_loop.simps [simp del]

section \<open>Arithmetic\<close>

definition checked_neg :: "decimal \<Rightarrow> decimal" where
  "checked_neg d = d\<lparr>coefficient := - coefficient d\<rparr>"

fun exact_loop :: "int \<Rightarrow> nat \<Rightarrow> decimal_error + (int \<times> nat)" where
  "exact_loop c s =
     (if (s > 38 \<or> \<bar>c\<bar> > max_coefficient) \<and> s > 0 then
        (if c smod 10 \<noteq> 0 then Inl DecimalOverflow else exact_loop (c sdiv 10) (s - 1))
      else Inr (c, s))"

declare exact_loop.simps [simp del]

definition exact :: "int \<Rightarrow> nat \<Rightarrow> decimal_error + decimal" where
  "exact c s =
     (case exact_loop c s of Inl e \<Rightarrow> Inl e | Inr (c, s) \<Rightarrow> new_of_big c s)"

definition aligned :: "decimal \<Rightarrow> decimal \<Rightarrow> int \<times> int \<times> nat" where
  "aligned a b =
     (let s = max (dscale a) (dscale b) in
      (coefficient a * 10 ^ (s - dscale a), coefficient b * 10 ^ (s - dscale b), s))"

definition decimal_checked_add :: "decimal \<Rightarrow> decimal \<Rightarrow> decimal_error + decimal" where
  "decimal_checked_add a b = (case aligned a b of (l, r, s) \<Rightarrow> exact (l + r) s)"

definition decimal_checked_sub :: "decimal \<Rightarrow> decimal \<Rightarrow> decimal_error + decimal" where
  "decimal_checked_sub a b = decimal_checked_add a (checked_neg b)"

definition decimal_checked_mul :: "decimal \<Rightarrow> decimal \<Rightarrow> decimal_error + decimal" where
  "decimal_checked_mul a b = exact (coefficient a * coefficient b) (dscale a + dscale b)"

definition decimal_checked_rem :: "decimal \<Rightarrow> decimal \<Rightarrow> decimal_error + decimal" where
  "decimal_checked_rem a b =
     (if coefficient b = 0 then Inl DivisionByZero
      else case aligned a b of (l, r, s) \<Rightarrow> exact (l smod r) s)"

text \<open>The quotient at one scale, rounded half away from zero.\<close>

definition div_round :: "int \<Rightarrow> int \<Rightarrow> nat \<Rightarrow> int" where
  "div_round num den s =
     (let scaled = num * 10 ^ s;
          q = scaled sdiv den;
          r = scaled smod den
      in if \<bar>r\<bar> * 2 \<ge> \<bar>den\<bar> then q + (if sgn scaled = sgn den then 1 else - 1) else q)"

fun div_loop :: "int \<Rightarrow> int \<Rightarrow> nat \<Rightarrow> decimal_error + decimal" where
  "div_loop num den s =
     (let q = div_round num den s in
      if \<bar>q\<bar> \<le> max_coefficient then new_of_big q s
      else if s = 0 then Inl DecimalOverflow
      else div_loop num den (s - 1))"

declare div_loop.simps [simp del]

definition decimal_checked_div :: "decimal \<Rightarrow> decimal \<Rightarrow> decimal_error + decimal" where
  "decimal_checked_div a b =
     (if coefficient b = 0 then Inl DivisionByZero
      else
        let num = coefficient a * 10 ^ dscale b;
            den = coefficient b * 10 ^ dscale a;
            digits = length (digits_loop (nat \<bar>num sdiv den\<bar>) [])
        in if digits > 38 then Inl DecimalOverflow else div_loop num den (38 - digits))"

definition rescale :: "decimal \<Rightarrow> nat \<Rightarrow> decimal_error + decimal" where
  "rescale d s =
     (if s > 38 then Inl DecimalOverflow
      else if s \<ge> dscale d then new_of_big (coefficient d * 10 ^ (s - dscale d)) s
      else
        let divisor = 10 ^ (dscale d - s);
            q = coefficient d sdiv divisor;
            q = (if \<bar>coefficient d smod divisor\<bar> \<ge> divisor sdiv 2 then q + sgn (coefficient d) else q)
        in decimal_new q s)"

definition coerce :: "decimal_type \<Rightarrow> decimal \<Rightarrow> decimal_error + decimal" where
  "coerce t d =
     (case rescale d (dt_scale t) of
        Inl e \<Rightarrow> Inl e
      | Inr v \<Rightarrow> if precision v > dt_precision t then Inl DecimalOverflow else Inr v)"

definition accepts :: "decimal_type \<Rightarrow> decimal \<Rightarrow> bool" where
  "accepts t d \<longleftrightarrow> dscale d = dt_scale t \<and> precision d \<le> dt_precision t"

definition to_i64 :: "decimal \<Rightarrow> decimal_error + int" where
  "to_i64 d =
     (let divisor = 10 ^ dscale d in
      if coefficient d smod divisor \<noteq> 0 then Inl Fractional
      else
        let v = coefficient d sdiv divisor in
        if - (2 ^ 63) \<le> v \<and> v < 2 ^ 63 then Inr v else Inl IntegerOutOfRange)"

definition decimal_of_i64 :: "int \<Rightarrow> decimal" where
  "decimal_of_i64 v = \<lparr>coefficient = v, dscale = 0\<rparr>"

section \<open>Encodings\<close>

definition i128_le :: "int \<Rightarrow> bytes" where
  "i128_le c = le_bytes 16 (nat (c mod 2 ^ 128))"

definition le_i128 :: "bytes \<Rightarrow> int" where
  "le_i128 bs = (let n = int (le_nat bs) in if n \<ge> 2 ^ 127 then n - 2 ^ 128 else n)"

definition decimal_to_le_bytes :: "decimal \<Rightarrow> bytes" where
  "decimal_to_le_bytes d = i128_le (coefficient d) @ [of_nat (dscale d)]"

definition decimal_from_le_bytes :: "bytes \<Rightarrow> decimal_error + decimal" where
  "decimal_from_le_bytes bs =
     (case decimal_new (le_i128 (take 16 bs)) (unat (bs ! 16)) of
        Inl _ \<Rightarrow> Inl InvalidEncoding | Inr d \<Rightarrow> Inr d)"

definition to_ordered_bytes :: "decimal \<Rightarrow> bytes" where
  "to_ordered_bytes d =
     (let c = coefficient d in
      if c = 0 then 1 # replicate 39 0
      else
        let digits = digits_loop (nat \<bar>c\<bar>) [];
            count = length digits;
            body = of_nat (count + 38 - dscale d) # map of_nat digits @ replicate (38 - count) 0
        in if c < 0 then 0 # map NOT body else 2 # body)"

fun strip_loop :: "int \<Rightarrow> nat \<Rightarrow> int \<times> nat" where
  "strip_loop c s = (if s > 38 \<and> c smod 10 = 0 then strip_loop (c sdiv 10) (s - 1) else (c, s))"

declare strip_loop.simps [simp del]

definition ordered_body :: "bool \<Rightarrow> bytes \<Rightarrow> decimal_error + decimal" where
  "ordered_body negative body =
     (let e = hd body; ds = tl body in
      if \<not> (1 \<le> e \<and> e \<le> 76) \<or> hd ds = 0 \<or> (\<exists>b \<in> set ds. b > 9) then Inl InvalidEncoding
      else
        let c = foldl (\<lambda>c d. c * 10 + int (unat d)) 0 ds;
            c = (if negative then - c else c);
            (c, s) = strip_loop c (76 - unat e)
        in (case decimal_new c s of Inl _ \<Rightarrow> Inl InvalidEncoding | Inr d \<Rightarrow> Inr d))"

definition from_ordered_bytes :: "bytes \<Rightarrow> decimal_error + decimal" where
  "from_ordered_bytes encoded =
     (let tag = hd encoded; body = tl encoded in
      if tag = 0 then ordered_body True (map NOT body)
      else if tag = 1 \<and> (\<forall>b \<in> set body. b = 0) then Inr decimal_zero
      else if tag = 2 then ordered_body False body
      else Inl InvalidEncoding)"

fun next_up_loop :: "int \<Rightarrow> nat \<Rightarrow> decimal option" where
  "next_up_loop scaled s =
     (let candidate = scaled + 1 in
      if \<bar>candidate\<bar> \<le> max_coefficient then
        (case new_of_big candidate s of Inl _ \<Rightarrow> None | Inr d \<Rightarrow> Some d)
      else
        let negative_fraction = (scaled < 0 \<and> scaled smod 10 \<noteq> 0);
            scaled' = scaled sdiv 10 - (if negative_fraction then 1 else 0)
        in if s = 0 then None else next_up_loop scaled' (s - 1))"

declare next_up_loop.simps [simp del]

definition next_up :: "decimal \<Rightarrow> decimal option" where
  "next_up d = next_up_loop (coefficient d * 10 ^ (38 - dscale d)) 38"

fun normalized_loop :: "int \<Rightarrow> nat \<Rightarrow> int \<times> nat" where
  "normalized_loop c s =
     (if s > 0 \<and> c smod 10 = 0 then normalized_loop (c sdiv 10) (s - 1) else (c, s))"

declare normalized_loop.simps [simp del]

definition normalized :: "decimal \<Rightarrow> int \<times> nat" where
  "normalized d = normalized_loop (coefficient d) (dscale d)"

definition decimal_eq :: "decimal \<Rightarrow> decimal \<Rightarrow> bool" where
  "decimal_eq a b \<longleftrightarrow> normalized a = normalized b"

definition decimal_cmp :: "decimal \<Rightarrow> decimal \<Rightarrow> ordering" where
  "decimal_cmp a b = lex_cmp cmp_lin (to_ordered_bytes a) (to_ordered_bytes b)"


section \<open>Digit lists\<close>

definition digits_val :: "nat list \<Rightarrow> nat" where
  "digits_val ds = foldl (\<lambda>a d. a * 10 + d) 0 ds"

lemma foldl_digits: "foldl (\<lambda>a d. a * 10 + d) a ds = a * 10 ^ length ds + digits_val ds"
proof (induction ds arbitrary: a)
  case Nil
  then show ?case by (simp add: digits_val_def)
next
  case (Cons d ds)
  show ?case
    using Cons [of "a * 10 + d"] Cons [of d]
    by (simp add: digits_val_def algebra_simps)
qed

lemma digits_val_simps [simp]:
  "digits_val [] = 0"
  "digits_val (d # ds) = d * 10 ^ length ds + digits_val ds"
  using foldl_digits [of d ds] by (simp_all add: digits_val_def)

lemma digits_val_append: "digits_val (xs @ ys) = digits_val xs * 10 ^ length ys + digits_val ys"
  by (induction xs) (auto simp: algebra_simps power_add)

lemma digits_val_replicate0 [simp]: "digits_val (replicate n 0) = 0"
  by (induction n) auto

lemma digits_val_lt: "\<forall>d \<in> set ds. d \<le> 9 \<Longrightarrow> digits_val ds < 10 ^ length ds"
proof (induction ds)
  case (Cons d ds)
  then have "d * 10 ^ length ds \<le> 9 * 10 ^ length ds" by (intro mult_le_mono1) simp
  moreover from Cons have "digits_val ds < 10 ^ length ds" by simp
  ultimately have "d * 10 ^ length ds + digits_val ds < 10 * 10 ^ length ds" by linarith
  then show ?case by simp
qed simp

lemma digits_loop_spec:
  "digits_val (digits_loop v ds) = v * 10 ^ length ds + digits_val ds"
proof (induction v ds rule: digits_loop.induct)
  case (1 v ds)
  show ?case
  proof (cases "v = 0")
    case True
    then show ?thesis by (simp add: digits_loop.simps)
  next
    case False
    have "v = 10 * (v div 10) + v mod 10" by simp
    then have "v * 10 ^ length ds = (v div 10) * 10 ^ Suc (length ds) + v mod 10 * 10 ^ length ds"
      by (metis (no_types) add_mult_distrib mult.assoc mult.commute power_Suc)
    with 1 [OF False] False show ?thesis by (simp add: digits_loop.simps [of v ds])
  qed
qed

lemma digits_loop_digits: "\<forall>d \<in> set ds. d \<le> 9 \<Longrightarrow> d \<in> set (digits_loop v ds) \<Longrightarrow> d \<le> 9"
proof (induction v ds rule: digits_loop.induct)
  case (1 v ds)
  show ?case
  proof (cases "v = 0")
    case True
    with "1.prems" show ?thesis by (simp add: digits_loop.simps)
  next
    case False
    with 1 show ?thesis by (simp add: digits_loop.simps [of v ds])
  qed
qed

lemma digits_loop_hd: "v \<noteq> 0 \<Longrightarrow> digits_loop v ds \<noteq> [] \<and> hd (digits_loop v ds) \<noteq> 0"
proof (induction v ds rule: digits_loop.induct)
  case (1 v ds)
  show ?case
  proof (cases "v div 10 = 0")
    case True
    with "1.prems" show ?thesis
      by (simp add: digits_loop.simps [of v ds] digits_loop.simps [of 0])
  next
    case False
    with 1 show ?thesis by (simp add: digits_loop.simps [of v ds])
  qed
qed

lemma digits_lower:
  assumes "ds \<noteq> []" "hd ds \<noteq> 0"
  shows "10 ^ (length ds - 1) \<le> digits_val ds"
proof (cases ds)
  case (Cons d r)
  with assms have "1 * 10 ^ length r \<le> d * 10 ^ length r" by (intro mult_le_mono1) simp
  then have "10 ^ length r \<le> d * 10 ^ length r + digits_val r" by linarith
  with Cons show ?thesis by simp
qed (use assms in simp)

text \<open>The digits of a nonzero number: their value, that they are digits, and how many there are.\<close>

lemma digits_of:
  assumes "v \<noteq> 0"
  defines "ds \<equiv> digits_loop v []"
  shows "digits_val ds = v" "\<forall>d \<in> set ds. d \<le> 9" "ds \<noteq> []" "hd ds \<noteq> 0"
    "10 ^ (length ds - 1) \<le> v" "v < 10 ^ length ds"
proof -
  show val: "digits_val ds = v" by (simp add: ds_def digits_loop_spec)
  show dig: "\<forall>d \<in> set ds. d \<le> 9" using digits_loop_digits [of "[]"] by (simp add: ds_def)
  show ne: "ds \<noteq> []" and hd: "hd ds \<noteq> 0" using digits_loop_hd [OF assms(1)] by (simp_all add: ds_def)
  show "10 ^ (length ds - 1) \<le> v" using digits_lower [OF ne hd] val by simp
  show "v < 10 ^ length ds" using digits_val_lt [OF dig] val by simp
qed

lemma digits_count_le: "0 < n \<Longrightarrow> v < 10 ^ n \<Longrightarrow> length (digits_loop v []) \<le> n"
proof (cases "v = 0")
  case False
  assume "0 < n" "v < 10 ^ n"
  with digits_of(5) [OF False] have "(10::nat) ^ (length (digits_loop v []) - 1) < 10 ^ n"
    by linarith
  then have "length (digits_loop v []) - 1 < n" by (simp add: power_less_imp_less_exp)
  then show ?thesis by simp
qed (simp add: digits_loop.simps)

text \<open>Digit strings of equal length compare like the numbers they spell.\<close>

lemma lex_cmp_digits:
  "length xs = length ys \<Longrightarrow> \<forall>d \<in> set xs. d \<le> 9 \<Longrightarrow> \<forall>d \<in> set ys. d \<le> 9 \<Longrightarrow>
   lex_cmp cmp_lin xs ys = cmp_lin (digits_val xs) (digits_val ys)"
proof (induction xs ys rule: list_induct2)
  case (Cons x xs y ys)
  have step: "digits_val (a # as) < digits_val (b # bs)"
    if "a < b" "length as = length bs" "\<forall>d \<in> set as. d \<le> 9" for a b :: nat and as bs
  proof -
    from that(1) have "Suc a * 10 ^ length bs \<le> b * 10 ^ length bs" by (intro mult_le_mono1) simp
    with digits_val_lt [OF that(3)] that(2) show ?thesis by simp
  qed
  consider "x < y" | "x = y" | "y < x" by (rule linorder_cases)
  then show ?case
  proof cases
    case 1
    with step [OF 1 Cons.hyps] Cons.prems show ?thesis by (simp add: cmp_lin_def)
  next
    case 2
    with Cons show ?thesis by (simp add: cmp_lin_def)
  next
    case 3
    with step [OF 3 Cons.hyps [symmetric]] Cons.prems show ?thesis by (auto simp: cmp_lin_def)
  qed
qed (simp add: cmp_lin_def)


section \<open>The ordered encoding is numeric order\<close>

text \<open>The value of a decimal in units of \<open>10\<^sup>-\<^sup>3\<^sup>8\<close>, in which every decimal is an integer.\<close>

definition units38 :: "decimal \<Rightarrow> int" where
  "units38 d = coefficient d * 10 ^ (38 - dscale d)"

text \<open>Two scientific representations with 38 leading digits compare exponent first.\<close>

lemma scientific_lt:
  fixes m n :: nat
  assumes "10 ^ 37 \<le> n" "m < 10 ^ 38" "i < j"
  shows "m * 10 ^ i < n * 10 ^ j"
proof -
  have "m * 10 ^ i < 10 ^ 38 * 10 ^ i" using assms(2) by simp
  also have "\<dots> = 10 ^ 37 * 10 ^ Suc i" by simp
  also have "\<dots> \<le> n * 10 ^ j"
    by (intro mult_le_mono power_increasing) (use assms in simp_all)
  finally show ?thesis .
qed

lemma scientific_cmp:
  assumes "10 ^ 37 \<le> m" "m < 10 ^ 38" "10 ^ 37 \<le> n" "n < (10::nat) ^ 38"
  shows "ord_then (cmp_lin i j) (cmp_lin m n) = cmp_lin (m * 10 ^ i) (n * 10 ^ j)"
  using scientific_lt [OF assms(3,2), of i j] scientific_lt [OF assms(1,4), of j i]
  by (cases i j rule: linorder_cases) (auto simp: cmp_lin_def)

text \<open>The body of the encoding, before it is narrowed to bytes.\<close>

definition nat_body :: "nat \<Rightarrow> nat \<Rightarrow> nat list" where
  "nat_body v s =
     (let ds = digits_loop v [] in
      (length ds + 38 - s) # ds @ replicate (38 - length ds) 0)"

lemma nat_body_tl:
  assumes "v \<noteq> 0" "v < 10 ^ 38"
  defines "ds \<equiv> digits_loop v []"
  defines "r \<equiv> ds @ replicate (38 - length ds) 0"
  shows "length r = 38" "\<forall>d \<in> set r. d \<le> 9" "digits_val r = v * 10 ^ (38 - length ds)"
    "10 ^ 37 \<le> digits_val r" "digits_val r < 10 ^ 38" "r \<noteq> []" "hd r \<noteq> 0"
    "1 \<le> length ds" "length ds \<le> 38"
proof -
  note d = digits_of [OF assms(1), folded ds_def]
  show l38: "length ds \<le> 38" using digits_count_le [of 38 v] assms(2) by (simp add: ds_def)
  show l1: "1 \<le> length ds" using d(3) by (cases ds) auto
  show len: "length r = 38" using l38 by (simp add: r_def)
  show dig: "\<forall>d \<in> set r. d \<le> 9" using d(2) by (auto simp: r_def)
  show "digits_val r = v * 10 ^ (38 - length ds)" by (simp add: r_def digits_val_append d(1))
  show ne: "r \<noteq> []" and hd: "hd r \<noteq> 0" using d(3,4) by (simp_all add: r_def)
  show "10 ^ 37 \<le> digits_val r" using digits_lower [OF ne hd] len by simp
  show "digits_val r < 10 ^ 38" using digits_val_lt [OF dig] len by simp
qed

lemma nat_body_cmp:
  assumes "v \<noteq> 0" "v < 10 ^ 38" "w \<noteq> 0" "w < 10 ^ 38" "s \<le> 38" "t \<le> 38"
  shows "lex_cmp cmp_lin (nat_body v s) (nat_body w t) =
         cmp_lin (v * 10 ^ (38 - s)) (w * 10 ^ (38 - t))"
proof -
  define i where "i = length (digits_loop v [])"
  define j where "j = length (digits_loop w [])"
  note V = nat_body_tl [OF assms(1,2), folded i_def] and W = nat_body_tl [OF assms(3,4), folded j_def]
  have shift: "x * 10 ^ (38 - k) * 10 ^ (k + 38 - u) = x * 10 ^ (38 - u) * 10 ^ 38"
    if "k \<le> 38" "u \<le> 38" for x k u :: nat
  proof -
    have "38 - k + (k + 38 - u) = 38 - u + 38" using that by simp
    then show ?thesis by (metis (no_types) mult.assoc power_add)
  qed
  have "lex_cmp cmp_lin (nat_body v s) (nat_body w t) =
        ord_then (cmp_lin (i + 38 - s) (j + 38 - t))
          (cmp_lin (v * 10 ^ (38 - i)) (w * 10 ^ (38 - j)))"
    unfolding nat_body_def Let_def i_def [symmetric] j_def [symmetric]
    by (simp only: lex_cmp.simps lex_cmp_digits [OF _ V(2) W(2)] V(1,3) W(1,3))
  also have "\<dots> = cmp_lin (v * 10 ^ (38 - i) * 10 ^ (i + 38 - s)) (w * 10 ^ (38 - j) * 10 ^ (j + 38 - t))"
    by (rule scientific_cmp) (simp_all only: V(3) [symmetric] W(3) [symmetric] V(4,5) W(4,5))
  also have "\<dots> = cmp_lin (v * 10 ^ (38 - s) * 10 ^ 38) (w * 10 ^ (38 - t) * 10 ^ 38)"
    by (simp only: shift [OF V(9) assms(5)] shift [OF W(9) assms(6)])
  also have "\<dots> = cmp_lin (v * 10 ^ (38 - s)) (w * 10 ^ (38 - t))"
    by (simp add: cmp_lin_def)
  finally show ?thesis .
qed

lemma nat_body_small:
  assumes "v \<noteq> 0" "v < 10 ^ 38" "d \<in> set (nat_body v s)"
  shows "d < 256"
proof -
  note V = nat_body_tl [OF assms(1,2)]
  from assms(3) have "d = length (digits_loop v []) + 38 - s \<or>
      d \<in> set (digits_loop v [] @ replicate (38 - length (digits_loop v [])) 0)"
    by (simp add: nat_body_def Let_def)
  then show ?thesis using V(2,9) by (elim disjE) fastforce+
qed

lemma length_nat_body: "v \<noteq> 0 \<Longrightarrow> v < 10 ^ 38 \<Longrightarrow> length (nat_body v s) = 39"
  using nat_body_tl(1) [of v] by (simp add: nat_body_def Let_def)

definition magnitude :: "decimal \<Rightarrow> nat" where
  "magnitude d = nat \<bar>coefficient d\<bar>"

lemma magnitude_eq_0 [simp]: "magnitude d = 0 \<longleftrightarrow> coefficient d = 0"
  by (simp add: magnitude_def)

lemma to_ordered_bytes_alt:
  "to_ordered_bytes d =
     (if coefficient d = 0 then 1 # replicate 39 0
      else if coefficient d < 0
      then 0 # map NOT (map of_nat (nat_body (magnitude d) (dscale d)))
      else 2 # map of_nat (nat_body (magnitude d) (dscale d)))"
  by (simp add: to_ordered_bytes_def nat_body_def Let_def magnitude_def)

lemma decimal_ok_nat:
  "decimal_ok d \<Longrightarrow> magnitude d < 10 ^ 38" "decimal_ok d \<Longrightarrow> dscale d \<le> 38"
  by (auto simp: decimal_ok_def max_coefficient_def magnitude_def)

lemma length_to_ordered_bytes [len_simps]: "decimal_ok d \<Longrightarrow> length (to_ordered_bytes d) = 40"
  using length_nat_body [of "magnitude d" "dscale d"] decimal_ok_nat [of d]
  by (simp add: to_ordered_bytes_alt)

lemma length_magnitude_body:
  "decimal_ok d \<Longrightarrow> coefficient d \<noteq> 0 \<Longrightarrow> length (nat_body (magnitude d) s) = 39"
  by (rule length_nat_body [OF _ decimal_ok_nat(1)]) simp_all

lemma cmp_lin_int_nat: "cmp_lin (int a) (int b) = cmp_lin a b"
  by (simp add: cmp_lin_def)

lemma body_bytes_cmp:
  assumes "decimal_ok a" "decimal_ok b" "coefficient a \<noteq> 0" "coefficient b \<noteq> 0"
  shows "lex_cmp cmp_lin
           (map of_nat (nat_body (magnitude a) (dscale a)) :: bytes)
           (map of_nat (nat_body (magnitude b) (dscale b))) =
         cmp_lin \<bar>units38 a\<bar> \<bar>units38 b\<bar>"
    (is "lex_cmp _ (map _ ?x) (map _ ?y) = _")
proof -
  have "lex_cmp cmp_lin (map of_nat ?x :: bytes) (map of_nat ?y) = lex_cmp cmp_lin ?x ?y"
  proof (rule lex_cmp_map_mono)
    fix d e assume "d \<in> set ?x" "e \<in> set ?y"
    then have "d < 256" "e < 256"
      using nat_body_small [of "magnitude a" d] nat_body_small [of "magnitude b" e]
        assms decimal_ok_nat by auto
    then show "cmp_lin (of_nat d :: u8) (of_nat e) = cmp_lin d e"
      by (auto simp: cmp_lin_def word_less_nat_alt word_unat_eq_iff unat_of_nat)
  qed
  also have "\<dots> = cmp_lin (magnitude a * 10 ^ (38 - dscale a)) (magnitude b * 10 ^ (38 - dscale b))"
    by (rule nat_body_cmp) (use assms decimal_ok_nat in auto)
  also have "\<dots> = cmp_lin \<bar>units38 a\<bar> \<bar>units38 b\<bar>"
    by (simp add: cmp_lin_int_nat [symmetric] units38_def abs_mult magnitude_def)
  finally show ?thesis .
qed

lemma units38_sgn: "sgn (units38 d) = sgn (coefficient d)"
  by (simp add: units38_def sgn_mult)

lemma decimal_cmp_units:
  assumes "decimal_ok a" "decimal_ok b"
  shows "decimal_cmp a b = cmp_lin (units38 a) (units38 b)"
proof -
  have sg: "units38 d = 0 \<longleftrightarrow> coefficient d = 0" "units38 d < 0 \<longleftrightarrow> coefficient d < 0"
    "units38 d > 0 \<longleftrightarrow> coefficient d > 0" for d
    using units38_sgn [of d] by (auto simp: sgn_if split: if_splits)
  consider "coefficient a = 0 \<or> coefficient b = 0"
    | "coefficient a < 0" "coefficient b > 0" | "coefficient a > 0" "coefficient b < 0"
    | "coefficient a > 0" "coefficient b > 0" | "coefficient a < 0" "coefficient b < 0"
    by linarith
  then show ?thesis
  proof cases
    case 4
    have "cmp_lin \<bar>units38 a\<bar> \<bar>units38 b\<bar> = cmp_lin (units38 a) (units38 b)"
      using 4 sg(3) [of a] sg(3) [of b] by simp
    with 4 body_bytes_cmp [OF assms] show ?thesis
      by (simp add: decimal_cmp_def to_ordered_bytes_alt lin_ord.cmp_refl)
  next
    case 5
    have "cmp_lin \<bar>units38 a\<bar> \<bar>units38 b\<bar> = ord_reverse (cmp_lin (units38 a) (units38 b))"
      using 5 sg(2) [of a] sg(2) [of b] by (auto simp: cmp_lin_def)
    with 5 body_bytes_cmp [OF assms] show ?thesis
      using lex_cmp_not [of "map of_nat (nat_body (magnitude a) (dscale a)) :: bytes"
          "map of_nat (nat_body (magnitude b) (dscale b))"]
      by (simp add: decimal_cmp_def to_ordered_bytes_alt lin_ord.cmp_refl
          length_magnitude_body assms)
  next
    case 1
    then show ?thesis
    proof (cases "coefficient a = 0 \<and> coefficient b = 0")
      case True
      with sg(1) [of a] sg(1) [of b] show ?thesis
        by (simp add: decimal_cmp_def to_ordered_bytes_alt lex_cmp_lin cmp_lin_def)
    next
      case False
      with 1 sg [of a] sg [of b] show ?thesis
        by (elim disjE) (simp_all add: decimal_cmp_def to_ordered_bytes_alt cmp_lin_def)
    qed
  qed (use sg(2,3) [of a] sg(2,3) [of b] in \<open>simp_all add: decimal_cmp_def to_ordered_bytes_alt cmp_lin_def\<close>)
qed

interpretation decimal_ord: rust_ord decimal_cmp
  by (rule rust_ord_image [where f = to_ordered_bytes]) (simp add: decimal_cmp_def lex_cmp_lin)

text \<open>The rational number a decimal denotes.\<close>

definition decimal_value :: "decimal \<Rightarrow> rat" where
  "decimal_value d = of_int (coefficient d) / 10 ^ dscale d"

lemma units38_value: "dscale d \<le> 38 \<Longrightarrow> of_int (units38 d) = decimal_value d * 10 ^ 38"
proof -
  assume "dscale d \<le> 38"
  then have "(10::rat) ^ 38 = 10 ^ (38 - dscale d) * 10 ^ dscale d"
    by (simp only: power_add [symmetric] le_add_diff_inverse2)
  then show ?thesis by (simp add: units38_def decimal_value_def field_simps)
qed

lemma cmp_units_value:
  assumes "dscale a \<le> 38" "dscale b \<le> 38"
  shows "cmp_lin (units38 a) (units38 b) = cmp_lin (decimal_value a) (decimal_value b)"
proof -
  have "cmp_lin (units38 a) (units38 b) = cmp_lin (of_int (units38 a) :: rat) (of_int (units38 b))"
    by (simp add: cmp_lin_def)
  also have "\<dots> = cmp_lin (decimal_value a * 10 ^ 38) (decimal_value b * 10 ^ 38)"
    by (simp only: units38_value assms)
  also have "\<dots> = cmp_lin (decimal_value a) (decimal_value b)"
    by (simp add: cmp_lin_def)
  finally show ?thesis .
qed

text \<open>
  C21: the byte order of the canonical 40-byte encoding, which is the \<open>Ord\<close> of decimals and the
  order of their index keys, is the order of the rational numbers they denote.
\<close>

theorem decimal_order_numeric:
  assumes "decimal_ok a" "decimal_ok b"
  shows "decimal_cmp a b = cmp_lin (decimal_value a) (decimal_value b)"
  using decimal_cmp_units [OF assms] cmp_units_value [of a b] assms by (simp add: decimal_ok_def)

theorem decimal_order_numeric_witness:
  "decimal_cmp \<lparr>coefficient = - 15, dscale = 1\<rparr> \<lparr>coefficient = - 140, dscale = 2\<rparr> = Less"
  using decimal_order_numeric [of "\<lparr>coefficient = - 15, dscale = 1\<rparr>" "\<lparr>coefficient = - 140, dscale = 2\<rparr>"]
  by (simp add: decimal_ok_def max_coefficient_def decimal_value_def cmp_lin_def)

end
