(* ===== verification/BTree_Map.thy ===== *)
theory BTree_Map
  imports Rust_Ord
begin

text \<open>
  \<open>BTreeMap<K, V>\<close> and \<open>BTreeSet<K>\<close> of Rust's standard library as strictly ascending
  association lists. A lookup compares with \<open>Ord\<close> only; inserting under an equal key replaces
  the value and keeps the resident key. The lemmas are proved once in the locale \<open>rust_ord\<close>
  and used through its interpretations by every component that owns an ordered map.
\<close>

type_synonym ('k, 'v) btree = "('k \<times> 'v) list"

primrec bt_get :: "('k \<Rightarrow> 'k \<Rightarrow> ordering) \<Rightarrow> 'k \<Rightarrow> ('k, 'v) btree \<Rightarrow> 'v option" where
  "bt_get c k [] = None"
| "bt_get c k (e # m) = (if c k (fst e) = Equal then Some (snd e) else bt_get c k m)"

definition bt_contains :: "('k \<Rightarrow> 'k \<Rightarrow> ordering) \<Rightarrow> 'k \<Rightarrow> ('k, 'v) btree \<Rightarrow> bool" where
  "bt_contains c k m = (bt_get c k m \<noteq> None)"

primrec bt_insert ::
    "('k \<Rightarrow> 'k \<Rightarrow> ordering) \<Rightarrow> 'k \<Rightarrow> 'v \<Rightarrow> ('k, 'v) btree \<Rightarrow> ('k, 'v) btree" where
  "bt_insert c k v [] = [(k, v)]"
| "bt_insert c k v (e # m) =
     (case c k (fst e) of
        Less \<Rightarrow> (k, v) # e # m
      | Equal \<Rightarrow> (fst e, v) # m
      | Greater \<Rightarrow> e # bt_insert c k v m)"

primrec bt_remove :: "('k \<Rightarrow> 'k \<Rightarrow> ordering) \<Rightarrow> 'k \<Rightarrow> ('k, 'v) btree \<Rightarrow> ('k, 'v) btree" where
  "bt_remove c k [] = []"
| "bt_remove c k (e # m) = (if c k (fst e) = Equal then m else e # bt_remove c k m)"

text \<open>\<open>split_off\<close> keeps the keys below the argument and returns the others.\<close>

definition bt_split_off ::
    "('k \<Rightarrow> 'k \<Rightarrow> ordering) \<Rightarrow> 'k \<Rightarrow> ('k, 'v) btree \<Rightarrow> ('k, 'v) btree \<times> ('k, 'v) btree" where
  "bt_split_off c k m =
     (takeWhile (\<lambda>e. c (fst e) k = Less) m, dropWhile (\<lambda>e. c (fst e) k = Less) m)"

definition bt_sorted :: "('k \<Rightarrow> 'k \<Rightarrow> ordering) \<Rightarrow> ('k, 'v) btree \<Rightarrow> bool" where
  "bt_sorted c m = sorted_wrt (\<lambda>a b. c (fst a) (fst b) = Less) m"

text \<open>A set is a map to the unit value; its elements are the keys.\<close>

definition bts_insert :: "('k \<Rightarrow> 'k \<Rightarrow> ordering) \<Rightarrow> 'k \<Rightarrow> 'k list \<Rightarrow> 'k list" where
  "bts_insert c k s = map fst (bt_insert c k () (map (\<lambda>x. (x, ())) s))"

definition bts_of :: "('k \<Rightarrow> 'k \<Rightarrow> ordering) \<Rightarrow> 'k list \<Rightarrow> 'k list" where
  "bts_of c ks = fold (bts_insert c) ks []"

lemma bt_sorted_simps [simp]:
  "bt_sorted c []"
  "bt_sorted c (e # m) \<longleftrightarrow> (\<forall>x \<in> set m. c (fst e) (fst x) = Less) \<and> bt_sorted c m"
  by (simp_all add: bt_sorted_def)

lemma bt_sorted_append:
  "bt_sorted c (m @ n) \<longleftrightarrow>
     bt_sorted c m \<and> bt_sorted c n \<and> (\<forall>x \<in> set m. \<forall>y \<in> set n. c (fst x) (fst y) = Less)"
  by (auto simp: bt_sorted_def sorted_wrt_append)

lemma bt_get_append:
  "bt_get c k (m @ n) = (case bt_get c k m of None \<Rightarrow> bt_get c k n | Some v \<Rightarrow> Some v)"
  by (induction m) auto

lemma bt_get_None_iff: "bt_get c k m = None \<longleftrightarrow> (\<forall>e \<in> set m. c k (fst e) \<noteq> Equal)"
  by (induction m) auto

lemma bt_get_SomeD: "bt_get c k m = Some v \<Longrightarrow> \<exists>k'. (k', v) \<in> set m \<and> c k k' = Equal"
  by (induction m) (auto split: if_splits)

lemma bt_sorted_filter: "bt_sorted c m \<Longrightarrow> bt_sorted c (filter P m)"
  by (simp add: bt_sorted_def sorted_wrt_filter)

lemma bt_remove_absent: "bt_get c k m = None \<Longrightarrow> bt_remove c k m = m"
  by (induction m) (auto split: if_splits)

lemma set_bt_remove_subset: "set (bt_remove c k m) \<subseteq> set m"
  by (induction m) auto

context rust_ord begin

lemma bt_get_Some_iff:
  assumes "bt_sorted cmp m"
  shows "bt_get cmp k m = Some v \<longleftrightarrow> (\<exists>k'. (k', v) \<in> set m \<and> cmp k k' = Equal)"
  using assms
proof (induction m)
  case Nil
  then show ?case by simp
next
  case (Cons e m)
  show ?case
  proof (cases "cmp k (fst e) = Equal")
    case True
    with Cons.prems have "cmp k (fst x) = Less" if "x \<in> set m" for x
      using that by (simp add: cmp_Equal_left [of k "fst e"])
    with True show ?thesis by (cases e) force
  next
    case False
    with Cons show ?thesis by (cases e) auto
  qed
qed

lemma bt_get_cong_key: "cmp k k' = Equal \<Longrightarrow> bt_get cmp k m = bt_get cmp k' m"
  by (induction m) (auto simp: cmp_Equal_left [of k k'])

lemma keys_bt_insert:
  "e \<in> set (bt_insert cmp k v m) \<Longrightarrow> fst e = k \<or> fst e \<in> fst ` set m"
  by (induction m) (auto split: ordering.splits)

lemma bt_sorted_insert:
  "bt_sorted cmp m \<Longrightarrow> bt_sorted cmp (bt_insert cmp k v m)"
proof (induction m)
  case Nil
  then show ?case by simp
next
  case (Cons e m)
  show ?case
  proof (cases "cmp k (fst e)")
    case Less
    with Cons.prems show ?thesis by (auto intro: cmp_lt_trans)
  next
    case Equal
    with Cons.prems show ?thesis by auto
  next
    case Greater
    then have "cmp (fst e) k = Less" by (simp add: cmp_Less_rev)
    with Cons Greater show ?thesis
      by (auto dest!: keys_bt_insert)
  qed
qed

lemma bt_get_insert:
  assumes "bt_sorted cmp m"
  shows "bt_get cmp k' (bt_insert cmp k v m) =
    (if cmp k' k = Equal then Some v else bt_get cmp k' m)"
  using assms
proof (induction m)
  case Nil
  then show ?case by simp
next
  case (Cons e m)
  show ?case
  proof (cases "cmp k (fst e)")
    case Less
    then show ?thesis by simp
  next
    case Equal
    then have "cmp k' k = cmp k' (fst e)" by (rule cmp_Equal_right)
    with Equal show ?thesis by auto
  next
    case Greater
    then have "cmp k' k = Equal \<Longrightarrow> cmp k' (fst e) \<noteq> Equal"
      by (simp add: cmp_Equal_left [of k' k])
    with Cons Greater show ?thesis by auto
  qed
qed

lemma length_bt_insert:
  assumes "bt_sorted cmp m"
  shows "length (bt_insert cmp k v m) =
    (if bt_get cmp k m = None then Suc (length m) else length m)"
  using assms
proof (induction m)
  case Nil
  then show ?case by simp
next
  case (Cons e m)
  show ?case
  proof (cases "cmp k (fst e)")
    case Less
    with Cons.prems have "bt_get cmp k m = None"
      by (auto simp: bt_get_None_iff dest: cmp_lt_trans)
    with Less show ?thesis by simp
  qed (use Cons in auto)
qed

lemma bt_sorted_remove: "bt_sorted cmp m \<Longrightarrow> bt_sorted cmp (bt_remove cmp k m)"
  by (induction m) (auto dest: set_bt_remove_subset [THEN subsetD])

lemma bt_get_remove:
  assumes "bt_sorted cmp m"
  shows "bt_get cmp k' (bt_remove cmp k m) =
    (if cmp k' k = Equal then None else bt_get cmp k' m)"
  using assms
proof (induction m)
  case Nil
  then show ?case by simp
next
  case (Cons e m)
  show ?case
  proof (cases "cmp k (fst e) = Equal")
    case True
    then have eq: "cmp k' k = cmp k' (fst e)" by (rule cmp_Equal_right)
    have "cmp k' (fst e) = Equal \<Longrightarrow> bt_get cmp k' m = None"
      using Cons.prems by (simp add: bt_get_None_iff cmp_Equal_left [of k' "fst e"])
    with True eq show ?thesis by auto
  next
    case False
    then have "cmp k' k = Equal \<Longrightarrow> cmp k' (fst e) \<noteq> Equal"
      by (simp add: cmp_Equal_left [of k' k])
    with Cons False show ?thesis by auto
  qed
qed

text \<open>Inserting into a map cut in two at a key that the left part stays below.\<close>

lemma bt_insert_append_left:
  assumes "bt_sorted cmp (m @ n)" "n = [] \<or> cmp k (fst (hd n)) = Less"
  shows "bt_insert cmp k v (m @ n) = bt_insert cmp k v m @ n"
  using assms
proof (induction m)
  case Nil
  then show ?case by (cases n) auto
next
  case (Cons e m)
  then show ?case by (auto split: ordering.splits)
qed

lemma bt_insert_append_right:
  assumes "\<forall>e \<in> set m. cmp (fst e) k = Less"
  shows "bt_insert cmp k v (m @ n) = m @ bt_insert cmp k v n"
  using assms by (induction m) (auto simp: cmp_Less_rev)

lemma bt_remove_append:
  "bt_remove cmp k (m @ n) =
    (if bt_get cmp k m = None then m @ bt_remove cmp k n else bt_remove cmp k m @ n)"
  by (induction m) auto

lemma bt_get_above:
  assumes "bt_sorted cmp m" "m \<noteq> []" "cmp (fst (last m)) k = Less"
  shows "bt_get cmp k m = None"
proof -
  obtain n l where m: "m = n @ [l]"
    using assms(2) by (cases m rule: rev_cases) auto
  have "cmp (fst e) k = Less" if "e \<in> set m" for e
    using that assms(1,3) by (auto simp: m bt_sorted_append intro: cmp_lt_trans)
  then show ?thesis
    by (auto simp: bt_get_None_iff cmp_Less_rev)
qed

lemma bt_get_below:
  assumes "bt_sorted cmp m" "m \<noteq> [] \<Longrightarrow> cmp k (fst (hd m)) = Less"
  shows "bt_get cmp k m = None"
  using assms by (cases m) (auto simp: bt_get_None_iff dest: cmp_lt_trans)

end

lemma keys_bt_insert_lin: "fst ` set (bt_insert cmp_lin k v m) = insert k (fst ` set m)"
  by (induction m) (simp_all add: cmp_lin_def insert_commute)

lemma set_bts_insert_lin [simp]:
  "set (bts_insert cmp_lin k s) = insert k (set s)"
  by (simp only: bts_insert_def set_map keys_bt_insert_lin) (simp add: image_image)

lemma set_bts_of_lin [simp]: "set (bts_of cmp_lin ks) = set ks"
proof -
  have "set (fold (bts_insert cmp_lin) ks s) = set ks \<union> set s" for s
    by (induction ks arbitrary: s) auto
  then show ?thesis by (simp add: bts_of_def)
qed

end
