(* ===== verification/Relational_Value.thy ===== *)
theory Relational_Value
  imports Decimal BTree_Map
begin

text \<open>
  Relational scalars and keys (\<open>crates/storage/src/relational.rs\<close>), the overflow reference of
  \<open>relational/overflow.rs\<close> and the timestamp precision of \<open>crates/core/src/sql_timestamp.rs\<close>.
  \<open>i64\<close> payloads and the bits of an \<open>f64\<close> are 64-bit words; text and binary payloads are byte
  lists. \<open>value_cmp\<close> is the hand-written \<open>Ord\<close> of \<open>RelationalValue\<close>; \<open>key_cmp\<close> the derived
  one of \<open>RelationalKey\<close>. Both are interpretations of \<open>rust_ord\<close>.
\<close>

section \<open>Timestamps\<close>

text \<open>
  The range of representable microseconds is that of chrono's \<open>NaiveDateTime\<close>, a third-party
  type: its two ends are a parameter.
\<close>

record chrono_range =
  min_micros :: int
  max_micros :: int

datatype timestamp_error = TimestampOutOfRange

definition postgres_epoch_micros :: int where
  "postgres_epoch_micros = 946684800 * 1000000"

definition timestamp_precision_new :: "nat \<Rightarrow> nat option" where
  "timestamp_precision_new p = (if p \<le> 6 then Some p else None)"

fun timestamp_scale_loop :: "int \<Rightarrow> nat \<Rightarrow> int" where
  "timestamp_scale_loop scale 0 = scale"
| "timestamp_scale_loop scale (Suc digits) = timestamp_scale_loop (scale * 10) digits"

definition timestamp_scale :: "nat \<Rightarrow> int" where
  "timestamp_scale p = timestamp_scale_loop 1 (6 - p)"

definition timestamp_in_range :: "chrono_range \<Rightarrow> int \<Rightarrow> bool" where
  "timestamp_in_range R micros \<longleftrightarrow> min_micros R \<le> micros \<and> micros \<le> max_micros R"

definition timestamp_checked :: "chrono_range \<Rightarrow> int \<Rightarrow> timestamp_error + int" where
  "timestamp_checked R micros = (if timestamp_in_range R micros then Inr micros else Inl TimestampOutOfRange)"

definition timestamp_round :: "chrono_range \<Rightarrow> nat \<Rightarrow> int \<Rightarrow> timestamp_error + int" where
  "timestamp_round R p micros =
     (let scale = timestamp_scale p in
      if scale = 1 then Inr micros
      else
        let relative = micros - postgres_epoch_micros;
            offset = scale sdiv 2;
            rounded = (if relative \<ge> 0 then (relative + offset) sdiv scale * scale
                       else - ((- relative + offset) sdiv scale * scale));
            v = rounded + postgres_epoch_micros
        in if - (2 ^ 63) \<le> v \<and> v < 2 ^ 63 \<and> timestamp_in_range R v then Inr v
           else Inl TimestampOutOfRange)"

definition timestamp_accepts :: "chrono_range \<Rightarrow> nat \<Rightarrow> int \<Rightarrow> bool" where
  "timestamp_accepts R p micros \<longleftrightarrow>
     timestamp_in_range R micros \<and> timestamp_round R p micros = Inr micros"

section \<open>Scalar types and values\<close>

datatype scalar_type =
    BooleanT
  | BigIntT
  | DoublePrecisionT
  | DecimalT decimal_type
  | TextT
  | ByteaT
  | UuidT
  | VectorT nat
  | TimestampT nat
  | TimestampTzT nat

record overflow_ref =
  digest :: bytes
  overflow_scalar_type :: scalar_type
  compressed_bytes :: u64
  uncompressed_bytes :: u64

datatype rvalue =
    Null
  | Boolean bool
  | BigInt i64
  | DoublePrecision u64
  | DecimalV decimal
  | Text bytes
  | Bytea bytes
  | VectorV bytes
  | Uuid bytes
  | Timestamp i64
  | TimestampTz i64
  | Overflow overflow_ref

type_synonym rkey = "rvalue list"

definition vector_dimension :: "bytes \<Rightarrow> nat" where
  "vector_dimension encoded = le_nat (take 4 encoded)"

fun value_scalar_type :: "rvalue \<Rightarrow> scalar_type option" where
  "value_scalar_type Null = None"
| "value_scalar_type (Boolean _) = Some BooleanT"
| "value_scalar_type (BigInt _) = Some BigIntT"
| "value_scalar_type (DoublePrecision _) = Some DoublePrecisionT"
| "value_scalar_type (DecimalV d) = Some (DecimalT (decimal_type_of d))"
| "value_scalar_type (Text _) = Some TextT"
| "value_scalar_type (Bytea _) = Some ByteaT"
| "value_scalar_type (VectorV v) = Some (VectorT (vector_dimension v))"
| "value_scalar_type (Uuid _) = Some UuidT"
| "value_scalar_type (Timestamp _) = Some (TimestampT 6)"
| "value_scalar_type (TimestampTz _) = Some (TimestampTzT 6)"
| "value_scalar_type (Overflow r) = Some (overflow_scalar_type r)"

definition same_value_domain :: "scalar_type \<Rightarrow> scalar_type option \<Rightarrow> bool" where
  "same_value_domain t other \<longleftrightarrow>
     (case (t, other) of
        (DecimalT _, Some (DecimalT _)) \<Rightarrow> True
      | (TimestampT _, Some (TimestampT _)) \<Rightarrow> True
      | (TimestampTzT _, Some (TimestampTzT _)) \<Rightarrow> True
      | _ \<Rightarrow> False) \<or> other = Some t"

definition value_type_matches :: "scalar_type \<Rightarrow> scalar_type option \<Rightarrow> bool" where
  "value_type_matches t value_type \<longleftrightarrow>
     (case (t, value_type) of
        (TimestampT _, Some (TimestampT _)) \<Rightarrow> True
      | (TimestampTzT _, Some (TimestampTzT _)) \<Rightarrow> True
      | _ \<Rightarrow> value_type = Some t)"

definition type_holds :: "chrono_range \<Rightarrow> scalar_type \<Rightarrow> rvalue \<Rightarrow> bool" where
  "type_holds R t value \<longleftrightarrow>
     (case (t, value) of
        (TimestampT p, Timestamp v) \<Rightarrow> timestamp_accepts R p (sint v)
      | (TimestampTzT p, TimestampTz v) \<Rightarrow> timestamp_accepts R p (sint v)
      | _ \<Rightarrow> value_scalar_type value = Some t)"

definition type_accepts :: "chrono_range \<Rightarrow> scalar_type \<Rightarrow> rvalue \<Rightarrow> bool" where
  "type_accepts R t value \<longleftrightarrow>
     (case (t, value) of
        (_, Null) \<Rightarrow> True
      | (DecimalT k, DecimalV d) \<Rightarrow> accepts k d
      | (TimestampT p, Timestamp v) \<Rightarrow> timestamp_accepts R p (sint v)
      | (TimestampTzT p, TimestampTz v) \<Rightarrow> timestamp_accepts R p (sint v)
      | _ \<Rightarrow> value_scalar_type value = Some t)"

text \<open>\<open>size_of::<RelationalOverflowRef>()\<close> is chosen by the compiler: it is a parameter.\<close>

fun estimated_payload_bytes :: "nat \<Rightarrow> rvalue \<Rightarrow> nat" where
  "estimated_payload_bytes overflow_size Null = 0"
| "estimated_payload_bytes overflow_size (Boolean _) = 1"
| "estimated_payload_bytes overflow_size (BigInt _) = 8"
| "estimated_payload_bytes overflow_size (DoublePrecision _) = 8"
| "estimated_payload_bytes overflow_size (Timestamp _) = 8"
| "estimated_payload_bytes overflow_size (TimestampTz _) = 8"
| "estimated_payload_bytes overflow_size (DecimalV _) = 17"
| "estimated_payload_bytes overflow_size (Text t) = length t"
| "estimated_payload_bytes overflow_size (Bytea b) = length b"
| "estimated_payload_bytes overflow_size (VectorV v) = length v"
| "estimated_payload_bytes overflow_size (Uuid _) = 16"
| "estimated_payload_bytes overflow_size (Overflow _) = overflow_size"

section \<open>The order of values and keys\<close>

fun kind_rank :: "rvalue \<Rightarrow> nat" where
  "kind_rank Null = 0"
| "kind_rank (Boolean _) = 1"
| "kind_rank (BigInt _) = 2"
| "kind_rank (DecimalV _) = 9"
| "kind_rank (DoublePrecision _) = 3"
| "kind_rank (Text _) = 4"
| "kind_rank (Bytea _) = 5"
| "kind_rank (VectorV _) = 8"
| "kind_rank (Uuid _) = 6"
| "kind_rank (Overflow _) = 7"
| "kind_rank (Timestamp _) = 10"
| "kind_rank (TimestampTz _) = 11"

text \<open>The derived order of \<open>RelationalScalarType\<close>: the variant's position, then its payload.\<close>

fun scalar_type_order :: "scalar_type \<Rightarrow> nat \<times> nat \<times> nat" where
  "scalar_type_order BooleanT = (0, 0, 0)"
| "scalar_type_order BigIntT = (1, 0, 0)"
| "scalar_type_order DoublePrecisionT = (2, 0, 0)"
| "scalar_type_order (DecimalT t) = (3, dt_precision t, dt_scale t)"
| "scalar_type_order TextT = (4, 0, 0)"
| "scalar_type_order ByteaT = (5, 0, 0)"
| "scalar_type_order UuidT = (6, 0, 0)"
| "scalar_type_order (VectorT d) = (7, d, 0)"
| "scalar_type_order (TimestampT p) = (8, p, 0)"
| "scalar_type_order (TimestampTzT p) = (9, p, 0)"

definition overflow_ref_cmp :: "overflow_ref \<Rightarrow> overflow_ref \<Rightarrow> ordering" where
  "overflow_ref_cmp a b =
     ord_then (lex_cmp cmp_lin (digest a) (digest b))
       (ord_then (cmp_lin (scalar_type_order (overflow_scalar_type a)) (scalar_type_order (overflow_scalar_type b)))
         (ord_then (cmp_lin (compressed_bytes a) (compressed_bytes b))
           (cmp_lin (uncompressed_bytes a) (uncompressed_bytes b))))"

text \<open>\<open>f64::total_cmp\<close>: the bits as a signed integer, with the magnitude bits of a negative flipped.\<close>

definition total_bits :: "u64 \<Rightarrow> i64" where
  "total_bits b = (if bit b 63 then b XOR mask 63 else b)"

definition f64_total_cmp :: "u64 \<Rightarrow> u64 \<Rightarrow> ordering" where
  "f64_total_cmp a b = cmp_lin (sint (total_bits a)) (sint (total_bits b))"

definition payload_cmp :: "rvalue \<Rightarrow> rvalue \<Rightarrow> ordering" where
  "payload_cmp l r =
     (case (l, r) of
        (Null, Null) \<Rightarrow> Equal
      | (Boolean a, Boolean b) \<Rightarrow> cmp_lin a b
      | (BigInt a, BigInt b) \<Rightarrow> cmp_lin (sint a) (sint b)
      | (DecimalV a, DecimalV b) \<Rightarrow> decimal_cmp a b
      | (DoublePrecision a, DoublePrecision b) \<Rightarrow> f64_total_cmp a b
      | (Text a, Text b) \<Rightarrow> lex_cmp cmp_lin a b
      | (Bytea a, Bytea b) \<Rightarrow> lex_cmp cmp_lin a b
      | (VectorV a, VectorV b) \<Rightarrow> lex_cmp cmp_lin a b
      | (Uuid a, Uuid b) \<Rightarrow> lex_cmp cmp_lin a b
      | (Timestamp a, Timestamp b) \<Rightarrow> cmp_lin (sint a) (sint b)
      | (TimestampTz a, TimestampTz b) \<Rightarrow> cmp_lin (sint a) (sint b)
      | (Overflow a, Overflow b) \<Rightarrow> overflow_ref_cmp a b
      | _ \<Rightarrow> Equal)"

definition value_cmp :: "rvalue \<Rightarrow> rvalue \<Rightarrow> ordering" where
  "value_cmp a b = ord_then (cmp_lin (kind_rank a) (kind_rank b)) (payload_cmp a b)"

definition value_eq :: "rvalue \<Rightarrow> rvalue \<Rightarrow> bool" where
  "value_eq a b \<longleftrightarrow> value_cmp a b = Equal"

definition key_cmp :: "rkey \<Rightarrow> rkey \<Rightarrow> ordering" where
  "key_cmp = lex_cmp value_cmp"

section \<open>Both orders satisfy the contract of Ord\<close>

definition bytes_image :: "bytes \<Rightarrow> int list" where
  "bytes_image bs = map uint bs"

text \<open>An image of a value in a linear order, compared exactly as the value is.\<close>

fun value_image :: "rvalue \<Rightarrow> nat \<times> int list \<times> int list" where
  "value_image Null = (0, [], [])"
| "value_image (Boolean b) = (1, [of_bool b], [])"
| "value_image (BigInt i) = (2, [sint i], [])"
| "value_image (DecimalV d) = (9, bytes_image (to_ordered_bytes d), [])"
| "value_image (DoublePrecision d) = (3, [sint (total_bits d)], [])"
| "value_image (Text t) = (4, bytes_image t, [])"
| "value_image (Bytea b) = (5, bytes_image b, [])"
| "value_image (VectorV v) = (8, bytes_image v, [])"
| "value_image (Uuid u) = (6, bytes_image u, [])"
| "value_image (Overflow r) =
     (7, bytes_image (digest r),
      (case scalar_type_order (overflow_scalar_type r) of (a, b, c) \<Rightarrow>
         [int a, int b, int c, uint (compressed_bytes r), uint (uncompressed_bytes r)]))"
| "value_image (Timestamp t) = (10, [sint t], [])"
| "value_image (TimestampTz t) = (11, [sint t], [])"

lemma bytes_image_cmp: "lex_cmp cmp_lin xs ys = cmp_lin (bytes_image xs) (bytes_image ys)"
proof -
  have "lex_cmp cmp_lin (map uint xs) (map uint ys) = lex_cmp cmp_lin xs ys"
    by (rule lex_cmp_map_mono) (auto simp: cmp_lin_def word_less_def word_uint_eq_iff)
  then show ?thesis by (simp add: bytes_image_def lex_cmp_lin)
qed

lemma cmp_lin_tagged:
  "cmp_lin (n, a, b) (n, c, d) = ord_then (cmp_lin a c) (cmp_lin b d)"
  by (auto simp: cmp_lin_def less_prod_def)

lemma cmp_lin_single: "cmp_lin [x] [y] = cmp_lin x y"
  by (simp add: cmp_lin_def)

lemma cmp_lin_rank: "m \<noteq> n \<Longrightarrow> cmp_lin (m, x) (n, y) = cmp_lin m n"
  by (auto simp: cmp_lin_def less_prod_def)

lemma cmp_lin_Cons: "cmp_lin (x # xs) (y # ys) = ord_then (cmp_lin x y) (cmp_lin xs ys)"
  by (auto simp: cmp_lin_def)

lemma cmp_lin_uint: "cmp_lin (uint a) (uint b) = cmp_lin a b"
  by (simp add: cmp_lin_def word_less_def word_uint_eq_iff)

lemma ord_then_Equal_right [simp]: "ord_then a Equal = a"
  by (cases a) simp_all

lemma overflow_ref_image:
  "overflow_ref_cmp a b = cmp_lin (value_image (Overflow a)) (value_image (Overflow b))"
proof -
  obtain i j k where a: "scalar_type_order (overflow_scalar_type a) = (i, j, k)" by (rule prod_cases3)
  obtain l m n where b: "scalar_type_order (overflow_scalar_type b) = (l, m, n)" by (rule prod_cases3)
  show ?thesis
    by (simp add: overflow_ref_cmp_def a b bytes_image_cmp cmp_lin_tagged cmp_lin_Cons cmp_lin_uint
        cmp_lin_int_nat cmp_lin_prod [symmetric] ord_then_assoc lin_ord.cmp_refl)
qed

lemma value_image_rank: "\<exists>x. value_image v = (kind_rank v, x)"
  by (cases v) auto

lemma payload_image:
  assumes "kind_rank a = kind_rank b"
  shows "payload_cmp a b = cmp_lin (value_image a) (value_image b)"
proof (cases a)
  case (Overflow r)
  with assms obtain r' where "b = Overflow r'" by (cases b) simp_all
  with Overflow show ?thesis by (simp add: payload_cmp_def overflow_ref_image)
next
  case (Boolean x)
  with assms obtain y where "b = Boolean y" by (cases b) simp_all
  with Boolean show ?thesis by (auto simp: payload_cmp_def cmp_lin_def)
qed (use assms in \<open>cases b; simp add: payload_cmp_def cmp_lin_tagged bytes_image_cmp
    f64_total_cmp_def decimal_cmp_def lin_ord.cmp_refl cmp_lin_single\<close>)+

lemma value_cmp_image: "value_cmp a b = cmp_lin (value_image a) (value_image b)"
proof (cases "kind_rank a = kind_rank b")
  case True
  then show ?thesis by (simp add: value_cmp_def payload_image lin_ord.cmp_refl)
next
  case False
  obtain x y where "value_image a = (kind_rank a, x)" "value_image b = (kind_rank b, y)"
    using value_image_rank by metis
  moreover have "ord_then (cmp_lin (kind_rank a) (kind_rank b)) z = cmp_lin (kind_rank a) (kind_rank b)" for z
    using False by (simp add: cmp_lin_def)
  ultimately show ?thesis using False by (simp add: value_cmp_def cmp_lin_rank)
qed

interpretation value_ord: rust_ord value_cmp
  by (rule rust_ord_image [OF value_cmp_image])

lemma lex_cmp_image:
  assumes "\<And>x y. cmp x y = cmp_lin (f x) (f y)"
  shows "lex_cmp cmp xs ys = cmp_lin (map f xs) (map f ys)"
proof (induction xs arbitrary: ys)
  case Nil
  then show ?case by (cases ys) (simp_all add: cmp_lin_def)
next
  case (Cons x xs)
  then show ?case by (cases ys) (simp_all add: assms cmp_lin_Cons, simp add: cmp_lin_def)
qed

lemma key_cmp_image: "key_cmp a b = cmp_lin (map value_image a) (map value_image b)"
  unfolding key_cmp_def by (rule lex_cmp_image) (rule value_cmp_image)

interpretation key_ord: rust_ord key_cmp
  by (rule rust_ord_image [OF key_cmp_image])

end
