(* ===== verification/Lock_Target.thy ===== *)
theory Lock_Target
  imports Relational_Value "HOL-Library.Char_ord" "HOL-Library.Option_ord"
begin

text \<open>
  Lock modes, targets and requests of \<open>crates/storage/src/transaction_locks.rs\<close>, with the three
  relations the lock table is built on (\<open>mode_covers\<close>/\<open>target_covers\<close>,
  \<open>modes_conflict\<close>/\<open>targets_overlap\<close>, \<open>acquisition_cmp\<close>).

  The specification is the set of resources a target stands for (\<open>resources\<close>): covering implies
  inclusion of these sets and is inclusion for a nonempty requested target with closed or absent
  ends; overlap is never missed. The order in which a transaction acquires its locks is a total
  preorder.
\<close>

section \<open>Interval bounds\<close>

datatype 'a bound = Included 'a | Excluded 'a | Unbounded

definition lower_bound_covers :: "('a \<Rightarrow> 'a \<Rightarrow> ordering) \<Rightarrow> 'a bound \<Rightarrow> 'a bound \<Rightarrow> bool" where
  "lower_bound_covers cmp held requested \<longleftrightarrow>
     (case (held, requested) of
        (Unbounded, _) \<Rightarrow> True
      | (_, Unbounded) \<Rightarrow> False
      | (Included h, Included r) \<Rightarrow> cmp h r \<noteq> Greater
      | (Included h, Excluded r) \<Rightarrow> cmp h r \<noteq> Greater
      | (Excluded h, Included r) \<Rightarrow> cmp h r = Less
      | (Excluded h, Excluded r) \<Rightarrow> cmp h r \<noteq> Greater)"

definition upper_bound_covers :: "('a \<Rightarrow> 'a \<Rightarrow> ordering) \<Rightarrow> 'a bound \<Rightarrow> 'a bound \<Rightarrow> bool" where
  "upper_bound_covers cmp held requested \<longleftrightarrow>
     (case (held, requested) of
        (Unbounded, _) \<Rightarrow> True
      | (_, Unbounded) \<Rightarrow> False
      | (Included h, Included r) \<Rightarrow> cmp h r \<noteq> Less
      | (Included h, Excluded r) \<Rightarrow> cmp h r \<noteq> Less
      | (Excluded h, Included r) \<Rightarrow> cmp h r = Greater
      | (Excluded h, Excluded r) \<Rightarrow> cmp h r \<noteq> Less)"

definition upper_is_before_lower :: "('a \<Rightarrow> 'a \<Rightarrow> ordering) \<Rightarrow> 'a bound \<Rightarrow> 'a bound \<Rightarrow> bool" where
  "upper_is_before_lower cmp upper lower \<longleftrightarrow>
     (case (upper, lower) of
        (Unbounded, _) \<Rightarrow> False
      | (_, Unbounded) \<Rightarrow> False
      | (Included u, Included l) \<Rightarrow> cmp u l = Less
      | (Included u, Excluded l) \<Rightarrow> cmp u l \<noteq> Greater
      | (Excluded u, Included l) \<Rightarrow> cmp u l \<noteq> Greater
      | (Excluded u, Excluded l) \<Rightarrow> cmp u l \<noteq> Greater)"

definition bound_cmp :: "('a \<Rightarrow> 'a \<Rightarrow> ordering) \<Rightarrow> 'a bound \<Rightarrow> 'a bound \<Rightarrow> ordering" where
  "bound_cmp cmp left right =
     (case (left, right) of
        (Unbounded, Unbounded) \<Rightarrow> Equal
      | (Unbounded, _) \<Rightarrow> Less
      | (_, Unbounded) \<Rightarrow> Greater
      | (Included l, Included r) \<Rightarrow> cmp l r
      | (Excluded l, Excluded r) \<Rightarrow> cmp l r
      | (Included l, Excluded r) \<Rightarrow> ord_then (cmp l r) Less
      | (Excluded l, Included r) \<Rightarrow> ord_then (cmp l r) Greater)"

text \<open>The derived equality of \<open>Bound\<close>, given that of its payload.\<close>

definition bound_eq :: "('a \<Rightarrow> 'a \<Rightarrow> bool) \<Rightarrow> 'a bound \<Rightarrow> 'a bound \<Rightarrow> bool" where
  "bound_eq eq left right \<longleftrightarrow>
     (case (left, right) of
        (Included l, Included r) \<Rightarrow> eq l r
      | (Excluded l, Excluded r) \<Rightarrow> eq l r
      | (Unbounded, Unbounded) \<Rightarrow> True
      | _ \<Rightarrow> False)"

text \<open>What a bound means: the keys on its inner side.\<close>

fun above :: "('a \<Rightarrow> 'a \<Rightarrow> ordering) \<Rightarrow> 'a bound \<Rightarrow> 'a \<Rightarrow> bool" where
  "above cmp (Included l) k \<longleftrightarrow> cmp l k \<noteq> Greater"
| "above cmp (Excluded l) k \<longleftrightarrow> cmp l k = Less"
| "above cmp Unbounded k \<longleftrightarrow> True"

fun below :: "('a \<Rightarrow> 'a \<Rightarrow> ordering) \<Rightarrow> 'a bound \<Rightarrow> 'a \<Rightarrow> bool" where
  "below cmp (Included u) k \<longleftrightarrow> cmp k u \<noteq> Greater"
| "below cmp (Excluded u) k \<longleftrightarrow> cmp k u = Less"
| "below cmp Unbounded k \<longleftrightarrow> True"

section \<open>Modes, targets and requests\<close>

datatype lock_mode = Shared | Exclusive | OptimisticCommit

datatype lock_namespace = RelationalIndex string "string list"

datatype graph_allocation_kind = NodeAllocation | RelationshipAllocation

datatype graph_adjacency_direction = Outgoing | Incoming

datatype lock_target =
    Database
  | RelationalTable string
  | RelationalRange lock_namespace "rkey bound" "rkey bound"
  | GraphAllocation graph_allocation_kind
  | GraphLabel string
  | GraphRelationshipType string
  | GraphNode u64
  | GraphRelationship u64
  | GraphNodeDeleteGuard u64
  | GraphAdjacency u64 "u32 option" graph_adjacency_direction

record lock_request =
  mode :: lock_mode
  target :: lock_target

definition relational_table :: "lock_mode \<Rightarrow> string \<Rightarrow> lock_request" where
  "relational_table m table = \<lparr>mode = m, target = RelationalTable table\<rparr>"

definition relational_range ::
  "lock_mode \<Rightarrow> string \<Rightarrow> string list \<Rightarrow> rkey bound \<Rightarrow> rkey bound \<Rightarrow> lock_request" where
  "relational_range m table columns lower upper =
     \<lparr>mode = m, target = RelationalRange (RelationalIndex table columns) lower upper\<rparr>"

definition relational_point :: "lock_mode \<Rightarrow> string \<Rightarrow> string list \<Rightarrow> rkey \<Rightarrow> lock_request" where
  "relational_point m table columns key =
     relational_range m table columns (Included key) (Included key)"

definition graph_allocation :: "graph_allocation_kind \<Rightarrow> lock_request" where
  "graph_allocation kind = \<lparr>mode = Exclusive, target = GraphAllocation kind\<rparr>"

definition graph_adjacency ::
  "lock_mode \<Rightarrow> u64 \<Rightarrow> u32 option \<Rightarrow> graph_adjacency_direction \<Rightarrow> lock_request" where
  "graph_adjacency m node_id rel_type direction =
     \<lparr>mode = m, target = GraphAdjacency node_id rel_type direction\<rparr>"

definition database_request :: "lock_mode \<Rightarrow> lock_request" where
  "database_request m = \<lparr>mode = m, target = Database\<rparr>"

definition graph_node :: "lock_mode \<Rightarrow> u64 \<Rightarrow> lock_request" where
  "graph_node m node_id = \<lparr>mode = m, target = GraphNode node_id\<rparr>"

definition graph_label :: "lock_mode \<Rightarrow> string \<Rightarrow> lock_request" where
  "graph_label m label = \<lparr>mode = m, target = GraphLabel label\<rparr>"

definition graph_relationship_type :: "lock_mode \<Rightarrow> string \<Rightarrow> lock_request" where
  "graph_relationship_type m rel_type = \<lparr>mode = m, target = GraphRelationshipType rel_type\<rparr>"

definition graph_relationship :: "lock_mode \<Rightarrow> u64 \<Rightarrow> lock_request" where
  "graph_relationship m relationship_id = \<lparr>mode = m, target = GraphRelationship relationship_id\<rparr>"

definition graph_node_delete_guard :: "lock_mode \<Rightarrow> u64 \<Rightarrow> lock_request" where
  "graph_node_delete_guard m node_id = \<lparr>mode = m, target = GraphNodeDeleteGuard node_id\<rparr>"

primrec relational_namespace_table :: "lock_namespace \<Rightarrow> string" where
  "relational_namespace_table (RelationalIndex table columns) = table"

section \<open>Covering and conflict\<close>

definition modes_conflict :: "lock_mode \<Rightarrow> lock_mode \<Rightarrow> bool" where
  "modes_conflict left right \<longleftrightarrow>
     \<not> (case (left, right) of
          (Shared, Shared) \<Rightarrow> True | (OptimisticCommit, OptimisticCommit) \<Rightarrow> True | _ \<Rightarrow> False)"

definition mode_covers :: "lock_mode \<Rightarrow> lock_mode \<Rightarrow> bool" where
  "mode_covers held requested \<longleftrightarrow> held = Exclusive \<or> held = requested"

definition target_covers :: "lock_target \<Rightarrow> lock_target \<Rightarrow> bool" where
  "target_covers held requested \<longleftrightarrow>
     (case (held, requested) of
        (Database, _) \<Rightarrow> True
      | (_, Database) \<Rightarrow> False
      | (RelationalTable h, RelationalTable r) \<Rightarrow> h = r
      | (RelationalTable table, RelationalRange ns _ _) \<Rightarrow> relational_namespace_table ns = table
      | (RelationalRange _ _ _, RelationalTable _) \<Rightarrow> False
      | (RelationalRange hns hl hu, RelationalRange rns rl ru) \<Rightarrow>
          hns = rns \<and> lower_bound_covers key_cmp hl rl \<and> upper_bound_covers key_cmp hu ru
      | (GraphAllocation h, GraphAllocation r) \<Rightarrow> h = r
      | (GraphLabel h, GraphLabel r) \<Rightarrow> h = r
      | (GraphRelationshipType h, GraphRelationshipType r) \<Rightarrow> h = r
      | (GraphNode h, GraphNode r) \<Rightarrow> h = r
      | (GraphNodeDeleteGuard h, GraphNodeDeleteGuard r) \<Rightarrow> h = r
      | (GraphRelationship h, GraphRelationship r) \<Rightarrow> h = r
      | (GraphAdjacency hns ht hdir, GraphAdjacency rns rt rdir) \<Rightarrow>
          hns = rns \<and> hdir = rdir \<and> (ht = None \<or> ht = rt)
      | _ \<Rightarrow> False)"

definition targets_overlap :: "lock_target \<Rightarrow> lock_target \<Rightarrow> bool" where
  "targets_overlap left right \<longleftrightarrow>
     (case (left, right) of
        (Database, _) \<Rightarrow> True
      | (_, Database) \<Rightarrow> True
      | (RelationalTable l, RelationalTable r) \<Rightarrow> l = r
      | (RelationalTable table, RelationalRange ns _ _) \<Rightarrow> relational_namespace_table ns = table
      | (RelationalRange ns _ _, RelationalTable table) \<Rightarrow> relational_namespace_table ns = table
      | (RelationalRange lns ll lu, RelationalRange rns rl ru) \<Rightarrow>
          lns = rns \<and> \<not> upper_is_before_lower key_cmp lu rl \<and> \<not> upper_is_before_lower key_cmp ru ll
      | (GraphAllocation l, GraphAllocation r) \<Rightarrow> l = r
      | (GraphLabel l, GraphLabel r) \<Rightarrow> l = r
      | (GraphRelationshipType l, GraphRelationshipType r) \<Rightarrow> l = r
      | (GraphNode l, GraphNode r) \<Rightarrow> l = r
      | (GraphNodeDeleteGuard l, GraphNodeDeleteGuard r) \<Rightarrow> l = r
      | (GraphRelationship l, GraphRelationship r) \<Rightarrow> l = r
      | (GraphAdjacency lns lt ld, GraphAdjacency rns rt rd) \<Rightarrow>
          lns = rns \<and> ld = rd \<and> (lt = None \<or> rt = None \<or> lt = rt)
      | _ \<Rightarrow> False)"

definition requests_conflict :: "lock_request \<Rightarrow> lock_request \<Rightarrow> bool" where
  "requests_conflict left right \<longleftrightarrow>
     modes_conflict (mode left) (mode right) \<and> targets_overlap (target left) (target right)"

definition request_covers :: "lock_request \<Rightarrow> lock_request \<Rightarrow> bool" where
  "request_covers held requested \<longleftrightarrow>
     mode_covers (mode held) (mode requested) \<and> target_covers (target held) (target requested)"

text \<open>The derived equality of requests; keys compare with the equality of their values.\<close>

definition key_eq :: "rkey \<Rightarrow> rkey \<Rightarrow> bool" where
  "key_eq = list_all2 value_eq"

definition target_eq :: "lock_target \<Rightarrow> lock_target \<Rightarrow> bool" where
  "target_eq left right \<longleftrightarrow>
     (case (left, right) of
        (RelationalRange lns ll lu, RelationalRange rns rl ru) \<Rightarrow>
          lns = rns \<and> bound_eq key_eq ll rl \<and> bound_eq key_eq lu ru
      | _ \<Rightarrow> left = right)"

definition request_eq :: "lock_request \<Rightarrow> lock_request \<Rightarrow> bool" where
  "request_eq left right \<longleftrightarrow> mode left = mode right \<and> target_eq (target left) (target right)"

section \<open>The acquisition order\<close>

primrec mode_rank :: "lock_mode \<Rightarrow> nat" where
  "mode_rank Shared = 0"
| "mode_rank Exclusive = 1"
| "mode_rank OptimisticCommit = 2"

primrec kind_index :: "graph_allocation_kind \<Rightarrow> nat" where
  "kind_index NodeAllocation = 0"
| "kind_index RelationshipAllocation = 1"

primrec direction_index :: "graph_adjacency_direction \<Rightarrow> nat" where
  "direction_index Outgoing = 0"
| "direction_index Incoming = 1"

primrec namespace_pair :: "lock_namespace \<Rightarrow> string \<times> string list" where
  "namespace_pair (RelationalIndex table columns) = (table, columns)"

primrec lock_target_rank :: "lock_target \<Rightarrow> nat" where
  "lock_target_rank Database = 0"
| "lock_target_rank (RelationalTable _) = 1"
| "lock_target_rank (RelationalRange _ _ _) = 2"
| "lock_target_rank (GraphAllocation _) = 3"
| "lock_target_rank (GraphLabel _) = 4"
| "lock_target_rank (GraphRelationshipType _) = 5"
| "lock_target_rank (GraphNode _) = 6"
| "lock_target_rank (GraphNodeDeleteGuard _) = 7"
| "lock_target_rank (GraphRelationship _) = 8"
| "lock_target_rank (GraphAdjacency _ _ _) = 9"

definition lock_target_cmp :: "lock_target \<Rightarrow> lock_target \<Rightarrow> ordering" where
  "lock_target_cmp left right =
     (let rank_order = cmp_lin (lock_target_rank left) (lock_target_rank right) in
      if rank_order \<noteq> Equal then rank_order
      else case (left, right) of
        (Database, Database) \<Rightarrow> Equal
      | (Database, _) \<Rightarrow> Less
      | (_, Database) \<Rightarrow> Greater
      | (RelationalTable l, RelationalTable r) \<Rightarrow> cmp_lin l r
      | (RelationalTable _, RelationalRange _ _ _) \<Rightarrow> Less
      | (RelationalRange _ _ _, RelationalTable _) \<Rightarrow> Greater
      | (RelationalRange lns ll lu, RelationalRange rns rl ru) \<Rightarrow>
          ord_then (ord_then (cmp_lin (namespace_pair lns) (namespace_pair rns)) (bound_cmp key_cmp ll rl))
            (bound_cmp key_cmp lu ru)
      | (GraphAllocation l, GraphAllocation r) \<Rightarrow> cmp_lin (kind_index l) (kind_index r)
      | (GraphLabel l, GraphLabel r) \<Rightarrow> cmp_lin l r
      | (GraphRelationshipType l, GraphRelationshipType r) \<Rightarrow> cmp_lin l r
      | (GraphNode l, GraphNode r) \<Rightarrow> cmp_lin l r
      | (GraphRelationship l, GraphRelationship r) \<Rightarrow> cmp_lin l r
      | (GraphNodeDeleteGuard l, GraphNodeDeleteGuard r) \<Rightarrow> cmp_lin l r
      | (GraphAdjacency lns lt ld, GraphAdjacency rns rt rd) \<Rightarrow>
          ord_then (ord_then (cmp_lin lns rns) (cmp_lin (direction_index ld) (direction_index rd)))
            (option_cmp cmp_lin lt rt)
      | _ \<Rightarrow> Equal)"

definition acquisition_cmp :: "lock_request \<Rightarrow> lock_request \<Rightarrow> ordering" where
  "acquisition_cmp a b =
     ord_then (lock_target_cmp (target a) (target b)) (cmp_lin (mode_rank (mode b)) (mode_rank (mode a)))"


section \<open>Bounds mean what they cover\<close>

context rust_ord
begin

lemma cmp_gt_split: "cmp a c = Greater \<Longrightarrow> cmp a b = Greater \<or> cmp b c = Greater"
  using cmp_le_trans by blast

lemma cmp_gt_asym: "cmp a b = Greater \<Longrightarrow> cmp b a \<noteq> Greater"
  by (simp add: cmp_rev [of b a])

lemma above_covers: "lower_bound_covers cmp h r \<Longrightarrow> above cmp r k \<Longrightarrow> above cmp h k"
  by (cases h; cases r; simp add: lower_bound_covers_def cmp_Less_rev; metis cmp_gt_split cmp_gt_asym)

lemma below_covers: "upper_bound_covers cmp h r \<Longrightarrow> below cmp r k \<Longrightarrow> below cmp h k"
  by (cases h; cases r; simp add: upper_bound_covers_def cmp_Less_rev; metis cmp_gt_split cmp_gt_asym)

lemma before_disjoint: "upper_is_before_lower cmp u l \<Longrightarrow> below cmp u k \<Longrightarrow> above cmp l k \<Longrightarrow> False"
  by (cases u; cases l; simp add: upper_is_before_lower_def cmp_Less_rev; metis cmp_gt_split cmp_gt_asym)

lemma lower_covers_refl: "lower_bound_covers cmp b b"
  by (cases b) (simp_all add: lower_bound_covers_def cmp_refl)

lemma upper_covers_refl: "upper_bound_covers cmp b b"
  by (cases b) (simp_all add: upper_bound_covers_def cmp_refl)

lemma lower_covers_trans:
  "lower_bound_covers cmp a b \<Longrightarrow> lower_bound_covers cmp b c \<Longrightarrow> lower_bound_covers cmp a c"
  by (cases a; cases b; cases c; simp add: lower_bound_covers_def cmp_Less_rev; metis cmp_gt_split cmp_gt_asym)

lemma upper_covers_trans:
  "upper_bound_covers cmp a b \<Longrightarrow> upper_bound_covers cmp b c \<Longrightarrow> upper_bound_covers cmp a c"
  by (cases a; cases b; cases c; simp add: upper_bound_covers_def cmp_Less_rev; metis cmp_gt_split cmp_gt_asym)

lemma before_lower_mono:
  "lower_bound_covers cmp h r \<Longrightarrow> upper_is_before_lower cmp u h \<Longrightarrow> upper_is_before_lower cmp u r"
  by (cases u; cases h; cases r;
      simp add: lower_bound_covers_def upper_is_before_lower_def cmp_Less_rev; metis cmp_gt_split cmp_gt_asym)

lemma before_upper_mono:
  "upper_bound_covers cmp h r \<Longrightarrow> upper_is_before_lower cmp h l \<Longrightarrow> upper_is_before_lower cmp r l"
  by (cases l; cases h; cases r;
      simp add: upper_bound_covers_def upper_is_before_lower_def cmp_Less_rev; metis cmp_gt_split cmp_gt_asym)

end

section \<open>Targets as sets of resources\<close>

datatype resource =
    TableItself string
  | Row lock_namespace rkey
  | AllocationOf graph_allocation_kind
  | LabelOf string
  | RelTypeOf string
  | NodeOf u64
  | RelationshipOf u64
  | DeleteGuardOf u64
  | AdjacencyOf u64 u32 graph_adjacency_direction

fun resources :: "lock_target \<Rightarrow> resource set" where
  "resources Database = UNIV"
| "resources (RelationalTable t) = insert (TableItself t) {Row ns k | ns k. relational_namespace_table ns = t}"
| "resources (RelationalRange ns l u) = {Row ns k | k. above key_cmp l k \<and> below key_cmp u k}"
| "resources (GraphAllocation k) = {AllocationOf k}"
| "resources (GraphLabel l) = {LabelOf l}"
| "resources (GraphRelationshipType r) = {RelTypeOf r}"
| "resources (GraphNode n) = {NodeOf n}"
| "resources (GraphRelationship r) = {RelationshipOf r}"
| "resources (GraphNodeDeleteGuard n) = {DeleteGuardOf n}"
| "resources (GraphAdjacency n ty d) = {AdjacencyOf n t d | t. ty = None \<or> ty = Some t}"

lemma target_covers_resources: "target_covers h r \<Longrightarrow> resources r \<subseteq> resources h"
  by (cases h; cases r; simp add: target_covers_def)
    (auto intro: key_ord.above_covers key_ord.below_covers)

lemma targets_overlap_complete: "resources a \<inter> resources b \<noteq> {} \<Longrightarrow> targets_overlap a b"
  by (cases a; cases b; simp add: targets_overlap_def)
    (auto dest: key_ord.before_disjoint)

lemma targets_overlap_sym: "targets_overlap a b = targets_overlap b a"
  by (cases a; cases b; simp add: targets_overlap_def) auto

lemma target_covers_refl: "target_covers t t"
  by (cases t) (simp_all add: target_covers_def key_ord.lower_covers_refl key_ord.upper_covers_refl)

lemma target_covers_trans: "target_covers a b \<Longrightarrow> target_covers b c \<Longrightarrow> target_covers a c"
  by (cases a; cases b; simp add: target_covers_def; cases c; simp)
    (auto intro: key_ord.lower_covers_trans key_ord.upper_covers_trans)

lemma target_covers_overlap: "target_covers h r \<Longrightarrow> targets_overlap r x \<Longrightarrow> targets_overlap h x"
  by (cases h; cases r; simp add: target_covers_def; cases x; simp add: targets_overlap_def)
    (auto dest: key_ord.before_lower_mono key_ord.before_upper_mono)

lemma mode_covers_trans: "mode_covers a b \<Longrightarrow> mode_covers b c \<Longrightarrow> mode_covers a c"
  by (auto simp: mode_covers_def)

lemma mode_covers_conflict: "mode_covers h r \<Longrightarrow> modes_conflict r x \<Longrightarrow> modes_conflict h x"
  by (cases h; cases r; cases x) (simp_all add: mode_covers_def modes_conflict_def)

lemma modes_conflict_sym: "modes_conflict a b = modes_conflict b a"
  by (cases a; cases b) (simp_all add: modes_conflict_def)

lemma requests_conflict_sym: "requests_conflict a b = requests_conflict b a"
  by (simp add: requests_conflict_def modes_conflict_sym [of "mode a"] targets_overlap_sym [of "target a"])

lemma request_covers_refl [simp]: "request_covers r r"
  by (simp add: request_covers_def mode_covers_def target_covers_refl)

lemma request_covers_trans: "request_covers a b \<Longrightarrow> request_covers b c \<Longrightarrow> request_covers a c"
  by (auto simp: request_covers_def intro: mode_covers_trans target_covers_trans)

text \<open>A request that conflicts with a covered one conflicts with the one that covers it.\<close>

lemma request_covers_conflict: "request_covers h r \<Longrightarrow> requests_conflict r x \<Longrightarrow> requests_conflict h x"
  by (auto simp: request_covers_def requests_conflict_def intro: mode_covers_conflict target_covers_overlap)

section \<open>Overlap is exact on ranges with a closed lower end\<close>

definition closed_lower :: "lock_target \<Rightarrow> bool" where
  "closed_lower t \<longleftrightarrow> (case t of RelationalRange _ (Excluded _) _ \<Rightarrow> False | _ \<Rightarrow> True)"

text \<open>The least key of a range with such a lower end; the empty key is the least key of all.\<close>

fun lower_key :: "rkey bound \<Rightarrow> rkey" where
  "lower_key (Included k) = k"
| "lower_key (Excluded k) = k"
| "lower_key Unbounded = []"

lemma key_cmp_Nil: "key_cmp [] k \<noteq> Greater"
  by (cases k) (simp_all add: key_cmp_def)

lemma lower_key_above: "\<forall>x. l \<noteq> Excluded x \<Longrightarrow> above key_cmp l k \<longleftrightarrow> key_cmp (lower_key l) k \<noteq> Greater"
  by (cases l) (simp_all add: key_cmp_Nil)

lemma below_down: "below key_cmp u k \<Longrightarrow> key_cmp j k \<noteq> Greater \<Longrightarrow> below key_cmp u j"
  by (cases u) (auto dest: key_ord.cmp_gt_split [where b = k] intro: key_ord.cmp_le_lt_trans)

lemma not_before_below:
  "\<forall>x. l \<noteq> Excluded x \<Longrightarrow> \<not> upper_is_before_lower key_cmp u l \<Longrightarrow> below key_cmp u k \<Longrightarrow> below key_cmp u (lower_key l)"
  by (cases l; cases u)
    (auto simp: upper_is_before_lower_def key_cmp_Nil key_ord.cmp_Less_rev
      intro: below_down [OF _ key_cmp_Nil, of "Excluded _", simplified])

lemma range_overlap_exact:
  assumes "above key_cmp l k" "below key_cmp u k" "above key_cmp l' k'" "below key_cmp u' k'"
    and "\<forall>x. l \<noteq> Excluded x" "\<forall>x. l' \<noteq> Excluded x"
    and "\<not> upper_is_before_lower key_cmp u l'" "\<not> upper_is_before_lower key_cmp u' l"
  shows "\<exists>m. above key_cmp l m \<and> below key_cmp u m \<and> above key_cmp l' m \<and> below key_cmp u' m"
proof -
  note ab = lower_key_above [OF assms(5)] lower_key_above [OF assms(6)]
  have bu: "below key_cmp u (lower_key l)" using below_down assms(1,2) ab(1) by blast
  have bu': "below key_cmp u' (lower_key l')" using below_down assms(3,4) ab(2) by blast
  show ?thesis
  proof (cases "key_cmp (lower_key l) (lower_key l') = Greater")
    case True
    then have "above key_cmp l' (lower_key l)" by (simp add: ab(2) key_ord.cmp_rev [of "lower_key l'" "lower_key l"])
    with bu not_before_below [OF assms(5,8,4)] show ?thesis
      using ab(1) by (metis key_ord.cmp_refl ordering.distinct(5))
  next
    case False
    then have "above key_cmp l (lower_key l')" by (simp add: ab(1))
    with bu' not_before_below [OF assms(6,7,2)] show ?thesis
      using ab(2) by (metis key_ord.cmp_refl ordering.distinct(5))
  qed
qed

lemma targets_overlap_meet:
  assumes "targets_overlap a b" "resources a \<noteq> {}" "resources b \<noteq> {}" "closed_lower a" "closed_lower b"
  shows "resources a \<inter> resources b \<noteq> {}"
proof (cases "\<exists>ns l u ns' l' u'. a = RelationalRange ns l u \<and> b = RelationalRange ns' l' u'")
  case True
  then obtain ns l u ns' l' u' where ab: "a = RelationalRange ns l u" "b = RelationalRange ns' l' u'" by blast
  with assms obtain k k' where "above key_cmp l k" "below key_cmp u k" "above key_cmp l' k'" "below key_cmp u' k'"
    by auto
  moreover have "\<forall>x. l \<noteq> Excluded x" "\<forall>x. l' \<noteq> Excluded x" using assms ab by (auto simp: closed_lower_def)
  ultimately obtain m where "above key_cmp l m \<and> below key_cmp u m \<and> above key_cmp l' m \<and> below key_cmp u' m"
    using range_overlap_exact assms(1) ab by (simp add: targets_overlap_def) blast
  with ab assms(1) show ?thesis by (auto simp: targets_overlap_def)
next
  case False
  with assms show ?thesis by (cases a; cases b; simp add: targets_overlap_def) auto
qed

section \<open>Covering is exact on ranges with closed ends\<close>

text \<open>
  Covering compares the ends of two ranges and not the sets of keys between them. The two agree
  when the requested range has a key and its ends are closed or absent. An excluded end has no such
  converse: the key next after \<open>k\<close> is \<open>k\<close> followed by a null, so \<open>(k, \<dots>\<close> and \<open>[k null, \<dots>\<close> are the
  same keys with ends that do not cover one another. Nor has a held range that starts at the empty
  key, the least one of all, which covers no range without a lower end.
\<close>

definition closed_ends :: "lock_target \<Rightarrow> bool" where
  "closed_ends t \<longleftrightarrow>
     (case t of
        RelationalRange _ (Excluded _) _ \<Rightarrow> False
      | RelationalRange _ _ (Excluded _) \<Rightarrow> False
      | _ \<Rightarrow> True)"

definition starts_at_empty_key :: "lock_target \<Rightarrow> bool" where
  "starts_at_empty_key t \<longleftrightarrow> (case t of RelationalRange _ (Included []) _ \<Rightarrow> True | _ \<Rightarrow> False)"

lemma key_cmp_snoc: "key_cmp j (j @ [v]) = Less"
  using value_ord.cmp_refl by (induction j) (simp_all add: key_cmp_def)

lemma above_up: "above key_cmp l k \<Longrightarrow> key_cmp k j \<noteq> Greater \<Longrightarrow> above key_cmp l j"
  by (cases l) (auto dest: key_ord.cmp_gt_split [where b = k] intro: key_ord.cmp_lt_le_trans)

lemma lower_covers_exact:
  assumes "above key_cmp h (lower_key r)" "\<forall>x. r \<noteq> Excluded x" "h \<noteq> Included []"
  shows "lower_bound_covers key_cmp h r"
proof -
  have "key_cmp k [] \<noteq> Less" for k using key_cmp_Nil [of k] by (simp add: key_ord.cmp_Less_rev)
  moreover have "k = []" if "key_cmp k [] \<noteq> Greater" for k using that by (cases k) (simp_all add: key_cmp_def)
  ultimately show ?thesis using assms by (cases h; cases r) (simp_all add: lower_bound_covers_def)
qed

lemma upper_covers_exact:
  assumes "above key_cmp l k" "below key_cmp r k" "\<forall>x. r \<noteq> Excluded x"
    and incl: "\<And>j. above key_cmp l j \<Longrightarrow> below key_cmp r j \<Longrightarrow> below key_cmp h j"
  shows "upper_bound_covers key_cmp h r"
proof (cases r)
  case (Included j)
  then have "above key_cmp l j" using assms(2) by (intro above_up [OF assms(1)]) simp
  then have "below key_cmp h j" by (rule incl) (simp add: Included key_ord.cmp_refl)
  with Included show ?thesis
    by (cases h) (simp_all add: upper_bound_covers_def key_ord.cmp_rev [of j])
next
  case Unbounded
  have "h = Unbounded"
  proof (rule ccontr)
    assume "h \<noteq> Unbounded"
    then obtain j where "h = Included j \<or> h = Excluded j" by (cases h) auto
    then have j: "key_cmp i j \<noteq> Greater" if "below key_cmp h i" for i using that by auto
    let ?s = "j @ [Null]"
    have "key_cmp k ?s \<noteq> Greater"
      using j [OF incl [OF assms(1,2)]] key_cmp_snoc [of j Null] key_ord.cmp_le_trans [of k j ?s] by auto
    then have "key_cmp ?s j \<noteq> Greater" by (intro j incl above_up [OF assms(1)]) (simp_all add: Unbounded)
    with key_cmp_snoc [of j Null] show False by (simp add: key_ord.cmp_Less_rev)
  qed
  then show ?thesis by (simp add: upper_bound_covers_def)
qed (use assms(3) in simp)

lemma range_covers_exact:
  assumes "above key_cmp l k" "below key_cmp u k" "\<forall>x. l \<noteq> Excluded x" "\<forall>x. u \<noteq> Excluded x" "hl \<noteq> Included []"
    and incl: "\<And>j. above key_cmp l j \<Longrightarrow> below key_cmp u j \<Longrightarrow> above key_cmp hl j \<and> below key_cmp hu j"
  shows "lower_bound_covers key_cmp hl l \<and> upper_bound_covers key_cmp hu u"
proof
  note low = lower_key_above [OF assms(3)]
  have "below key_cmp u (lower_key l)" using below_down assms(1,2) low by blast
  then have "above key_cmp hl (lower_key l)" using incl low key_ord.cmp_refl by auto
  then show "lower_bound_covers key_cmp hl l" by (rule lower_covers_exact [OF _ assms(3,5)])
  show "upper_bound_covers key_cmp hu u" by (rule upper_covers_exact [OF assms(1,2,4)]) (use incl in blast)
qed

lemma adjacency_subset:
  "resources (GraphAdjacency n ty d) \<subseteq> resources (GraphAdjacency n' ty' d') \<Longrightarrow> n' = n \<and> d' = d \<and> (ty' = None \<or> ty' = ty)"
proof (cases ty')
  case None
  assume sub: "resources (GraphAdjacency n ty d) \<subseteq> resources (GraphAdjacency n' ty' d')"
  have "AdjacencyOf n (case ty of None \<Rightarrow> 0 | Some t \<Rightarrow> t) d \<in> resources (GraphAdjacency n ty d)" by (cases ty) simp_all
  with sub None show ?thesis by auto
next
  case (Some t)
  assume sub: "resources (GraphAdjacency n ty d) \<subseteq> resources (GraphAdjacency n' ty' d')"
  show ?thesis
  proof (cases ty)
    case None
    with sub have "AdjacencyOf n (t + 1) d \<in> resources (GraphAdjacency n' ty' d')" by auto
    with Some show ?thesis by simp
  qed (use sub Some in auto)
qed

text \<open>A resource of a target that only it, its table and the database stand for.\<close>

fun own_resource :: "lock_target \<Rightarrow> resource" where
  "own_resource Database = AllocationOf NodeAllocation"
| "own_resource (RelationalTable t) = TableItself t"
| "own_resource (RelationalRange ns l u) = Row ns (lower_key l)"
| "own_resource (GraphAllocation k) = AllocationOf k"
| "own_resource (GraphLabel l) = LabelOf l"
| "own_resource (GraphRelationshipType r) = RelTypeOf r"
| "own_resource (GraphNode n) = NodeOf n"
| "own_resource (GraphRelationship r) = RelationshipOf r"
| "own_resource (GraphNodeDeleteGuard n) = DeleteGuardOf n"
| "own_resource (GraphAdjacency n ty d) = AdjacencyOf n (case ty of None \<Rightarrow> 0 | Some t \<Rightarrow> t) d"

definition wide :: "lock_target \<Rightarrow> bool" where
  "wide t \<longleftrightarrow> (case t of Database \<Rightarrow> True | RelationalRange _ _ _ \<Rightarrow> True | GraphAdjacency _ _ _ \<Rightarrow> True | _ \<Rightarrow> False)"

lemma narrow_covers: "own_resource r \<in> resources h \<Longrightarrow> \<not> wide r \<Longrightarrow> target_covers h r"
  by (cases r; cases h; simp add: target_covers_def wide_def)

lemma own_resource_in: "\<not> wide r \<Longrightarrow> own_resource r \<in> resources r"
  by (cases r; simp add: wide_def)

lemma database_covers: "resources Database \<subseteq> resources h \<Longrightarrow> h = Database"
proof -
  assume "resources Database \<subseteq> resources h"
  then have "LabelOf [] \<in> resources h" "TableItself [] \<in> resources h" by auto
  then show ?thesis by (cases h) simp_all
qed

lemma adjacency_covers: "resources (GraphAdjacency n ty d) \<subseteq> resources h \<Longrightarrow> target_covers h (GraphAdjacency n ty d)"
proof (cases "\<exists>n' ty' d'. h = GraphAdjacency n' ty' d'")
  case True
  then obtain n' ty' d' where h: "h = GraphAdjacency n' ty' d'" by blast
  assume "resources (GraphAdjacency n ty d) \<subseteq> resources h"
  then have "n' = n \<and> d' = d \<and> (ty' = None \<or> ty' = ty)" unfolding h by (rule adjacency_subset)
  then show ?thesis by (simp add: h target_covers_def)
next
  case False
  assume "resources (GraphAdjacency n ty d) \<subseteq> resources h"
  then have "own_resource (GraphAdjacency n ty d) \<in> resources h" by (cases ty) auto
  with False show ?thesis by (cases h) (simp_all add: target_covers_def)
qed

lemma range_covers:
  assumes incl: "resources (RelationalRange ns l u) \<subseteq> resources h" and k: "above key_cmp l k" "below key_cmp u k"
    and closed: "closed_ends (RelationalRange ns l u)" "\<not> starts_at_empty_key h"
  shows "target_covers h (RelationalRange ns l u)"
proof (cases "\<exists>ns' l' u'. h = RelationalRange ns' l' u'")
  case True
  then obtain ns' l' u' where h: "h = RelationalRange ns' l' u'" by blast
  have sub: "ns' = ns \<and> above key_cmp l' j \<and> below key_cmp u' j" if "above key_cmp l j" "below key_cmp u j" for j
    using incl h that by auto
  have "\<forall>x. l \<noteq> Excluded x" "\<forall>x. u \<noteq> Excluded x" "l' \<noteq> Included []"
    using closed h by (auto simp: closed_ends_def starts_at_empty_key_def split: bound.splits)
  from range_covers_exact [OF k this] sub have "lower_bound_covers key_cmp l' l \<and> upper_bound_covers key_cmp u' u"
    by blast
  with sub [OF k] h show ?thesis by (simp add: target_covers_def)
next
  case False
  have "Row ns k \<in> resources h" using incl k by auto
  with False show ?thesis by (cases h) (simp_all add: target_covers_def)
qed

lemma target_covers_exact:
  assumes "resources r \<subseteq> resources h" "resources r \<noteq> {}" "closed_ends r" "\<not> starts_at_empty_key h"
  shows "target_covers h r"
proof (cases "wide r")
  case False
  with narrow_covers own_resource_in assms(1) show ?thesis by blast
next
  case True
  then consider "r = Database" | ns l u where "r = RelationalRange ns l u" | n ty d where "r = GraphAdjacency n ty d"
    by (cases r) (simp_all add: wide_def)
  then show ?thesis
  proof cases
    case 1
    with database_covers assms(1) have "h = r" by blast
    then show ?thesis by (simp add: target_covers_refl)
  next
    case 2
    with assms(2) obtain k where "above key_cmp l k" "below key_cmp u k" by auto
    with range_covers assms 2 show ?thesis by blast
  next
    case 3
    with adjacency_covers assms(1) show ?thesis by blast
  qed
qed

section \<open>The acquisition order is total\<close>

type_synonym bound_image = "nat \<times> (nat \<times> int list \<times> int list) list \<times> nat"

fun bound_image :: "rkey bound \<Rightarrow> bound_image" where
  "bound_image Unbounded = (0, [], 0)"
| "bound_image (Included k) = (1, map value_image k, 0)"
| "bound_image (Excluded k) = (1, map value_image k, 1)"

fun target_image :: "lock_target \<Rightarrow> nat \<times> (string \<times> string list) \<times> bound_image \<times> bound_image \<times> nat list" where
  "target_image Database = (0, ([], []), (0, [], 0), (0, [], 0), [])"
| "target_image (RelationalTable t) = (1, (t, []), (0, [], 0), (0, [], 0), [])"
| "target_image (RelationalRange ns l u) = (2, namespace_pair ns, bound_image l, bound_image u, [])"
| "target_image (GraphAllocation k) = (3, ([], []), (0, [], 0), (0, [], 0), [kind_index k])"
| "target_image (GraphLabel l) = (4, (l, []), (0, [], 0), (0, [], 0), [])"
| "target_image (GraphRelationshipType r) = (5, (r, []), (0, [], 0), (0, [], 0), [])"
| "target_image (GraphNode n) = (6, ([], []), (0, [], 0), (0, [], 0), [unat n])"
| "target_image (GraphNodeDeleteGuard n) = (7, ([], []), (0, [], 0), (0, [], 0), [unat n])"
| "target_image (GraphRelationship r) = (8, ([], []), (0, [], 0), (0, [], 0), [unat r])"
| "target_image (GraphAdjacency n ty d) =
     (9, ([], []), (0, [], 0), (0, [], 0),
      [unat n, direction_index d, (case ty of None \<Rightarrow> 0 | Some t \<Rightarrow> Suc (unat t))])"

lemma bound_cmp_image: "bound_cmp key_cmp l r = cmp_lin (bound_image l) (bound_image r)"
  by (cases l; cases r) (simp_all add: bound_cmp_def key_cmp_image cmp_lin_prod [symmetric] lin_ord.cmp_refl,
    simp_all add: cmp_lin_def)

lemma cmp_lin_unat: "cmp_lin (unat a) (unat b) = cmp_lin a b"
  by (simp add: cmp_lin_def word_less_nat_alt word_unat_eq_iff)

lemma option_cmp_image:
  "option_cmp cmp_lin x y = cmp_lin (case x of None \<Rightarrow> 0 | Some t \<Rightarrow> Suc (unat t)) (case y of None \<Rightarrow> 0 | Some t \<Rightarrow> Suc (unat t))"
  by (cases x; cases y) (simp_all add: cmp_lin_def word_less_nat_alt word_unat_eq_iff)

lemma target_image_rank: "fst (target_image t) = lock_target_rank t"
  by (cases t) simp_all

lemma lock_target_cmp_image: "lock_target_cmp a b = cmp_lin (target_image a) (target_image b)"
proof (cases "lock_target_rank a = lock_target_rank b")
  case True
  then show ?thesis
    by (cases a; cases b)
      (simp_all add: lock_target_cmp_def lin_ord.cmp_refl cmp_lin_prod [symmetric] cmp_lin_single
        cmp_lin_Cons cmp_lin_unat bound_cmp_image option_cmp_image ord_then_assoc)
next
  case False
  obtain x y where "target_image a = (lock_target_rank a, x)" "target_image b = (lock_target_rank b, y)"
    using target_image_rank by (metis prod.collapse)
  with False show ?thesis by (auto simp: lock_target_cmp_def cmp_lin_rank cmp_simps)
qed

lemma acquisition_cmp_image:
  "acquisition_cmp a b =
   cmp_lin (target_image (target a), 2 - mode_rank (mode a)) (target_image (target b), 2 - mode_rank (mode b))"
proof -
  have "cmp_lin (mode_rank m) (mode_rank n) = cmp_lin (2 - mode_rank n) (2 - mode_rank m)" for m n
    by (cases m; cases n) (simp_all add: cmp_lin_def)
  then show ?thesis by (simp add: acquisition_cmp_def lock_target_cmp_image cmp_lin_prod [symmetric])
qed

interpretation acquisition_ord: rust_ord acquisition_cmp
  by (rule rust_ord_image [OF acquisition_cmp_image])

text \<open>Two requests compare equal exactly when they are the same request.\<close>

lemma lex_cmp_Equal: "lex_cmp c xs ys = Equal \<longleftrightarrow> list_all2 (\<lambda>x y. c x y = Equal) xs ys"
  by (induction c xs ys rule: lex_cmp.induct) (simp_all add: cmp_simps)

lemma key_cmp_Equal: "key_cmp a b = Equal \<longleftrightarrow> key_eq a b"
  by (simp add: key_cmp_def key_eq_def lex_cmp_Equal value_eq_def [abs_def])

lemma bound_cmp_Equal: "bound_cmp key_cmp l r = Equal \<longleftrightarrow> bound_eq key_eq l r"
  by (cases l; cases r) (simp_all add: bound_cmp_def bound_eq_def key_cmp_Equal cmp_simps)

lemma rank_injs:
  "kind_index k = kind_index k' \<longleftrightarrow> k = k'"
  "direction_index d = direction_index d' \<longleftrightarrow> d = d'"
  "namespace_pair ns = namespace_pair ns' \<longleftrightarrow> ns = ns'"
  "mode_rank m = mode_rank m' \<longleftrightarrow> m = m'"
     apply (cases k; cases k'; simp)
    apply (cases d; cases d'; simp)
   apply (cases ns; cases ns'; simp)
  apply (cases m; cases m'; simp)
  done

lemma option_cmp_Equal: "option_cmp cmp_lin x y = Equal \<longleftrightarrow> x = y"
  by (cases x; cases y) (simp_all add: cmp_simps)

lemma lock_target_cmp_Equal: "lock_target_cmp a b = Equal \<longleftrightarrow> target_eq a b"
proof (cases "lock_target_rank a = lock_target_rank b")
  case True
  then show ?thesis
    by (cases a; cases b)
      (simp_all add: lock_target_cmp_def target_eq_def lin_ord.cmp_refl cmp_simps bound_cmp_Equal
        rank_injs option_cmp_Equal, auto)
next
  case False
  then have "\<not> target_eq a b" by (cases a; cases b) (simp_all add: target_eq_def)
  with False show ?thesis by (simp add: lock_target_cmp_def cmp_simps)
qed

lemma acquisition_cmp_Equal: "acquisition_cmp a b = Equal \<longleftrightarrow> request_eq a b"
  by (auto simp: acquisition_cmp_def request_eq_def cmp_simps lock_target_cmp_Equal rank_injs)

section \<open>Properties\<close>

text \<open>
  C18: what covering and overlap mean for the resources of a target. A target that covers another
  stands for all of its resources and overlaps with everything the other overlaps with. For a
  nonempty requested target whose ends are closed or absent, and a held one that does not start at
  the empty key, covering is exactly inclusion. Two targets that share a resource always overlap,
  and nonempty targets whose ranges have a closed or absent lower end overlap only if they share
  one.
\<close>

theorem overlap_exact:
  "(target_covers h r \<longrightarrow> resources r \<subseteq> resources h \<and> (\<forall>x. targets_overlap r x \<longrightarrow> targets_overlap h x)) \<and>
   (resources r \<noteq> {} \<and> closed_ends r \<and> \<not> starts_at_empty_key h \<longrightarrow>
      (target_covers h r \<longleftrightarrow> resources r \<subseteq> resources h)) \<and>
   (resources a \<inter> resources b \<noteq> {} \<longrightarrow> targets_overlap a b) \<and>
   (resources a \<noteq> {} \<and> resources b \<noteq> {} \<and> closed_lower a \<and> closed_lower b \<and> targets_overlap a b \<longrightarrow>
      resources a \<inter> resources b \<noteq> {})"
  using target_covers_resources [of h r] target_covers_overlap [of h r] target_covers_exact [of r h]
    targets_overlap_complete [of a b] targets_overlap_meet [of a b] by blast

theorem overlap_exact_witness:
  "target_covers (RelationalRange (RelationalIndex ''t'' [''c'']) (Included [BigInt 2]) Unbounded)
     (RelationalRange (RelationalIndex ''t'' [''c'']) (Included [BigInt 5]) (Included [BigInt 5])) \<and>
   resources (RelationalRange (RelationalIndex ''t'' [''c'']) Unbounded (Included [BigInt 5])) \<inter>
   resources (RelationalRange (RelationalIndex ''t'' [''c'']) (Included [BigInt 5]) Unbounded) \<noteq> {}"
proof -
  let ?ns = "RelationalIndex ''t'' [''c'']"
  let ?h = "RelationalRange ?ns (Included [BigInt 2]) Unbounded"
  let ?r = "RelationalRange ?ns (Included [BigInt 5]) (Included [BigInt 5])"
  let ?a = "RelationalRange ?ns Unbounded (Included [BigInt 5])"
  let ?b = "RelationalRange ?ns (Included [BigInt 5]) Unbounded"
  have "Row ?ns [BigInt 5] \<in> resources ?a" "Row ?ns [BigInt 5] \<in> resources ?b" "Row ?ns [BigInt 5] \<in> resources ?r"
    by (simp_all add: key_ord.cmp_refl)
  moreover have "targets_overlap ?a ?b" by (simp add: targets_overlap_def upper_is_before_lower_def key_ord.cmp_refl)
  moreover have "closed_lower ?a" "closed_lower ?b" by (simp_all add: closed_lower_def)
  moreover have "closed_ends ?r" "\<not> starts_at_empty_key ?h" by (simp_all add: closed_ends_def starts_at_empty_key_def)
  moreover have "key_cmp [BigInt 2] [BigInt 5] \<noteq> Greater" by (simp add: key_cmp_image cmp_lin_def)
  then have "above key_cmp (Included [BigInt 2]) k" if "above key_cmp (Included [BigInt 5]) k" for k
    using that key_ord.cmp_le_trans [of "[BigInt 2]" "[BigInt 5]" k] by simp
  then have "resources ?r \<subseteq> resources ?h" unfolding resources.simps by fastforce
  ultimately show ?thesis using overlap_exact [of ?h ?r ?a ?b] by blast
qed

text \<open>
  The order in which a transaction acquires its locks is a total order on requests: comparing
  the other way round reverses the answer, it is transitive, and only equal requests tie.
\<close>

lemma acquisition_order_total:
  "acquisition_cmp b a = ord_reverse (acquisition_cmp a b) \<and>
   (acquisition_cmp a b = Equal \<longleftrightarrow> request_eq a b) \<and>
   (acquisition_cmp a b \<noteq> Greater \<longrightarrow> acquisition_cmp b c \<noteq> Greater \<longrightarrow> acquisition_cmp a c \<noteq> Greater)"
  using acquisition_ord.cmp_le_trans acquisition_ord.cmp_rev acquisition_cmp_Equal by blast

end
