(* ===== verification/Lock_Table.thy ===== *)
theory Lock_Table
  imports Lock_Target
begin

text \<open>
  The granted-lock table \<open>LockTable\<close> of \<open>crates/storage/src/transaction_locks.rs\<close>: its memory
  accounting, coverage and blocker queries, escalation, granting, release and savepoints.

  The sizes \<open>size_of::<T>()\<close> of the element types are chosen by the compiler; they are the record
  \<open>layout\<close>. The invariants are compatibility (no two transactions hold conflicting locks), exact
  accounting of the estimated bytes, and the entry and byte budgets.
\<close>

type_synonym txid = u64

record layout =
  size_held_lock :: nat
  size_string :: nat
  size_relational_key :: nat
  size_relational_value :: nat
  size_overflow_ref :: nat

record held_lock =
  transaction_id :: txid
  request :: lock_request

record lock_table_limits =
  max_entries :: nat
  max_bytes :: nat
  escalation_entries_per_table :: nat

record lock_table =
  locks :: "held_lock list"
  estimated_bytes :: nat
  limits :: lock_table_limits

datatype lock_error =
    LockTableBudgetExceeded nat nat
  | WaitQueueBudgetExceeded nat nat
  | DifferentPendingRequest
  | Deadlock txid "txid list"
  | ParentPathLost

definition default_limits :: lock_table_limits where
  "default_limits =
     \<lparr>max_entries = 65536, max_bytes = 16 * 1024 * 1024, escalation_entries_per_table = 64\<rparr>"

definition default_lock_table :: lock_table where
  "default_lock_table = \<lparr>locks = [], estimated_bytes = 0, limits = default_limits\<rparr>"

section \<open>Estimated bytes\<close>

fun bound_estimated_bytes :: "layout \<Rightarrow> rkey bound \<Rightarrow> nat" where
  "bound_estimated_bytes L Unbounded = 0"
| "bound_estimated_bytes L (Included key) =
     sat_add (size_relational_key L)
       (usize_sum (map (\<lambda>v. sat_add (size_relational_value L) (estimated_payload_bytes (size_overflow_ref L) v)) key))"
| "bound_estimated_bytes L (Excluded key) =
     sat_add (size_relational_key L)
       (usize_sum (map (\<lambda>v. sat_add (size_relational_value L) (estimated_payload_bytes (size_overflow_ref L) v)) key))"

fun lock_namespace_estimated_bytes :: "layout \<Rightarrow> lock_namespace \<Rightarrow> nat" where
  "lock_namespace_estimated_bytes L (RelationalIndex table columns) =
     sat_add (length table) (usize_sum (map (\<lambda>c. sat_add (size_string L) (length c)) columns))"

definition lock_request_estimated_bytes :: "layout \<Rightarrow> lock_request \<Rightarrow> nat" where
  "lock_request_estimated_bytes L r =
     sat_add (size_held_lock L)
       (case target r of
          Database \<Rightarrow> 0
        | RelationalTable table \<Rightarrow> length table
        | RelationalRange ns lower upper \<Rightarrow>
            sat_add (sat_add (lock_namespace_estimated_bytes L ns) (bound_estimated_bytes L lower))
              (bound_estimated_bytes L upper)
        | GraphLabel label \<Rightarrow> length label
        | GraphRelationshipType rel_type \<Rightarrow> length rel_type
        | _ \<Rightarrow> 0)"

definition held_lock_estimated_bytes :: "layout \<Rightarrow> held_lock \<Rightarrow> nat" where
  "held_lock_estimated_bytes L held = lock_request_estimated_bytes L (request held)"

section \<open>Queries\<close>

definition covers_all :: "lock_table \<Rightarrow> txid \<Rightarrow> lock_request list \<Rightarrow> bool" where
  "covers_all T t requests \<longleftrightarrow>
     (\<forall>r \<in> set requests. \<exists>held \<in> set (locks T).
        transaction_id held = t \<and> mode_covers (mode (request held)) (mode r) \<and>
        target_covers (target (request held)) (target r))"

text \<open>A \<open>BTreeSet<u64>\<close> of transaction ids is its strictly ascending list of members.\<close>

definition lt_blockers :: "lock_table \<Rightarrow> txid \<Rightarrow> lock_request \<Rightarrow> txid list" where
  "lt_blockers T t r =
     bts_of cmp_lin (map transaction_id
       (filter (\<lambda>held. transaction_id held \<noteq> t \<and> requests_conflict (request held) r) (locks T)))"

definition covering_mode :: "lock_mode \<Rightarrow> held_lock list \<Rightarrow> lock_mode" where
  "covering_mode requested held =
     (if \<exists>h \<in> set held. mode (request h) \<noteq> requested then Exclusive else requested)"

definition narrow_range :: "txid \<Rightarrow> string \<Rightarrow> held_lock \<Rightarrow> bool" where
  "narrow_range t table held \<longleftrightarrow>
     transaction_id held = t \<and>
     (case target (request held) of
        RelationalRange ns _ _ \<Rightarrow> relational_namespace_table ns = table | _ \<Rightarrow> False)"

definition narrow_adjacency :: "txid \<Rightarrow> u64 \<Rightarrow> graph_adjacency_direction \<Rightarrow> held_lock \<Rightarrow> bool" where
  "narrow_adjacency t node_id direction held \<longleftrightarrow>
     transaction_id held = t \<and>
     (case target (request held) of
        GraphAdjacency n (Some _) d \<Rightarrow> n = node_id \<and> d = direction | _ \<Rightarrow> False)"

definition normalized_request :: "lock_table \<Rightarrow> txid \<Rightarrow> lock_request \<Rightarrow> lock_request" where
  "normalized_request T t r =
     (case target r of
        RelationalRange ns _ _ \<Rightarrow>
          (let table = relational_namespace_table ns;
               narrow_locks = filter (narrow_range t table) (locks T)
           in if sat_add (length narrow_locks) 1 \<le> escalation_entries_per_table (limits T) then r
              else relational_table (covering_mode (mode r) narrow_locks) table)
      | GraphAdjacency node_id (Some _) direction \<Rightarrow>
          (let narrow_locks = filter (narrow_adjacency t node_id direction) (locks T)
           in if sat_add (length narrow_locks) 1 \<le> escalation_entries_per_table (limits T) then r
              else graph_adjacency (covering_mode (mode r) narrow_locks) node_id None direction)
      | _ \<Rightarrow> r)"

section \<open>Updates\<close>

definition replaced_by :: "txid \<Rightarrow> lock_request \<Rightarrow> held_lock \<Rightarrow> bool" where
  "replaced_by t r held \<longleftrightarrow>
     transaction_id held = t \<and> mode_covers (mode r) (mode (request held)) \<and>
     target_covers (target r) (target (request held))"

definition grant :: "layout \<Rightarrow> lock_table \<Rightarrow> txid \<Rightarrow> lock_request \<Rightarrow> lock_error + lock_table" where
  "grant L T t r =
     (if \<exists>held \<in> set (locks T).
           transaction_id held = t \<and> mode_covers (mode (request held)) (mode r) \<and>
           target_covers (target (request held)) (target r)
      then Inr T
      else
        let removed_bytes = usize_sum (map (held_lock_estimated_bytes L) (filter (replaced_by t r) (locks T)));
            removed_entries = length (filter (replaced_by t r) (locks T));
            added_bytes = lock_request_estimated_bytes L r;
            next_entries = sat_add (length (locks T) - removed_entries) 1;
            next_bytes = sat_add (estimated_bytes T - removed_bytes) added_bytes
        in if next_entries > max_entries (limits T) \<or> next_bytes > max_bytes (limits T)
           then Inl (LockTableBudgetExceeded next_entries next_bytes)
           else Inr (T\<lparr>locks := filter (\<lambda>held. \<not> replaced_by t r held) (locks T) @
                               [\<lparr>transaction_id = t, request = r\<rparr>],
                      estimated_bytes := next_bytes\<rparr>))"

definition release_transaction :: "layout \<Rightarrow> lock_table \<Rightarrow> txid \<Rightarrow> lock_table" where
  "release_transaction L T t =
     (let kept = filter (\<lambda>held. transaction_id held \<noteq> t) (locks T) in
      T\<lparr>locks := kept, estimated_bytes := usize_sum (map (held_lock_estimated_bytes L) kept)\<rparr>)"

definition savepoint :: "lock_table \<Rightarrow> txid \<Rightarrow> lock_request list" where
  "savepoint T t = map request (filter (\<lambda>held. transaction_id held = t) (locks T))"

definition restore_transaction :: "layout \<Rightarrow> lock_table \<Rightarrow> txid \<Rightarrow> lock_request list \<Rightarrow> lock_table" where
  "restore_transaction L T t requests =
     (let T' = release_transaction L T t;
          restored = locks T' @ map (\<lambda>r. \<lparr>transaction_id = t, request = r\<rparr>) requests
      in T'\<lparr>locks := restored, estimated_bytes := usize_sum (map (held_lock_estimated_bytes L) restored)\<rparr>)"

section \<open>Invariants\<close>

definition lt_compatible :: "lock_table \<Rightarrow> bool" where
  "lt_compatible T \<longleftrightarrow>
     (\<forall>h \<in> set (locks T). \<forall>h' \<in> set (locks T).
        transaction_id h \<noteq> transaction_id h' \<longrightarrow> \<not> requests_conflict (request h) (request h'))"

definition lt_accounted :: "layout \<Rightarrow> lock_table \<Rightarrow> bool" where
  "lt_accounted L T \<longleftrightarrow>
     estimated_bytes T = sum_list (map (held_lock_estimated_bytes L) (locks T)) \<and>
     estimated_bytes T \<le> usize_max"

definition lt_within_budget :: "lock_table \<Rightarrow> bool" where
  "lt_within_budget T \<longleftrightarrow>
     length (locks T) \<le> max_entries (limits T) \<and> estimated_bytes T \<le> max_bytes (limits T)"

text \<open>Limits below the ends of \<open>usize\<close>, as the defaults are.\<close>

definition limits_ok :: "lock_table_limits \<Rightarrow> bool" where
  "limits_ok l \<longleftrightarrow>
     max_entries l < usize_max \<and> max_bytes l < usize_max \<and> escalation_entries_per_table l < usize_max"

text \<open>No transaction holds more range locks on a table, or typed adjacency locks on one side of a
  node, than the escalation limit.\<close>

definition narrow_bounded :: "nat \<Rightarrow> held_lock list \<Rightarrow> bool" where
  "narrow_bounded e hs \<longleftrightarrow>
     (\<forall>t table. length (filter (narrow_range t table) hs) \<le> e) \<and>
     (\<forall>t n d. length (filter (narrow_adjacency t n d) hs) \<le> e)"

definition lt_escalated :: "lock_table \<Rightarrow> bool" where
  "lt_escalated T \<longleftrightarrow> narrow_bounded (escalation_entries_per_table (limits T)) (locks T)"

definition held_covers :: "lock_table \<Rightarrow> txid \<Rightarrow> lock_request \<Rightarrow> bool" where
  "held_covers T t r \<longleftrightarrow>
     (\<exists>held \<in> set (locks T). transaction_id held = t \<and> request_covers (request held) r)"

lemma covers_all_iff: "covers_all T t rs \<longleftrightarrow> (\<forall>r \<in> set rs. held_covers T t r)"
  by (simp add: covers_all_def held_covers_def request_covers_def)

lemma replaced_by_iff: "replaced_by t r held \<longleftrightarrow> transaction_id held = t \<and> request_covers r (request held)"
  by (simp add: replaced_by_def request_covers_def)

lemma grant_held: "held_covers T t r \<Longrightarrow> grant L T t r = Inr T"
  by (simp add: grant_def held_covers_def request_covers_def)

lemma set_lt_blockers:
  "b \<in> set (lt_blockers T t r) \<longleftrightarrow>
   (\<exists>held \<in> set (locks T). transaction_id held = b \<and> b \<noteq> t \<and> requests_conflict (request held) r)"
  by (auto simp: lt_blockers_def set_bts_of_lin)

text \<open>What a successful grant does to the table.\<close>

lemma grant_InrD:
  assumes "grant L T t r = Inr T'" "\<not> held_covers T t r"
  shows "locks T' = filter (\<lambda>held. \<not> replaced_by t r held) (locks T) @ [\<lparr>transaction_id = t, request = r\<rparr>]"
    "limits T' = limits T"
    "estimated_bytes T' =
       sat_add (estimated_bytes T - usize_sum (map (held_lock_estimated_bytes L) (filter (replaced_by t r) (locks T))))
         (lock_request_estimated_bytes L r)"
    "sat_add (length (locks T) - length (filter (replaced_by t r) (locks T))) 1 \<le> max_entries (limits T)"
    "estimated_bytes T' \<le> max_bytes (limits T)"
  using assms by (auto simp: grant_def held_covers_def request_covers_def Let_def split: if_splits)

lemma grant_limits: "grant L T t r = Inr T' \<Longrightarrow> limits T' = limits T"
  by (cases "held_covers T t r") (auto simp: grant_held dest: grant_InrD(2))

section \<open>Granting\<close>

lemma grant_covers:
  assumes "grant L T t r = Inr T'"
  shows "held_covers T' t r"
proof (cases "held_covers T t r")
  case False
  then show ?thesis by (simp add: grant_InrD(1) [OF assms] held_covers_def)
qed (use assms in \<open>simp add: grant_held\<close>)

lemma grant_keeps_coverage:
  assumes "grant L T t r = Inr T'" "held_covers T u q"
  shows "held_covers T' u q"
proof (cases "held_covers T t r")
  case True
  with assms show ?thesis by (simp add: grant_held)
next
  case False
  note T' = grant_InrD(1) [OF assms(1) False]
  from assms(2) obtain h where h: "h \<in> set (locks T)" "transaction_id h = u" "request_covers (request h) q"
    by (auto simp: held_covers_def)
  show ?thesis
  proof (cases "replaced_by t r h")
    case True
    then have "u = t" "request_covers r q" using h request_covers_trans by (auto simp: replaced_by_iff)
    then show ?thesis by (simp add: held_covers_def T')
  next
    case False
    with h T' show ?thesis by (auto simp: held_covers_def)
  qed
qed

lemma grant_other_locks:
  assumes "grant L T t r = Inr T'" "u \<noteq> t"
  shows "filter (\<lambda>h. transaction_id h = u) (locks T') = filter (\<lambda>h. transaction_id h = u) (locks T)"
proof (cases "held_covers T t r")
  case False
  have "filter (\<lambda>h. transaction_id h = u) (filter (\<lambda>h. \<not> replaced_by t r h) xs) =
        filter (\<lambda>h. transaction_id h = u) xs" for xs
    using assms(2) by (induction xs) (auto simp: replaced_by_iff)
  with grant_InrD(1) [OF assms(1) False] assms(2) show ?thesis by simp
qed (use assms in \<open>simp add: grant_held\<close>)

lemma grant_compatible [inv_intros]:
  assumes "lt_compatible T" "grant L T t r = Inr T'" "lt_blockers T t r = []"
  shows "lt_compatible T'"
proof (cases "held_covers T t r")
  case False
  have no: "\<not> requests_conflict (request h) r" if "h \<in> set (locks T)" "transaction_id h \<noteq> t" for h
    using assms(3) set_lt_blockers [of "transaction_id h" T t r] that by auto
  moreover have "\<not> requests_conflict r (request h)" if "h \<in> set (locks T)" "transaction_id h \<noteq> t" for h
    using no [OF that] by (simp add: requests_conflict_sym [of "request h"])
  ultimately show ?thesis
    using assms(1) unfolding lt_compatible_def grant_InrD(1) [OF assms(2) False] by auto
qed (use assms in \<open>simp add: grant_held\<close>)

lemma grant_accounted [inv_intros]:
  assumes "lt_accounted L T" "grant L T t r = Inr T'" "limits_ok (limits T)"
  shows "lt_accounted L T'"
proof (cases "held_covers T t r")
  case False
  let ?f = "held_lock_estimated_bytes L"
  let ?R = "sum_list (map ?f (filter (replaced_by t r) (locks T)))"
  let ?K = "sum_list (map ?f (filter (\<lambda>h. \<not> replaced_by t r h) (locks T)))"
  note G = grant_InrD [OF assms(2) False]
  have split: "sum_list (map ?f (locks T)) = ?R + ?K" by (rule sum_list_filter_split)
  have E: "estimated_bytes T = ?R + ?K" "estimated_bytes T \<le> usize_max"
    using assms(1) split by (auto simp: lt_accounted_def)
  then have "usize_sum (map ?f (filter (replaced_by t r) (locks T))) = ?R"
    by (intro usize_sum_exact) simp
  then have "estimated_bytes T' = sat_add ?K (lock_request_estimated_bytes L r)"
    using G(3) E(1) by simp
  moreover have "sat_add ?K (lock_request_estimated_bytes L r) = ?K + lock_request_estimated_bytes L r"
    using G(5) assms(3) calculation by (intro sat_add_eq_if_le) (auto simp: limits_ok_def)
  moreover have "sum_list (map ?f (locks T')) = ?K + lock_request_estimated_bytes L r"
    by (simp add: G(1) held_lock_estimated_bytes_def)
  moreover have "estimated_bytes T' \<le> usize_max" using calculation(1) by simp
  ultimately show ?thesis by (simp add: lt_accounted_def)
qed (use assms in \<open>simp add: grant_held\<close>)

lemma grant_budget [inv_intros]:
  assumes "lt_within_budget T" "grant L T t r = Inr T'" "limits_ok (limits T)"
  shows "lt_within_budget T'"
proof (cases "held_covers T t r")
  case False
  note G = grant_InrD [OF assms(2) False]
  have "length (locks T') = length (locks T) - length (filter (replaced_by t r) (locks T)) + 1"
    using length_filter_split [of "locks T" "replaced_by t r"] by (simp add: G(1))
  moreover have "length (locks T) - length (filter (replaced_by t r) (locks T)) + 1 \<le> max_entries (limits T)"
    using G(4) assms(3) by (auto simp: limits_ok_def sat_add_le_iff)
  ultimately show ?thesis using G(2,5) by (simp add: lt_within_budget_def)
qed (use assms in \<open>simp add: grant_held\<close>)

text \<open>A refused grant names the demand that exceeds a limit, and there is no other error.\<close>

lemma grant_Inl:
  assumes "grant L T t r = Inl e"
  shows "\<not> held_covers T t r \<and>
    (\<exists>n b. e = LockTableBudgetExceeded n b \<and> (n > max_entries (limits T) \<or> b > max_bytes (limits T)))"
  using assms by (auto simp: grant_def held_covers_def request_covers_def Let_def split: if_splits)

section \<open>Release and savepoints\<close>

lemma locks_release: "locks (release_transaction L T t) = filter (\<lambda>h. transaction_id h \<noteq> t) (locks T)"
  by (simp add: release_transaction_def Let_def)

lemma limits_release [simp]: "limits (release_transaction L T t) = limits T"
  by (simp add: release_transaction_def Let_def)

lemma locks_restore:
  "locks (restore_transaction L T t rs) =
   filter (\<lambda>h. transaction_id h \<noteq> t) (locks T) @ map (\<lambda>r. \<lparr>transaction_id = t, request = r\<rparr>) rs"
  by (simp add: restore_transaction_def Let_def locks_release)

lemma limits_restore [simp]: "limits (restore_transaction L T t rs) = limits T"
  by (simp add: restore_transaction_def Let_def)

lemma release_compatible [inv_intros]: "lt_compatible T \<Longrightarrow> lt_compatible (release_transaction L T t)"
  by (auto simp: lt_compatible_def locks_release)

lemma release_accounted [inv_intros]:
  assumes "lt_accounted L T"
  shows "lt_accounted L (release_transaction L T t)"
proof -
  let ?K = "map (held_lock_estimated_bytes L) (filter (\<lambda>h. transaction_id h \<noteq> t) (locks T))"
  have "sum_list ?K \<le> usize_max"
    using assms sum_list_filter_le [of "held_lock_estimated_bytes L" "\<lambda>h. transaction_id h \<noteq> t" "locks T"]
    by (auto simp: lt_accounted_def)
  then show ?thesis
    by (simp add: lt_accounted_def release_transaction_def Let_def usize_sum_exact)
qed

lemma release_budget [inv_intros]:
  assumes "lt_within_budget T" "lt_accounted L T"
  shows "lt_within_budget (release_transaction L T t)"
proof -
  let ?K = "filter (\<lambda>h. transaction_id h \<noteq> t) (locks T)"
  have "sum_list (map (held_lock_estimated_bytes L) ?K) \<le> estimated_bytes T"
    using assms(2) sum_list_filter_le [of "held_lock_estimated_bytes L" "\<lambda>h. transaction_id h \<noteq> t" "locks T"]
    by (auto simp: lt_accounted_def)
  moreover have "length ?K \<le> length (locks T)" by (rule length_filter_le)
  ultimately have "length ?K \<le> max_entries (limits T)"
    "sum_list (map (held_lock_estimated_bytes L) ?K) \<le> max_bytes (limits T)"
    "sum_list (map (held_lock_estimated_bytes L) ?K) \<le> usize_max"
    using assms unfolding lt_within_budget_def lt_accounted_def by linarith+
  then show ?thesis
    by (simp add: lt_within_budget_def release_transaction_def Let_def usize_sum_exact)
qed

lemma savepoint_covered: "r \<in> set (savepoint T t) \<Longrightarrow> held_covers T t r"
  by (auto simp: savepoint_def held_covers_def)

lemma savepoint_restore: "savepoint (restore_transaction L T t rs) t = rs"
proof -
  have "filter (\<lambda>h. transaction_id h = t) (filter (\<lambda>h. transaction_id h \<noteq> t) xs) = []" for xs
    by (induction xs) auto
  then show ?thesis by (simp add: savepoint_def locks_restore comp_def filter_map)
qed

lemma restore_compatible [inv_intros]:
  assumes "lt_compatible T" "\<And>r. r \<in> set rs \<Longrightarrow> held_covers T t r"
  shows "lt_compatible (restore_transaction L T t rs)"
proof -
  have no: "\<not> requests_conflict r (request h)" if "r \<in> set rs" "h \<in> set (locks T)" "transaction_id h \<noteq> t" for r h
  proof
    assume conflict: "requests_conflict r (request h)"
    from assms(2) [OF that(1)] obtain g where "g \<in> set (locks T)" "transaction_id g = t" "request_covers (request g) r"
      by (auto simp: held_covers_def)
    with request_covers_conflict [OF _ conflict] assms(1) that show False
      unfolding lt_compatible_def by metis
  qed
  moreover have "\<not> requests_conflict (request h) r" if "r \<in> set rs" "h \<in> set (locks T)" "transaction_id h \<noteq> t" for r h
    using no [OF that] by (simp add: requests_conflict_sym [of "request h"])
  ultimately show ?thesis
    using assms(1) unfolding lt_compatible_def locks_restore by auto
qed

lemma restore_keeps_coverage:
  "u \<noteq> t \<Longrightarrow> held_covers (restore_transaction L T t rs) u q = held_covers T u q"
  "u \<noteq> t \<Longrightarrow> held_covers (release_transaction L T t) u q = held_covers T u q"
  by (auto simp: held_covers_def locks_restore locks_release)

lemma restore_covers:
  "q \<in> set rs \<Longrightarrow> held_covers (restore_transaction L T t rs) t q"
  by (force simp: held_covers_def locks_restore)

section \<open>Escalation\<close>

lemma mode_covers_refl: "mode_covers m m"
  by (simp add: mode_covers_def)

lemma covering_mode_covers:
  "mode_covers (covering_mode m hs) m" "h \<in> set hs \<Longrightarrow> mode_covers (covering_mode m hs) (mode (request h))"
  by (auto simp: covering_mode_def mode_covers_def)

lemma normalized_covers: "request_covers (normalized_request T t r) r"
  by (cases "target r")
    (auto simp: normalized_request_def Let_def request_covers_def relational_table_def graph_adjacency_def
      covering_mode_covers target_covers_def mode_covers_refl key_ord.lower_covers_refl
      key_ord.upper_covers_refl split: option.splits)

lemma normalized_narrow_range:
  "narrow_range u table \<lparr>transaction_id = t, request = normalized_request T t r\<rparr> \<Longrightarrow>
   sat_add (length (filter (narrow_range u table) (locks T))) 1 \<le> escalation_entries_per_table (limits T)"
  by (cases "target r")
    (auto simp: narrow_range_def normalized_request_def Let_def relational_table_def graph_adjacency_def
      split: if_splits option.splits)

lemma normalized_narrow_adjacency:
  "narrow_adjacency u n d \<lparr>transaction_id = t, request = normalized_request T t r\<rparr> \<Longrightarrow>
   sat_add (length (filter (narrow_adjacency u n d) (locks T))) 1 \<le> escalation_entries_per_table (limits T)"
  by (cases "target r")
    (auto simp: narrow_adjacency_def normalized_request_def Let_def relational_table_def graph_adjacency_def
      split: if_splits option.splits)

lemma length_filter_mono: "length (filter P (filter Q xs)) \<le> length (filter P xs)"
  by (induction xs) auto

lemma grant_narrow_bound:
  assumes "grant L T t n = Inr T'" "length (filter N (locks T)) \<le> e" "e < usize_max"
    and "N \<lparr>transaction_id = t, request = n\<rparr> \<Longrightarrow> sat_add (length (filter N (locks T))) 1 \<le> e"
  shows "length (filter N (locks T')) \<le> e"
proof (cases "held_covers T t n")
  case False
  have "length (filter N (filter (\<lambda>h. \<not> replaced_by t n h) (locks T))) \<le> length (filter N (locks T))"
    by (rule length_filter_mono)
  with assms(2-4) show ?thesis
    by (auto simp: grant_InrD(1) [OF assms(1) False] sat_add_le_iff)
qed (use assms in \<open>simp add: grant_held\<close>)

lemma grant_escalated [inv_intros]:
  assumes "lt_escalated T" "grant L T t (normalized_request T t r) = Inr T'" "limits_ok (limits T)"
  shows "lt_escalated T'"
  unfolding lt_escalated_def narrow_bounded_def grant_limits [OF assms(2)]
proof (intro conjI allI)
  have e: "escalation_entries_per_table (limits T) < usize_max" using assms(3) by (simp add: limits_ok_def)
  show "length (filter (narrow_range u table) (locks T')) \<le> escalation_entries_per_table (limits T)" for u table
    by (rule grant_narrow_bound [OF assms(2) _ e normalized_narrow_range])
      (use assms(1) in \<open>simp_all add: lt_escalated_def narrow_bounded_def\<close>)
  show "length (filter (narrow_adjacency u n d) (locks T')) \<le> escalation_entries_per_table (limits T)" for u n d
    by (rule grant_narrow_bound [OF assms(2) _ e normalized_narrow_adjacency])
      (use assms(1) in \<open>simp_all add: lt_escalated_def narrow_bounded_def\<close>)
qed

text \<open>An escalated request covers, and so replaces, every narrow lock it was escalated from.\<close>

lemma escalation_replaces:
  assumes "target r = RelationalRange ns l u" "normalized_request T t r \<noteq> r"
    and "h \<in> set (locks T)" "narrow_range t (relational_namespace_table ns) h"
  shows "replaced_by t (normalized_request T t r) h"
proof -
  let ?N = "filter (narrow_range t (relational_namespace_table ns)) (locks T)"
  have "normalized_request T t r = relational_table (covering_mode (mode r) ?N) (relational_namespace_table ns)"
    using assms(1,2) by (auto simp: normalized_request_def Let_def split: if_splits)
  moreover have "mode_covers (covering_mode (mode r) ?N) (mode (request h))"
    using assms(3,4) by (intro covering_mode_covers(2)) simp
  ultimately show ?thesis
    using assms(4)
    by (cases "target (request h)")
      (simp_all add: replaced_by_def narrow_range_def relational_table_def target_covers_def)
qed

lemma narrow_bounded_filter: "narrow_bounded e hs \<Longrightarrow> narrow_bounded e (filter P hs)"
  unfolding narrow_bounded_def using length_filter_mono le_trans by blast

lemma release_escalated [inv_intros]: "lt_escalated T \<Longrightarrow> lt_escalated (release_transaction L T t)"
  by (simp add: lt_escalated_def locks_release narrow_bounded_filter)

lemma narrow_bounded_replace:
  assumes "narrow_bounded e hs" "narrow_bounded e gs" "\<forall>g \<in> set gs. transaction_id g = t"
  shows "narrow_bounded e (filter (\<lambda>h. transaction_id h \<noteq> t) hs @ gs)"
proof -
  have "length (filter N (filter (\<lambda>h. transaction_id h \<noteq> t) hs @ gs)) \<le> e"
    if N: "\<And>h. N h \<Longrightarrow> transaction_id h = u" "length (filter N hs) \<le> e" "length (filter N gs) \<le> e" for N u
  proof (cases "u = t")
    case True
    with N(1) have "filter N (filter (\<lambda>h. transaction_id h \<noteq> t) hs) = []" by (auto simp: filter_empty_conv)
    with N(3) show ?thesis by simp
  next
    case False
    with N(1) assms(3) have "filter N gs = []" by (auto simp: filter_empty_conv)
    with N(2) length_filter_mono [of N "\<lambda>h. transaction_id h \<noteq> t" hs] show ?thesis by simp
  qed
  note bound = this
  show ?thesis
    unfolding narrow_bounded_def
  proof (intro conjI allI)
    fix u table show "length (filter (narrow_range u table) (filter (\<lambda>h. transaction_id h \<noteq> t) hs @ gs)) \<le> e"
      by (rule bound [of _ u]) (use assms(1,2) in \<open>simp_all add: narrow_bounded_def narrow_range_def\<close>)
  next
    fix u n d show "length (filter (narrow_adjacency u n d) (filter (\<lambda>h. transaction_id h \<noteq> t) hs @ gs)) \<le> e"
      by (rule bound [of _ u]) (use assms(1,2) in \<open>simp_all add: narrow_bounded_def narrow_adjacency_def\<close>)
  qed
qed

lemma restore_escalated [inv_intros]:
  assumes "lt_escalated T"
    and "narrow_bounded (escalation_entries_per_table (limits T)) (map (\<lambda>r. \<lparr>transaction_id = t, request = r\<rparr>) rs)"
  shows "lt_escalated (restore_transaction L T t rs)"
  using narrow_bounded_replace [OF assms(1) [unfolded lt_escalated_def] assms(2)]
  by (simp add: lt_escalated_def locks_restore)

lemma savepoint_locks:
  "map (\<lambda>r. \<lparr>transaction_id = t, request = r\<rparr>) (savepoint T t) = filter (\<lambda>h. transaction_id h = t) (locks T)"
proof -
  have "map (\<lambda>r. \<lparr>transaction_id = t, request = r\<rparr>) (map request (filter (\<lambda>h. transaction_id h = t) hs))
      = filter (\<lambda>h. transaction_id h = t) hs" for hs :: "held_lock list"
    by (induction hs) auto
  then show ?thesis by (simp only: savepoint_def)
qed

end
