(* ===== verification/Lock_Wait.thy ===== *)
theory Lock_Wait
  imports Lock_Table
begin

text \<open>
  The wait queue \<open>LockWaitQueue\<close> with its deadlock check, and the explicit wait-for graph
  \<open>WaitForGraph\<close>, of \<open>crates/storage/src/transaction_locks.rs\<close>.

  \<open>check_deadlock\<close> is the breadth-first search of the source over edges derived from the lock
  table and the queue. It is shown to report exactly the cycles through the given transaction:
  a reported path is a cycle of the waits-for relation, and no report means there is none.
  \<open>register\<close> is shown to keep the wait-for graph acyclic. The searches are total: the
  breadth-first search decreases the number of unvisited waiters, and the recursion depth of the
  depth-first search is bounded by the number of owners, which is the fuel it is given.
\<close>

section \<open>The wait queue\<close>

record lock_wait_queue =
  wq_requests :: "held_lock list"
  wq_bytes :: nat
  wq_limits :: lock_table_limits

definition default_wait_queue :: lock_wait_queue where
  "default_wait_queue = \<lparr>wq_requests = [], wq_bytes = 0, wq_limits = default_limits\<rparr>"

definition enqueue ::
  "layout \<Rightarrow> lock_wait_queue \<Rightarrow> txid \<Rightarrow> lock_request \<Rightarrow> lock_error + lock_wait_queue" where
  "enqueue L q t r =
     (case find (\<lambda>p. transaction_id p = t) (wq_requests q) of
        Some existing \<Rightarrow> if request_eq (request existing) r then Inr q else Inl DifferentPendingRequest
      | None \<Rightarrow>
          (let next_entries = sat_add (length (wq_requests q)) 1;
               next_bytes = sat_add (wq_bytes q) (lock_request_estimated_bytes L r)
           in if next_entries > max_entries (wq_limits q) \<or> next_bytes > max_bytes (wq_limits q)
              then Inl (WaitQueueBudgetExceeded next_entries next_bytes)
              else Inr (q\<lparr>wq_requests := wq_requests q @ [\<lparr>transaction_id = t, request = r\<rparr>],
                         wq_bytes := next_bytes\<rparr>)))"

text \<open>The first entry of the transaction; the queue holds at most one.\<close>

primrec remove_first :: "txid \<Rightarrow> held_lock list \<Rightarrow> held_lock list" where
  "remove_first t [] = []"
| "remove_first t (p # ps) = (if transaction_id p = t then ps else p # remove_first t ps)"

definition wq_remove :: "layout \<Rightarrow> lock_wait_queue \<Rightarrow> txid \<Rightarrow> lock_wait_queue" where
  "wq_remove L q t =
     (case find (\<lambda>p. transaction_id p = t) (wq_requests q) of
        None \<Rightarrow> q
      | Some removed \<Rightarrow>
          q\<lparr>wq_requests := remove_first t (wq_requests q),
            wq_bytes := wq_bytes q - held_lock_estimated_bytes L removed\<rparr>)"

definition wq_blockers :: "lock_wait_queue \<Rightarrow> txid \<Rightarrow> lock_request \<Rightarrow> txid list" where
  "wq_blockers q t r =
     bts_of cmp_lin (map transaction_id
       (filter (\<lambda>p. requests_conflict (request p) r)
         (takeWhile (\<lambda>p. transaction_id p \<noteq> t) (wq_requests q))))"

section \<open>The deadlock check\<close>

definition pending_requests :: "lock_wait_queue \<Rightarrow> txid \<Rightarrow> lock_request option" where
  "pending_requests q =
     foldl (\<lambda>m p. m(transaction_id p \<mapsto> request p)) Map.empty (wq_requests q)"

text \<open>\<open>BTreeSet::extend\<close>: the blockers from the lock table and those from the queue.\<close>

definition all_blockers :: "lock_wait_queue \<Rightarrow> lock_table \<Rightarrow> txid \<Rightarrow> lock_request \<Rightarrow> txid list" where
  "all_blockers q T w r =
     foldl (\<lambda>s b. bts_insert cmp_lin b s) (lt_blockers T w r) (wq_blockers q w r)"

text \<open>
  The map of parents is an association list, newest entry first. In the walk along the parents
  \<open>None\<close> is a missing parent (an index panic) or no fuel.
\<close>

primrec parent_path ::
  "nat \<Rightarrow> (txid \<times> txid option) list \<Rightarrow> txid \<Rightarrow> txid list \<Rightarrow> txid list option" where
  "parent_path 0 parents cursor path = None"
| "parent_path (Suc n) parents cursor path =
     (case map_of parents cursor of
        None \<Rightarrow> None
      | Some None \<Rightarrow> Some path
      | Some (Some parent) \<Rightarrow> parent_path n parents parent (path @ [parent]))"

fun scan_blockers ::
  "lock_wait_queue \<Rightarrow> txid \<Rightarrow> txid \<Rightarrow> (txid \<times> txid option) list \<Rightarrow> txid list \<Rightarrow> txid list \<Rightarrow>
   lock_error + ((txid \<times> txid option) list \<times> txid list)" where
  "scan_blockers q t waiter parents pending [] = Inr (parents, pending)"
| "scan_blockers q t waiter parents pending (blocker # bs) =
     (if blocker = t then
        (case parent_path (Suc (length (wq_requests q))) parents waiter [waiter] of
           None \<Rightarrow> Inl ParentPathLost
         | Some path \<Rightarrow> Inl (Deadlock t (rev path @ [t])))
      else if pending_requests q blocker \<noteq> None \<and> map_of parents blocker = None then
        scan_blockers q t waiter ((blocker, Some waiter) # parents) (pending @ [blocker]) bs
      else scan_blockers q t waiter parents pending bs)"

definition unvisited :: "lock_wait_queue \<Rightarrow> (txid \<times> txid option) list \<Rightarrow> nat" where
  "unvisited q parents = length (filter (\<lambda>p. map_of parents (transaction_id p) = None) (wq_requests q))"

lemma foldl_map_upd: "foldl (\<lambda>m p. m(f p \<mapsto> g p)) m ps = m ++ map_of (rev (map (\<lambda>p. (f p, g p)) ps))"
  by (induction ps arbitrary: m) simp_all

lemma pending_requests_map: "pending_requests q = map_of (rev (map (\<lambda>p. (transaction_id p, request p)) (wq_requests q)))"
  by (simp add: pending_requests_def foldl_map_upd)

lemma pending_requests_Some:
  "pending_requests q w = Some r \<Longrightarrow> \<exists>p \<in> set (wq_requests q). transaction_id p = w \<and> request p = r"
  by (auto simp: pending_requests_map dest!: map_of_SomeD)

lemma pending_waiter: "pending_requests q w \<noteq> None \<Longrightarrow> w \<in> transaction_id ` set (wq_requests q)"
  using pending_requests_Some by fastforce

lemma unvisited_upd:
  assumes "pending_requests q b \<noteq> None" "map_of parents b = None"
  shows "unvisited q ((b, x) # parents) < unvisited q parents"
proof -
  obtain p where "p \<in> set (wq_requests q)" and b: "transaction_id p = b"
    using assms(1) pending_requests_Some by blast
  then obtain xs ys where q: "wq_requests q = xs @ p # ys" by (metis split_list)
  have mono: "length (filter (\<lambda>p. map_of ((b, x) # parents) (transaction_id p) = None) ps)
        \<le> length (filter (\<lambda>p. map_of parents (transaction_id p) = None) ps)" for ps
    by (induction ps) auto
  show ?thesis
    using mono [of xs] mono [of ys] assms(2) b by (simp add: unvisited_def q)
qed

lemma scan_blockers_measure:
  "scan_blockers q t w parents pending bs = Inr (parents', pending') \<Longrightarrow>
   2 * unvisited q parents' + length pending' \<le> 2 * unvisited q parents + length pending"
proof (induction bs arbitrary: parents pending)
  case (Cons blocker bs)
  show ?case
  proof (cases "blocker \<noteq> t \<and> pending_requests q blocker \<noteq> None \<and> map_of parents blocker = None")
    case True
    with Cons.prems have "scan_blockers q t w ((blocker, Some w) # parents) (pending @ [blocker]) bs = Inr (parents', pending')"
      by simp
    note ih = Cons.IH [OF this]
    have "unvisited q ((blocker, Some w) # parents) < unvisited q parents"
      using True by (intro unvisited_upd) auto
    with ih show ?thesis unfolding length_append list.size by linarith
  next
    case False
    with Cons.prems have "scan_blockers q t w parents pending bs = Inr (parents', pending')"
      by (auto split: if_splits option.splits)
    then show ?thesis by (rule Cons.IH)
  qed
qed simp

function bfs ::
  "lock_wait_queue \<Rightarrow> lock_table \<Rightarrow> txid \<Rightarrow> (txid \<times> txid option) list \<Rightarrow> txid list \<Rightarrow> lock_error + unit" where
  "bfs q T t parents [] = Inr ()"
| "bfs q T t parents (waiter # pending) =
     (case pending_requests q waiter of
        None \<Rightarrow> bfs q T t parents pending
      | Some r \<Rightarrow>
          (case scan_blockers q t waiter parents pending (all_blockers q T waiter r) of
             Inl e \<Rightarrow> Inl e
           | Inr s \<Rightarrow> bfs q T t (fst s) (snd s)))"
  by pat_completeness auto

termination bfs
proof (relation "measure (\<lambda>(q, T, t, parents, pending). 2 * unvisited q parents + length pending)")
  show "((q, T, t, fst s, snd s), q, T, t, parents, waiter # pending)
      \<in> measure (\<lambda>(q, T, t, parents, pending). 2 * unvisited q parents + length pending)"
    if "scan_blockers q t waiter parents pending (all_blockers q T waiter r) = Inr s"
    for q T t parents waiter pending r s
    using that scan_blockers_measure [of q t waiter parents pending "all_blockers q T waiter r" "fst s" "snd s"]
    by (simp add: case_prod_beta)
qed auto

definition check_deadlock :: "lock_wait_queue \<Rightarrow> txid \<Rightarrow> lock_table \<Rightarrow> lock_error + unit" where
  "check_deadlock q t T = bfs q T t [(t, None)] [t]"

section \<open>The deadlock check is sound and complete\<close>

definition waits_for :: "lock_wait_queue \<Rightarrow> lock_table \<Rightarrow> (txid \<times> txid) set" where
  "waits_for q T = {(w, b). \<exists>r. pending_requests q w = Some r \<and> b \<in> set (all_blockers q T w r)}"

definition is_cycle :: "(txid \<times> txid) set \<Rightarrow> txid \<Rightarrow> txid list \<Rightarrow> bool" where
  "is_cycle E t path \<longleftrightarrow>
     2 \<le> length path \<and> hd path = t \<and> last path = t \<and> successively (\<lambda>x y. (x, y) \<in> E) path"

lemma set_all_blockers:
  "set (all_blockers q T w r) = set (lt_blockers T w r) \<union> set (wq_blockers q w r)"
proof -
  have "set (foldl (\<lambda>s b. bts_insert cmp_lin b s) s bs) = set s \<union> set bs" for s bs :: "txid list"
    by (induction bs arbitrary: s) auto
  then show ?thesis by (simp add: all_blockers_def)
qed

lemma successively_trancl:
  "successively (\<lambda>x y. (x, y) \<in> E) xs \<Longrightarrow> 2 \<le> length xs \<Longrightarrow> (hd xs, last xs) \<in> E\<^sup>+"
proof (induction xs rule: induct_list012)
  case (3 x y zs)
  then show ?case by (cases zs) (auto intro: trancl_into_trancl2)
qed simp_all

lemma is_cycle_trancl: "is_cycle E t path \<Longrightarrow> (t, t) \<in> E\<^sup>+"
  using successively_trancl [of E path] by (auto simp: is_cycle_def)

text \<open>The parents form a tree rooted at the start, listed youngest first.\<close>

inductive parent_tree ::
  "(txid \<times> txid) set \<Rightarrow> txid set \<Rightarrow> txid \<Rightarrow> (txid \<times> txid option) list \<Rightarrow> bool"
  for E W t where
  root: "parent_tree E W t [(t, None)]"
| add: "parent_tree E W t ps \<Longrightarrow> x \<notin> fst ` set ps \<Longrightarrow> x \<in> W \<Longrightarrow> y \<in> fst ` set ps \<Longrightarrow> (y, x) \<in> E \<Longrightarrow>
        parent_tree E W t ((x, Some y) # ps)"

lemma parent_tree_dom:
  "parent_tree E W t ps \<Longrightarrow> distinct (map fst ps) \<and> t \<in> fst ` set ps \<and> fst ` set ps \<subseteq> insert t W"
  by (induction rule: parent_tree.induct) auto

lemma parent_tree_length:
  assumes "parent_tree E W t ps" "finite W"
  shows "length ps \<le> Suc (card W)"
proof -
  have "length ps = card (set (map fst ps))" using parent_tree_dom [OF assms(1)] by (metis distinct_card length_map)
  also have "\<dots> \<le> card (insert t W)" using parent_tree_dom [OF assms(1)] assms(2) by (intro card_mono) auto
  also have "\<dots> \<le> Suc (card W)" by (rule card_insert_le_m1) simp_all
  finally show ?thesis .
qed

lemma parent_path_tree:
  "parent_tree E W t ps \<Longrightarrow> (\<And>x. x \<in> fst ` set ps \<Longrightarrow> map_of ps' x = map_of ps x) \<Longrightarrow>
   c \<in> fst ` set ps \<Longrightarrow> length ps \<le> n \<Longrightarrow>
   \<exists>qs. parent_path n ps' c path = Some (path @ qs) \<and> successively (\<lambda>x y. (y, x) \<in> E) (c # qs) \<and> last (c # qs) = t"
proof (induction arbitrary: c n path rule: parent_tree.induct)
  case root
  then show ?case by (cases n) auto
next
  case (add ps x y)
  obtain m where n: "n = Suc m" using add.prems(3) by (cases n) auto
  have x: "map_of ps' x = Some (Some y)" using add.prems(1) [of x] by simp
  have le: "map_of ps' z = map_of ps z" if "z \<in> fst ` set ps" for z
    using add.prems(1) [of z] add.hyps(2) that by auto
  show ?case
  proof (cases "c = x")
    case True
    have "length ps \<le> m" using add.prems(3) n by simp
    from add.IH [OF le add.hyps(4) this, of "path @ [y]"]
    obtain qs where "parent_path m ps' y (path @ [y]) = Some ((path @ [y]) @ qs)"
      "successively (\<lambda>x y. (y, x) \<in> E) (y # qs)" "last (y # qs) = t" by blast
    with True x n add.hyps(5) show ?thesis by (intro exI [of _ "y # qs"]) simp
  next
    case False
    with add.IH [OF le, of c n path] add.prems(2,3) show ?thesis by simp
  qed
qed

lemma parent_path_cycle:
  assumes "parent_tree E W t ps" "finite W" "card W \<le> n" "w \<in> fst ` set ps" "(w, t) \<in> E"
  shows "\<exists>path. parent_path (Suc n) ps w [w] = Some path \<and> is_cycle E t (rev path @ [t])"
proof -
  have "length ps \<le> Suc n" using parent_tree_length [OF assms(1,2)] assms(3) by simp
  from parent_path_tree [OF assms(1) refl assms(4) this, of "[w]"] obtain qs where
    qs: "parent_path (Suc n) ps w [w] = Some (w # qs)" "successively (\<lambda>x y. (y, x) \<in> E) (w # qs)" "last (w # qs) = t"
    by auto
  define r where "r = rev (w # qs)"
  have r: "r \<noteq> []" "hd r = t" "last r = w" "successively (\<lambda>x y. (x, y) \<in> E) r"
    using qs(2,3) by (simp_all only: r_def hd_rev last_rev successively_rev rev_is_Nil_conv list.sel list.distinct simp_thms)
  then have "successively (\<lambda>x y. (x, y) \<in> E) (r @ [t])"
    using assms(5) by (simp add: successively_append_iff)
  moreover have "2 \<le> length (r @ [t])" "hd (r @ [t]) = t" using r(1,2) by (cases r; simp)+
  ultimately have "is_cycle E t (r @ [t])" by (simp add: is_cycle_def)
  with qs(1) show ?thesis by (simp add: r_def)
qed

text \<open>What one scan of a waiter's blockers adds to the search.\<close>

lemma finite_waiters: "finite (transaction_id ` set (wq_requests q))"
  "card (transaction_id ` set (wq_requests q)) \<le> length (wq_requests q)"
  by simp (metis card_image_le card_length finite_set le_trans)

lemma scan_blockers_Inl:
  fixes q
  defines "W \<equiv> transaction_id ` set (wq_requests q)"
  assumes "scan_blockers q t w ps pending bs = Inl e" "parent_tree E W t ps" "w \<in> fst ` set ps"
    and "\<And>b. b \<in> set bs \<Longrightarrow> (w, b) \<in> E"
  shows "\<exists>path. e = Deadlock t path \<and> is_cycle E t path"
  using assms(2-)
proof (induction bs arbitrary: ps pending)
  case (Cons b bs)
  show ?case
  proof (cases "b = t")
    case True
    have "card W \<le> length (wq_requests q)" "finite W" using finite_waiters by (simp_all add: W_def)
    from parent_path_cycle [OF Cons.prems(2) this(2,1) Cons.prems(3)] Cons.prems(1,4) True
    show ?thesis by auto
  next
    case False
    show ?thesis
    proof (cases "pending_requests q b \<noteq> None \<and> map_of ps b = None")
      case True
      then have "b \<in> W" "b \<notin> fst ` set ps"
        using pending_waiter [of q b] by (simp_all add: W_def map_of_eq_None_iff)
      then have "parent_tree E W t ((b, Some w) # ps)"
        using Cons.prems by (intro parent_tree.add) auto
      with Cons.IH [of "(b, Some w) # ps" "pending @ [b]"] Cons.prems True False show ?thesis by simp
    next
      case no: False
      have "scan_blockers q t w ps pending bs = Inl e" using Cons.prems(1) False no by auto
      with Cons.IH Cons.prems show ?thesis by simp
    qed
  qed
qed simp

lemma scan_blockers_Inr:
  fixes q
  defines "W \<equiv> transaction_id ` set (wq_requests q)"
  assumes "scan_blockers q t w ps pending bs = Inr (ps', pending')" "parent_tree E W t ps" "w \<in> fst ` set ps"
    and "\<And>b. b \<in> set bs \<Longrightarrow> (w, b) \<in> E"
  shows "parent_tree E W t ps' \<and> fst ` set ps \<subseteq> fst ` set ps' \<and> set pending \<subseteq> set pending' \<and>
    fst ` set ps' \<subseteq> fst ` set ps \<union> set pending' \<and> set pending' \<subseteq> set pending \<union> fst ` set ps' \<and>
    (\<forall>b \<in> set bs. b \<noteq> t \<and> (pending_requests q b = None \<or> b \<in> fst ` set ps'))"
  using assms(2-)
proof (induction bs arbitrary: ps pending)
  case (Cons b bs)
  have t: "b \<noteq> t" using Cons.prems(1) by (auto split: option.splits)
  show ?case
  proof (cases "pending_requests q b \<noteq> None \<and> map_of ps b = None")
    case True
    then have "b \<in> W" "b \<notin> fst ` set ps"
      using pending_waiter [of q b] by (simp_all add: W_def map_of_eq_None_iff)
    then have "parent_tree E W t ((b, Some w) # ps)"
      using Cons.prems by (intro parent_tree.add) auto
    moreover have "scan_blockers q t w ((b, Some w) # ps) (pending @ [b]) bs = Inr (ps', pending')"
      using Cons.prems(1) True t by simp
    ultimately show ?thesis using Cons.IH [of "(b, Some w) # ps" "pending @ [b]"] Cons.prems t by auto
  next
    case False
    then have "pending_requests q b = None \<or> b \<in> fst ` set ps" by (auto simp: map_of_eq_None_iff)
    moreover have "scan_blockers q t w ps pending bs = Inr (ps', pending')"
      using Cons.prems(1) False t by auto
    ultimately show ?thesis using Cons.IH [of ps pending] Cons.prems t by auto
  qed
qed simp

lemma bfs_correct:
  fixes q T
  defines "W \<equiv> transaction_id ` set (wq_requests q)" and "E \<equiv> waits_for q T"
  assumes "parent_tree E W t ps" "set pending \<subseteq> fst ` set ps"
    and "\<And>x b. x \<in> fst ` set ps \<Longrightarrow> x \<notin> set pending \<Longrightarrow> (x, b) \<in> E \<Longrightarrow>
           b \<noteq> t \<and> (pending_requests q b = None \<or> b \<in> fst ` set ps)"
  shows "(\<forall>e. bfs q T t ps pending = Inl e \<longrightarrow> (\<exists>path. e = Deadlock t path \<and> is_cycle E t path)) \<and>
         (bfs q T t ps pending = Inr () \<longrightarrow> (t, t) \<notin> E\<^sup>+)"
  using assms(3-)
proof (induction "2 * unvisited q ps + length pending" arbitrary: ps pending rule: less_induct)
  case less
  show ?case
  proof (cases pending)
    case Nil
    have closed: "b \<noteq> t \<and> (pending_requests q b = None \<or> b \<in> fst ` set ps)"
      if "x \<in> fst ` set ps" "(x, b) \<in> E" for x b using less.prems(3) Nil that by auto
    have "y \<noteq> t \<and> (pending_requests q y = None \<or> y \<in> fst ` set ps)" if "(t, y) \<in> E\<^sup>+" for y
      using that
    proof (induction rule: trancl_induct)
      case (base y)
      then show ?case using closed parent_tree_dom [OF less.prems(1)] by blast
    next
      case (step y z)
      then have "pending_requests q y \<noteq> None" by (auto simp: E_def waits_for_def)
      with step closed show ?case by blast
    qed
    with Nil show ?thesis by auto
  next
    case (Cons w rest)
    show ?thesis
    proof (cases "pending_requests q w")
      case None
      then have no_edge: "(w, b) \<notin> E" for b by (simp add: E_def waits_for_def)
      have "b \<noteq> t \<and> (pending_requests q b = None \<or> b \<in> fst ` set ps)"
        if "x \<in> fst ` set ps" "x \<notin> set rest" "(x, b) \<in> E" for x b
        using less.prems(3) [of x b] that no_edge Cons by auto
      with less.hyps [of ps rest] less.prems(1,2) Cons None show ?thesis by simp
    next
      case (Some r)
      let ?bs = "all_blockers q T w r"
      have w: "w \<in> fst ` set ps" and edge: "\<And>b. (w, b) \<in> E \<longleftrightarrow> b \<in> set ?bs"
        using less.prems(2) Cons Some by (auto simp: E_def waits_for_def)
      show ?thesis
      proof (cases "scan_blockers q t w ps rest ?bs")
        case (Inl e)
        with scan_blockers_Inl [OF Inl less.prems(1) [unfolded W_def] w] edge Cons Some show ?thesis by auto
      next
        case (Inr s)
        obtain ps' pending' where s: "s = (ps', pending')" by (cases s)
        have sc: "scan_blockers q t w ps rest ?bs = Inr (ps', pending')" using Inr s by simp
        note I = scan_blockers_Inr [OF sc less.prems(1) [unfolded W_def] w edge [THEN iffD2], folded W_def]
        then have tree: "parent_tree E W t ps'" and grow: "fst ` set ps \<subseteq> fst ` set ps'"
          and kept: "set rest \<subseteq> set pending'" "fst ` set ps' \<subseteq> fst ` set ps \<union> set pending'"
          and new: "set pending' \<subseteq> set rest \<union> fst ` set ps'"
          and seen: "\<And>b. b \<in> set ?bs \<Longrightarrow> b \<noteq> t \<and> (pending_requests q b = None \<or> b \<in> fst ` set ps')"
          by simp_all
        have m: "2 * unvisited q ps' + length pending' < 2 * unvisited q ps + length pending"
          using scan_blockers_measure [OF sc] Cons by simp
        have "set rest \<subseteq> fst ` set ps" using less.prems(2) Cons by simp
        then have sub: "set pending' \<subseteq> fst ` set ps'" using new grow by (meson Un_least order_trans subset_refl)
        have "b \<noteq> t \<and> (pending_requests q b = None \<or> b \<in> fst ` set ps')"
          if "x \<in> fst ` set ps'" "x \<notin> set pending'" "(x, b) \<in> E" for x b
        proof (cases "x = w")
          case True
          with seen edge that(3) show ?thesis by simp
        next
          case False
          have "x \<in> fst ` set ps" "x \<notin> set pending" using kept that(1,2) False Cons by auto
          from less.prems(3) [OF this that(3)] grow show ?thesis by auto
        qed
        from less.hyps [OF m tree sub this] Cons Some sc show ?thesis by simp
      qed
    qed
  qed
qed

lemma check_deadlock_spec:
  "case check_deadlock q t T of
     Inl e \<Rightarrow> \<exists>path. e = Deadlock t path \<and> is_cycle (waits_for q T) t path
   | Inr _ \<Rightarrow> (t, t) \<notin> (waits_for q T)\<^sup>+"
proof -
  have "parent_tree (waits_for q T) (transaction_id ` set (wq_requests q)) t [(t, None)]" by (rule parent_tree.root)
  from bfs_correct [OF this, of "[t]"] show ?thesis
    by (auto simp: check_deadlock_def split: sum.splits)
qed

section \<open>The wait-for graph\<close>

text \<open>\<open>BTreeMap<u64, BTreeSet<u64>>\<close>, ascending in its keys and in each set.\<close>

type_synonym wait_for_graph = "(txid, txid list) btree"

definition owners_of :: "wait_for_graph \<Rightarrow> txid \<Rightarrow> txid list" where
  "owners_of g w = (case bt_get cmp_lin w g of None \<Rightarrow> [] | Some owners \<Rightarrow> owners)"

text \<open>
  \<open>path_to\<close>: the loop over the owners of the current transaction. The path and the set of
  transactions being visited are restored on backtracking, so they are arguments. The first
  argument bounds the depth of the recursion.
\<close>

fun path_to ::
  "nat \<Rightarrow> wait_for_graph \<Rightarrow> txid list \<Rightarrow> txid \<Rightarrow> txid list \<Rightarrow> txid list \<Rightarrow> txid list option" where
  "path_to n g [] tgt path visiting = None"
| "path_to n g (owner # os) tgt path visiting =
     (if owner = tgt then Some (path @ [owner])
      else if owner \<notin> set visiting then
        (case (case n of
                 0 \<Rightarrow> None
               | Suc m \<Rightarrow> path_to m g (owners_of g owner) tgt (path @ [owner]) (owner # visiting)) of
           Some cycle \<Rightarrow> Some cycle
         | None \<Rightarrow> path_to n g os tgt path visiting)
      else path_to n g os tgt path visiting)"

definition cycle_from :: "wait_for_graph \<Rightarrow> txid \<Rightarrow> txid list option" where
  "cycle_from g waiter =
     path_to (length (concat (map snd g))) g (owners_of g waiter) waiter [waiter] [waiter]"

definition clear_waiter :: "wait_for_graph \<Rightarrow> txid \<Rightarrow> wait_for_graph" where
  "clear_waiter g t = bt_remove cmp_lin t g"

definition register ::
  "wait_for_graph \<Rightarrow> txid \<Rightarrow> txid list \<Rightarrow> wait_for_graph \<times> (lock_error + unit)" where
  "register g waiter owners =
     (if owners = [] then (clear_waiter g waiter, Inr ())
      else
        let g' = bt_insert cmp_lin waiter owners g in
        (case cycle_from g' waiter of
           Some cycle \<Rightarrow> (bt_remove cmp_lin waiter g', Inl (Deadlock waiter cycle))
         | None \<Rightarrow> (g', Inr ())))"

definition remove_transaction :: "wait_for_graph \<Rightarrow> txid \<Rightarrow> wait_for_graph" where
  "remove_transaction g t =
     filter (\<lambda>(w, owners). owners \<noteq> [])
       (map (\<lambda>(w, owners). (w, filter (\<lambda>b. b \<noteq> t) owners)) (bt_remove cmp_lin t g))"

definition graph_edges :: "wait_for_graph \<Rightarrow> (txid \<times> txid) set" where
  "graph_edges g = {(w, b). b \<in> set (owners_of g w)}"

lemma path_to_sound:
  "path_to n g os tgt path visiting = Some c \<Longrightarrow> path \<noteq> [] \<Longrightarrow> set os \<subseteq> set (owners_of g (last path)) \<Longrightarrow>
   successively (\<lambda>x y. (x, y) \<in> graph_edges g) path \<Longrightarrow>
   successively (\<lambda>x y. (x, y) \<in> graph_edges g) c \<and> last c = tgt \<and> (\<exists>r. r \<noteq> [] \<and> c = path @ r)"
proof (induction n arbitrary: os path visiting rule: less_induct)
  case (less n)
  show ?case using less.prems
  proof (induction os)
    case (Cons owner os)
    have step: "successively (\<lambda>x y. (x, y) \<in> graph_edges g) (path @ [owner])"
      using Cons.prems by (auto simp: successively_append_iff graph_edges_def)
    show ?case
    proof (cases "owner = tgt")
      case True
      with Cons.prems(1) step show ?thesis by auto
    next
      case neq: False
      show ?thesis
      proof (cases "path_to n g os tgt path visiting = Some c")
        case True
        with Cons.IH Cons.prems show ?thesis by simp
      next
        case False
        with Cons.prems(1) neq have nv: "owner \<notin> set visiting" by (auto split: if_splits)
        with Cons.prems(1) neq False obtain m where m: "n = Suc m"
          "path_to m g (owners_of g owner) tgt (path @ [owner]) (owner # visiting) = Some c"
          by (auto split: nat.splits option.splits)
        from less.IH [OF _ m(2)] m(1) step show ?thesis by auto
      qed
    qed
  qed simp
qed

lemma trancl_simple_path:
  "(x, y) \<in> E\<^sup>+ \<Longrightarrow>
   \<exists>xs. successively (\<lambda>a b. (a, b) \<in> E) (x # xs @ [y]) \<and> distinct xs \<and> x \<notin> set xs \<and> y \<notin> set xs"
proof (induction rule: converse_trancl_induct)
  case (base x)
  then show ?case by (intro exI [of _ "[]"]) simp
next
  case (step x z)
  then obtain xs where xs: "successively (\<lambda>a b. (a, b) \<in> E) (z # xs @ [y])" "distinct xs" "z \<notin> set xs" "y \<notin> set xs"
    by blast
  consider "z = y" | "z \<noteq> y" "x \<notin> set (z # xs)" | "z \<noteq> y" "x \<in> set (z # xs)" by blast
  then show ?case
  proof cases
    case 1
    with step show ?thesis by (intro exI [of _ "[]"]) simp
  next
    case 2
    with xs step show ?thesis by (intro exI [of _ "z # xs"]) simp
  next
    case 3
    then obtain us vs where z: "z # xs = us @ x # vs" by (metis split_list)
    then have "successively (\<lambda>a b. (a, b) \<in> E) (us @ x # vs @ [y])" using xs(1) by (metis append_Cons append_assoc)
    then have "successively (\<lambda>a b. (a, b) \<in> E) (x # vs @ [y])" by (simp add: successively_append_iff)
    moreover have "distinct (us @ x # vs)" "y \<notin> set (us @ x # vs)" using xs 3 z by (metis distinct.simps(2) set_ConsD)+
    ultimately show ?thesis by (intro exI [of _ vs]) auto
  qed
qed

lemma path_to_complete:
  "v # vs = xs @ [tgt] \<Longrightarrow> v \<in> set os \<Longrightarrow> successively (\<lambda>a b. (a, b) \<in> graph_edges g) (v # vs) \<Longrightarrow>
   distinct xs \<Longrightarrow> set xs \<inter> set visiting = {} \<Longrightarrow> length xs \<le> n \<Longrightarrow>
   path_to n g os tgt path visiting \<noteq> None"
proof (induction n arbitrary: os path visiting v vs xs rule: less_induct)
  case (less n)
  show ?case using less.prems(2)
  proof (induction os)
    case (Cons owner os)
    show ?case
    proof (cases "owner = tgt")
      case neq: False
      show ?thesis
      proof (cases "v = owner")
        case True
        with less.prems(1) neq obtain xs' where xs: "xs = owner # xs'" "vs = xs' @ [tgt]" by (cases xs) auto
        then obtain u us where u: "xs' @ [tgt] = u # us" by (cases "xs' @ [tgt]") auto
        obtain m where m: "n = Suc m" using less.prems(6) xs by (cases n) auto
        have nv: "owner \<notin> set visiting" using less.prems(5) xs by auto
        have "path_to m g (owners_of g owner) tgt (path @ [owner]) (owner # visiting) \<noteq> None"
          by (rule less.IH [OF _ u [symmetric]])
            (use less.prems True xs u m in \<open>auto simp: graph_edges_def\<close>)
        with neq nv m show ?thesis by auto
      next
        case False
        with Cons have "path_to n g os tgt path visiting \<noteq> None" by simp
        with neq show ?thesis by (auto split: option.splits)
      qed
    qed simp
  qed simp
qed

lemma owners_subset: "set (owners_of g w) \<subseteq> set (concat (map snd g))"
proof (cases "bt_get cmp_lin w g")
  case (Some owners)
  then obtain k where "(k, owners) \<in> set g" using bt_get_SomeD by fastforce
  with Some show ?thesis by (force simp: owners_of_def)
qed (simp add: owners_of_def)

lemma cycle_from_spec:
  "case cycle_from g w of
     Some path \<Rightarrow> is_cycle (graph_edges g) w path
   | None \<Rightarrow> (w, w) \<notin> (graph_edges g)\<^sup>+"
proof (cases "cycle_from g w")
  case (Some c)
  have "successively (\<lambda>x y. (x, y) \<in> graph_edges g) c \<and> last c = w \<and> (\<exists>r. r \<noteq> [] \<and> c = [w] @ r)"
    by (rule path_to_sound [OF Some [unfolded cycle_from_def]]) simp_all
  then obtain r where c: "successively (\<lambda>x y. (x, y) \<in> graph_edges g) c" "last c = w" and r: "r \<noteq> []" "c = [w] @ r"
    by blast
  from r have "2 \<le> length c" "hd c = w" by (cases r; simp)+
  with c have "is_cycle (graph_edges g) w c" unfolding is_cycle_def by blast
  with Some show ?thesis by simp
next
  case None
  have "(w, w) \<notin> (graph_edges g)\<^sup>+"
  proof
    assume "(w, w) \<in> (graph_edges g)\<^sup>+"
    from trancl_simple_path [OF this] obtain xs where
      xs: "successively (\<lambda>a b. (a, b) \<in> graph_edges g) (w # xs @ [w])" "distinct xs" "w \<notin> set xs"
      by (elim exE conjE)
    obtain v vs where v: "xs @ [w] = v # vs" by (cases "xs @ [w]") auto
    have edge: "v \<in> set (owners_of g w)" "successively (\<lambda>a b. (a, b) \<in> graph_edges g) (v # vs)"
      using xs(1) unfolding v by (simp_all add: graph_edges_def)
    have "set xs \<subseteq> set (concat (map snd g))"
    proof
      fix x assume "x \<in> set xs"
      then obtain us ts where "xs = us @ x # ts" by (metis split_list)
      then have "successively (\<lambda>a b. (a, b) \<in> graph_edges g) ((w # us) @ (x # ts @ [w]))" using xs(1) by simp
      then have "(last (w # us), hd (x # ts @ [w])) \<in> graph_edges g"
        unfolding successively_append_iff by blast
      then have "x \<in> set (owners_of g (last (w # us)))" by (simp add: graph_edges_def)
      then show "x \<in> set (concat (map snd g))" using owners_subset by blast
    qed
    then have "card (set xs) \<le> card (set (concat (map snd g)))" by (intro card_mono) simp_all
    then have "length xs \<le> length (concat (map snd g))"
      using xs(2) card_length [of "concat (map snd g)"] by (simp add: distinct_card)
    moreover have "set xs \<inter> set [w] = {}" using xs(3) by simp
    ultimately have "path_to (length (concat (map snd g))) g (owners_of g w) w [w] [w] \<noteq> None"
      using path_to_complete [OF v [symmetric] edge xs(2)] by blast
    with None show False by (simp add: cycle_from_def)
  qed
  with None show ?thesis by simp
qed

text \<open>Replacing the edges out of one vertex keeps a graph acyclic unless the vertex is on a cycle.\<close>

lemma acyclic_redirect:
  assumes "acyclic E" "\<And>a b. (a, b) \<in> E' \<Longrightarrow> a \<noteq> w \<Longrightarrow> (a, b) \<in> E" "(w, w) \<notin> E'\<^sup>+"
  shows "acyclic E'"
proof (rule acyclicI, intro allI notI)
  fix x assume cycle: "(x, x) \<in> E'\<^sup>+"
  have "(x, y) \<in> E\<^sup>+ \<or> (x, w) \<in> E'\<^sup>* \<and> (w, y) \<in> E'\<^sup>+" if "(x, y) \<in> E'\<^sup>+" for y
    using that
  proof (induction rule: trancl_induct)
    case (base y)
    then show ?case using assms(2) by (cases "x = w") auto
  next
    case (step y z)
    then show ?case using assms(2) [of y z]
      by (cases "y = w") (auto intro: trancl_into_trancl trancl_into_rtrancl)
  qed
  from this [OF cycle] show False
    using assms(1,3) by (auto simp: acyclic_def dest: rtrancl_trancl_trancl trancl_rtrancl_trancl)
qed

lemma graph_edges_insert:
  "bt_sorted cmp_lin g \<Longrightarrow>
   graph_edges (bt_insert cmp_lin w owners g) = {(a, b) \<in> graph_edges g. a \<noteq> w} \<union> {w} \<times> set owners"
  by (auto simp: graph_edges_def owners_of_def lin_ord.bt_get_insert cmp_simps split: if_splits)

lemma graph_edges_remove:
  "bt_sorted cmp_lin g \<Longrightarrow> graph_edges (bt_remove cmp_lin w g) = {(a, b) \<in> graph_edges g. a \<noteq> w}"
  by (auto simp: graph_edges_def owners_of_def lin_ord.bt_get_remove cmp_simps split: if_splits)

lemma acyclic_mono: "acyclic E \<Longrightarrow> E' \<subseteq> E \<Longrightarrow> acyclic E'"
  by (auto simp: acyclic_def dest: trancl_mono)

lemma register_spec:
  assumes "bt_sorted cmp_lin g" "acyclic (graph_edges g)" "register g w owners = (g', res)"
  defines "rest \<equiv> {(a, b) \<in> graph_edges g. a \<noteq> w}"
  shows "bt_sorted cmp_lin g' \<and> acyclic (graph_edges g') \<and>
    (case res of
       Inr _ \<Rightarrow> graph_edges g' = rest \<union> {w} \<times> set owners
     | Inl e \<Rightarrow> graph_edges g' = rest \<and>
         (\<exists>path. e = Deadlock w path \<and> is_cycle (rest \<union> {w} \<times> set owners) w path))"
proof -
  let ?g = "bt_insert cmp_lin w owners g"
  have sorted: "bt_sorted cmp_lin ?g" using assms(1) by (rule lin_ord.bt_sorted_insert)
  have ins: "graph_edges ?g = rest \<union> {w} \<times> set owners" using assms(1) by (simp add: graph_edges_insert rest_def)
  have undo: "graph_edges (bt_remove cmp_lin w ?g) = rest"
    using sorted by (auto simp: graph_edges_remove ins rest_def)
  have acyc: "acyclic rest" by (rule acyclic_mono [OF assms(2)]) (auto simp: rest_def)
  show ?thesis
  proof (cases "owners = []")
    case True
    then have "g' = bt_remove cmp_lin w g" "res = Inr ()" using assms(3) by (simp_all add: register_def clear_waiter_def)
    moreover have "graph_edges (bt_remove cmp_lin w g) = rest" using assms(1) by (simp add: graph_edges_remove rest_def)
    ultimately show ?thesis using acyc True by (simp add: lin_ord.bt_sorted_remove [OF assms(1)])
  next
    case ne: False
    show ?thesis
    proof (cases "cycle_from ?g w")
      case None
      then have "(w, w) \<notin> (graph_edges ?g)\<^sup>+" using cycle_from_spec [where g = ?g and w = w] by simp
      then have "acyclic (graph_edges ?g)"
        by (rule acyclic_redirect [OF assms(2), rotated]) (auto simp: ins rest_def)
      moreover have "g' = ?g" "res = Inr ()" using None ne assms(3) by (simp_all add: register_def)
      ultimately show ?thesis using sorted ins by simp
    next
      case (Some c)
      then have "is_cycle (graph_edges ?g) w c" using cycle_from_spec [where g = ?g and w = w] by simp
      moreover have "g' = bt_remove cmp_lin w ?g" "res = Inl (Deadlock w c)"
        using Some ne assms(3) by (simp_all add: register_def)
      ultimately show ?thesis using undo acyc ins by (simp add: lin_ord.bt_sorted_remove [OF sorted])
    qed
  qed
qed

text \<open>Removing a transaction removes exactly the edges at it.\<close>

lemma bt_get_filter_map:
  "bt_sorted cmp_lin g \<Longrightarrow>
   owners_of (filter (\<lambda>(w, owners). owners \<noteq> []) (map (\<lambda>(w, owners). (w, filter P owners)) g)) w = filter P (owners_of g w)"
proof (induction g)
  case (Cons e g)
  obtain k owners where e: "e = (k, owners)" by (cases e)
  have absent: "bt_get cmp_lin w (filter (\<lambda>(w, owners). owners \<noteq> []) (map (\<lambda>(w, owners). (w, filter P owners)) g)) = None"
    if "w = k"
    using Cons.prems that by (auto simp: e bt_get_None_iff cmp_simps)
  show ?case
  proof (cases "w = k")
    case True
    with absent show ?thesis by (auto simp: e owners_of_def cmp_simps)
  next
    case False
    with Cons show ?thesis by (auto simp: e owners_of_def cmp_simps)
  qed
qed (simp add: owners_of_def)

lemma graph_edges_remove_transaction:
  assumes "bt_sorted cmp_lin g"
  shows "graph_edges (remove_transaction g t) = {(a, b) \<in> graph_edges g. a \<noteq> t \<and> b \<noteq> t}"
proof -
  have "owners_of (remove_transaction g t) w = filter (\<lambda>b. b \<noteq> t) (owners_of (bt_remove cmp_lin t g) w)" for w
    unfolding remove_transaction_def
    by (rule bt_get_filter_map) (rule lin_ord.bt_sorted_remove [OF assms])
  moreover have "b \<in> set (owners_of (bt_remove cmp_lin t g) w) \<longleftrightarrow> w \<noteq> t \<and> b \<in> set (owners_of g w)" for w b
    using graph_edges_remove [OF assms, of t] by (auto simp: graph_edges_def set_eq_iff)
  ultimately show ?thesis by (auto simp: graph_edges_def)
qed

section \<open>Properties\<close>

text \<open>
  C11: the deadlock check is exact. It succeeds precisely when the transaction is on no cycle of the
  waits-for relation, and when it fails the reported path is a cycle through the transaction; the
  walk along the parents never fails.
\<close>

theorem deadlock_check_exact:
  "(check_deadlock q t T = Inr () \<longleftrightarrow> (t, t) \<notin> (waits_for q T)\<^sup>+) \<and>
   (case check_deadlock q t T of
      Inl e \<Rightarrow> (\<exists>path. e = Deadlock t path \<and> is_cycle (waits_for q T) t path)
    | Inr _ \<Rightarrow> True)"
  using check_deadlock_spec [where q = q and t = t and T = T] is_cycle_trancl
  by (cases "check_deadlock q t T") auto

text \<open>
  C39: registering a waiter keeps the wait-for graph acyclic. On success the waiter's edges are
  exactly its owners; on a deadlock they are gone and the reported path is a cycle that the
  rejected edges would have closed. All other edges are kept.
\<close>

theorem register_keeps_acyclic:
  assumes "bt_sorted cmp_lin g" "acyclic (graph_edges g)" "register g w owners = (g', res)"
  defines "rest \<equiv> {(a, b) \<in> graph_edges g. a \<noteq> w}"
  shows "bt_sorted cmp_lin g' \<and> acyclic (graph_edges g') \<and>
    (case res of
       Inr _ \<Rightarrow> graph_edges g' = rest \<union> {w} \<times> set owners
     | Inl e \<Rightarrow> graph_edges g' = rest \<and>
         (\<exists>path. e = Deadlock w path \<and> is_cycle (rest \<union> {w} \<times> set owners) w path))"
  unfolding rest_def by (rule register_spec [OF assms(1-3)])

theorem register_keeps_acyclic_witness:
  "graph_edges (fst (register [(1, [2])] 2 [1])) = {(1, 2)} \<and> snd (register [(1, [2])] 2 [1]) = Inl (Deadlock 2 [2, 1, 2])"
proof -
  have e: "graph_edges [(1, [2])] = {(1, 2)}"
    by (auto simp: graph_edges_def owners_of_def cmp_simps split: if_splits)
  have r: "register [(1, [2])] 2 [1] = ([(1, [2])], Inl (Deadlock 2 [2, 1, 2]))"
    by (simp add: register_def cycle_from_def owners_of_def cmp_lin_def)
  have "bt_sorted cmp_lin [(1 :: txid, [2 :: txid])]" by simp
  from register_keeps_acyclic [OF this _ r] e r show ?thesis
    by (simp add: acyclic_def)
qed

end
