(* ===== verification/Lock_Manager.thy ===== *)
theory Lock_Manager
  imports Lock_Wait
begin

text \<open>
  The \<open>LockManager\<close> of \<open>src/api/concurrent/coordinator.rs\<close>: the lock table and the wait queue
  behind one mutex. Every critical section is one function on the pair; a waiting acquisition is a
  sequence of rounds between which other transactions take their own critical sections
  (\<open>Lock_Acquire\<close> puts the rounds together).

  \<open>lm_step L t\<close> is the transition relation of transaction \<open>t\<close> and \<open>lm_reachable\<close> the states
  it reaches. The invariant proved over it: no two transactions hold conflicting locks, the
  waits-for relation is acyclic, the queue holds one entry per transaction and is accounted for
  exactly, and every live savepoint is still covered.
\<close>

record lock_manager =
  lm_locks :: lock_table
  lm_waiters :: lock_wait_queue

definition default_lock_manager :: lock_manager where
  "default_lock_manager = \<lparr>lm_locks = default_lock_table, lm_waiters = default_wait_queue\<rparr>"

section \<open>Critical sections\<close>

text \<open>The request to wait for, or \<open>None\<close> when the transaction already holds what it needs.\<close>

definition acquire_start :: "lock_manager \<Rightarrow> txid \<Rightarrow> lock_request \<Rightarrow> lock_request option" where
  "acquire_start M t r =
     (if covers_all (lm_locks M) t [r] then None
      else
        let r' = normalized_request (lm_locks M) t r in
        if covers_all (lm_locks M) t [r'] then None else Some r')"

datatype round_outcome = Granted | Waiting | Aborted lock_error

definition acquire_round :: "layout \<Rightarrow> lock_manager \<Rightarrow> txid \<Rightarrow> lock_request \<Rightarrow> lock_manager \<times> round_outcome" where
  "acquire_round L M t r =
     (if all_blockers (lm_waiters M) (lm_locks M) t r = [] then
        let M' = M\<lparr>lm_waiters := wq_remove L (lm_waiters M) t\<rparr> in
        (case grant L (lm_locks M) t r of
           Inl e \<Rightarrow> (M', Aborted e)
         | Inr T \<Rightarrow> (M'\<lparr>lm_locks := T\<rparr>, Granted))
      else
        (case enqueue L (lm_waiters M) t r of
           Inl e \<Rightarrow> (M\<lparr>lm_waiters := wq_remove L (lm_waiters M) t\<rparr>, Aborted e)
         | Inr q \<Rightarrow>
             (case check_deadlock q t (lm_locks M) of
                Inl e \<Rightarrow> (M\<lparr>lm_waiters := wq_remove L q t\<rparr>, Aborted e)
              | Inr _ \<Rightarrow> (M\<lparr>lm_waiters := q\<rparr>, Waiting))))"

text \<open>Leaving the queue after a timeout or a poisoned wait.\<close>

definition withdraw :: "layout \<Rightarrow> lock_manager \<Rightarrow> txid \<Rightarrow> lock_manager" where
  "withdraw L M t = M\<lparr>lm_waiters := wq_remove L (lm_waiters M) t\<rparr>"

definition lm_release :: "layout \<Rightarrow> lock_manager \<Rightarrow> txid \<Rightarrow> lock_manager" where
  "lm_release L M t =
     M\<lparr>lm_locks := release_transaction L (lm_locks M) t, lm_waiters := wq_remove L (lm_waiters M) t\<rparr>"

definition lm_savepoint :: "lock_manager \<Rightarrow> txid \<Rightarrow> lock_request list" where
  "lm_savepoint M t = savepoint (lm_locks M) t"

definition lm_restore :: "layout \<Rightarrow> lock_manager \<Rightarrow> txid \<Rightarrow> lock_request list \<Rightarrow> lock_manager" where
  "lm_restore L M t requests =
     M\<lparr>lm_locks := restore_transaction L (lm_locks M) t requests,
       lm_waiters := wq_remove L (lm_waiters M) t\<rparr>"

section \<open>Transaction identifiers\<close>

definition allocate :: "u64 \<Rightarrow> (u64 \<times> u64) option" where
  "allocate next = (if unat next + 1 < 2 ^ 64 then Some (next, next + 1) else None)"

section \<open>All transactions together\<close>

text \<open>
  A state is the manager with the live savepoints, newest first. Rolling back to a savepoint
  discards the newer ones of its transaction. The bound on a restored table states that the
  estimated sizes of locks that exist at once fit the address space.
\<close>

type_synonym lm_state = "lock_manager \<times> (txid \<times> lock_request list) list"

inductive lm_step :: "layout \<Rightarrow> txid \<Rightarrow> lm_state \<Rightarrow> lm_state \<Rightarrow> bool" for L t where
  round: "acquire_start M t r = Some r' \<Longrightarrow> acquire_round L M t r' = (M', out) \<Longrightarrow>
    lm_step L t (M, sp) (M', sp)"
| withdraw: "lm_step L t (M, sp) (withdraw L M t, sp)"
| release: "lm_step L t (M, sp) (lm_release L M t, filter (\<lambda>s. fst s \<noteq> t) sp)"
| savepoint: "lm_step L t (M, sp) (M, (t, lm_savepoint M t) # sp)"
| restore: "sum_list (map (held_lock_estimated_bytes L) (locks (lm_locks (lm_restore L M t rs)))) \<le> usize_max \<Longrightarrow>
    lm_step L t (M, newer @ (t, rs) # older)
      (lm_restore L M t rs, filter (\<lambda>s. fst s \<noteq> t) newer @ (t, rs) # older)"

inductive lm_reachable :: "layout \<Rightarrow> lm_state \<Rightarrow> bool" for L where
  init: "lm_reachable L (default_lock_manager, [])"
| step: "lm_reachable L S \<Longrightarrow> lm_step L t S S' \<Longrightarrow> lm_reachable L S'"

section \<open>The wait queue\<close>

definition wq_ok :: "layout \<Rightarrow> lock_wait_queue \<Rightarrow> bool" where
  "wq_ok L q \<longleftrightarrow>
     distinct (map transaction_id (wq_requests q)) \<and>
     wq_bytes q = sum_list (map (held_lock_estimated_bytes L) (wq_requests q)) \<and>
     length (wq_requests q) \<le> max_entries (wq_limits q) \<and> wq_bytes q \<le> max_bytes (wq_limits q)"

lemma filter_absent: "t \<notin> transaction_id ` set ps \<Longrightarrow> filter (\<lambda>p. transaction_id p \<noteq> t) ps = ps"
  by (induction ps) auto

lemma remove_first_filter:
  "distinct (map transaction_id ps) \<Longrightarrow> remove_first t ps = filter (\<lambda>p. transaction_id p \<noteq> t) ps"
  by (induction ps) (auto simp: filter_absent)

lemma find_tx_None: "find (\<lambda>p. transaction_id p = t) ps = None \<longleftrightarrow> t \<notin> transaction_id ` set ps"
  by (auto simp: find_None_iff)

lemma find_tx_Some: "find (\<lambda>p. transaction_id p = t) ps = Some p \<Longrightarrow> t \<in> transaction_id ` set ps"
  by (induction ps) (auto split: if_splits)

lemma wq_remove_requests:
  assumes "distinct (map transaction_id (wq_requests q))"
  shows "wq_requests (wq_remove L q t) = filter (\<lambda>p. transaction_id p \<noteq> t) (wq_requests q)"
proof (cases "find (\<lambda>p. transaction_id p = t) (wq_requests q)")
  case None
  then have "t \<notin> transaction_id ` set (wq_requests q)" by (rule find_tx_None [THEN iffD1])
  with None show ?thesis by (simp add: wq_remove_def filter_absent)
next
  case (Some p)
  with assms show ?thesis by (simp add: wq_remove_def remove_first_filter)
qed

lemma wq_remove_limits [simp]: "wq_limits (wq_remove L q t) = wq_limits q"
  by (simp add: wq_remove_def split: option.splits)

lemma sum_list_remove_first:
  "find (\<lambda>p. transaction_id p = t) ps = Some p \<Longrightarrow>
   sum_list (map f ps) = f p + sum_list (map f (remove_first t ps))" for f :: "held_lock \<Rightarrow> nat"
  by (induction ps) (auto split: if_splits)

lemma wq_remove_ok [inv_intros]: "wq_ok L q \<Longrightarrow> wq_ok L (wq_remove L q t)"
proof -
  assume ok: "wq_ok L q"
  then have req: "wq_requests (wq_remove L q t) = filter (\<lambda>p. transaction_id p \<noteq> t) (wq_requests q)"
    by (simp add: wq_ok_def wq_remove_requests)
  have len: "length (filter (\<lambda>p. transaction_id p \<noteq> t) (wq_requests q)) \<le> length (wq_requests q)"
    by (rule length_filter_le)
  have bytes: "wq_bytes (wq_remove L q t) = sum_list (map (held_lock_estimated_bytes L) (wq_requests (wq_remove L q t)))"
  proof (cases "find (\<lambda>p. transaction_id p = t) (wq_requests q)")
    case (Some p)
    with sum_list_remove_first [OF Some, of "held_lock_estimated_bytes L"] ok show ?thesis
      by (simp add: wq_remove_def wq_ok_def)
  qed (use ok in \<open>simp add: wq_remove_def wq_ok_def\<close>)
  then have "wq_bytes (wq_remove L q t) \<le> wq_bytes q"
    using ok sum_list_filter_le [of "held_lock_estimated_bytes L" "\<lambda>p. transaction_id p \<noteq> t" "wq_requests q"]
    by (simp add: req wq_ok_def)
  moreover have "length (wq_requests (wq_remove L q t)) \<le> max_entries (wq_limits q)"
    unfolding req using ok by (intro order_trans [OF len]) (simp add: wq_ok_def)
  ultimately show ?thesis using ok bytes by (simp add: wq_ok_def req distinct_map_filter)
qed

lemma enqueue_cases:
  assumes "enqueue L q t r = Inr q'"
  shows "q' = q \<and> t \<in> transaction_id ` set (wq_requests q) \<or>
    t \<notin> transaction_id ` set (wq_requests q) \<and>
    wq_requests q' = wq_requests q @ [\<lparr>transaction_id = t, request = r\<rparr>] \<and> wq_limits q' = wq_limits q \<and>
    wq_bytes q' = sat_add (wq_bytes q) (lock_request_estimated_bytes L r) \<and>
    sat_add (length (wq_requests q)) 1 \<le> max_entries (wq_limits q) \<and> wq_bytes q' \<le> max_bytes (wq_limits q)"
proof (cases "find (\<lambda>p. transaction_id p = t) (wq_requests q)")
  case None
  then have new: "t \<notin> transaction_id ` set (wq_requests q)" by (rule find_tx_None [THEN iffD1])
  have "q' = q\<lparr>wq_requests := wq_requests q @ [\<lparr>transaction_id = t, request = r\<rparr>],
      wq_bytes := sat_add (wq_bytes q) (lock_request_estimated_bytes L r)\<rparr>"
    and "sat_add (length (wq_requests q)) 1 \<le> max_entries (wq_limits q)"
    and "sat_add (wq_bytes q) (lock_request_estimated_bytes L r) \<le> max_bytes (wq_limits q)"
    using assms None by (simp_all add: enqueue_def Let_def split: if_splits)
  with new show ?thesis by simp
next
  case (Some p)
  then have "t \<in> transaction_id ` set (wq_requests q)" by (rule find_tx_Some)
  with Some assms show ?thesis by (simp add: enqueue_def split: if_splits)
qed

lemma enqueue_ok [inv_intros]:
  assumes "wq_ok L q" "limits_ok (wq_limits q)" "enqueue L q t r = Inr q'"
  shows "wq_ok L q'"
proof (cases "t \<in> transaction_id ` set (wq_requests q)")
  case True
  then show ?thesis using enqueue_cases [OF assms(3)] assms(1) by simp
next
  case new: False
  then have q': "wq_requests q' = wq_requests q @ [\<lparr>transaction_id = t, request = r\<rparr>]" "wq_limits q' = wq_limits q"
    and b: "wq_bytes q' = sat_add (wq_bytes q) (lock_request_estimated_bytes L r)" "wq_bytes q' \<le> max_bytes (wq_limits q)"
    and n: "sat_add (length (wq_requests q)) 1 \<le> max_entries (wq_limits q)"
    using enqueue_cases [OF assms(3)] by simp_all
  have "wq_bytes q' = wq_bytes q + lock_request_estimated_bytes L r"
    unfolding b(1) by (rule sat_add_eq_if_le [OF b(2) [unfolded b(1)]]) (use assms(2) in \<open>simp add: limits_ok_def\<close>)
  moreover have "length (wq_requests q) + 1 \<le> max_entries (wq_limits q)"
    using n assms(2) by (simp add: limits_ok_def sat_add_le_iff)
  ultimately show ?thesis using assms(1) q' b(2) new by (simp add: wq_ok_def held_lock_estimated_bytes_def)
qed

section \<open>How each operation changes the waits-for relation\<close>

lemma pending_requests_iff:
  assumes "distinct (map transaction_id (wq_requests q))"
  shows "pending_requests q w = Some r \<longleftrightarrow> \<lparr>transaction_id = w, request = r\<rparr> \<in> set (wq_requests q)"
proof -
  have "distinct (map fst (rev (map (\<lambda>p. (transaction_id p, request p)) (wq_requests q))))"
    using assms by (simp add: rev_map [symmetric] comp_def)
  then have "pending_requests q w = Some r \<longleftrightarrow> (w, r) \<in> set (map (\<lambda>p. (transaction_id p, request p)) (wq_requests q))"
    unfolding pending_requests_map by (subst map_of_eq_Some_iff) simp_all
  also have "\<dots> \<longleftrightarrow> \<lparr>transaction_id = w, request = r\<rparr> \<in> set (wq_requests q)"
  proof
    assume "(w, r) \<in> set (map (\<lambda>p. (transaction_id p, request p)) (wq_requests q))"
    then obtain p :: held_lock where "p \<in> set (wq_requests q)" "w = transaction_id p" "r = request p" by auto
    moreover have "\<lparr>transaction_id = transaction_id p, request = request p\<rparr> = p" by (cases p) simp
    ultimately show "\<lparr>transaction_id = w, request = r\<rparr> \<in> set (wq_requests q)" by metis
  qed force
  finally show ?thesis .
qed

lemma waits_for_iff:
  "(w, b) \<in> waits_for q T \<longleftrightarrow>
   (\<exists>r. pending_requests q w = Some r \<and> (b \<in> set (lt_blockers T w r) \<or> b \<in> set (wq_blockers q w r)))"
  by (auto simp: waits_for_def set_all_blockers)

lemma set_wq_blockers:
  "b \<in> set (wq_blockers q t r) \<longleftrightarrow>
   (\<exists>p \<in> set (takeWhile (\<lambda>p. transaction_id p \<noteq> t) (wq_requests q)). transaction_id p = b \<and> requests_conflict (request p) r)"
  by (auto simp: wq_blockers_def set_bts_of_lin)

lemma takeWhile_filter_subset:
  "w \<noteq> t \<Longrightarrow> set (takeWhile (\<lambda>p. transaction_id p \<noteq> w) (filter (\<lambda>p. transaction_id p \<noteq> t) ps))
    \<subseteq> set (takeWhile (\<lambda>p. transaction_id p \<noteq> w) ps)"
  by (induction ps) auto

lemma waits_for_remove:
  assumes "distinct (map transaction_id (wq_requests q))"
  shows "waits_for (wq_remove L q t) T \<subseteq> waits_for q T"
    "pending_requests (wq_remove L q t) t = None"
proof -
  let ?q = "wq_remove L q t"
  note req = wq_remove_requests [OF assms, of L t]
  have dist: "distinct (map transaction_id (wq_requests ?q))" by (simp add: req assms distinct_map_filter)
  have pend: "pending_requests ?q w = Some r \<longleftrightarrow> w \<noteq> t \<and> pending_requests q w = Some r" for w r
    by (auto simp: pending_requests_iff [OF dist] pending_requests_iff [OF assms] req)
  then show "pending_requests ?q t = None" by (cases "pending_requests ?q t") simp_all
  show "waits_for ?q T \<subseteq> waits_for q T"
  proof
    fix e assume "e \<in> waits_for ?q T"
    moreover obtain w b where e: "e = (w, b)" by (cases e)
    ultimately obtain r where r: "w \<noteq> t" "pending_requests q w = Some r"
      "b \<in> set (lt_blockers T w r) \<or> b \<in> set (wq_blockers ?q w r)"
      using pend by (auto simp: waits_for_iff)
    moreover have "b \<in> set (wq_blockers ?q w r) \<Longrightarrow> b \<in> set (wq_blockers q w r)"
      using takeWhile_filter_subset [OF r(1), of "wq_requests q"] unfolding set_wq_blockers req by blast
    ultimately show "e \<in> waits_for q T" using e by (auto simp: waits_for_iff)
  qed
qed

lemma waits_for_enqueue:
  assumes "distinct (map transaction_id (wq_requests q))" "enqueue L q t r = Inr q'" "(a, b) \<in> waits_for q' T" "a \<noteq> t"
  shows "(a, b) \<in> waits_for q T"
proof (cases "t \<in> transaction_id ` set (wq_requests q)")
  case True
  with enqueue_cases [OF assms(2)] assms(3) show ?thesis by simp
next
  case False
  with enqueue_cases [OF assms(2)] have req: "wq_requests q' = wq_requests q @ [\<lparr>transaction_id = t, request = r\<rparr>]"
    by simp
  then have dist: "distinct (map transaction_id (wq_requests q'))" using False assms(1) by simp
  have pend: "pending_requests q' a = Some s \<longleftrightarrow> pending_requests q a = Some s" for s
    using assms(4) by (auto simp: pending_requests_iff [OF dist] pending_requests_iff [OF assms(1)] req)
  from assms(3) obtain s where s: "pending_requests q a = Some s"
    "b \<in> set (lt_blockers T a s) \<or> b \<in> set (wq_blockers q' a s)"
    using pend by (auto simp: waits_for_iff)
  then have "a \<in> transaction_id ` set (wq_requests q)" using pending_waiter by auto
  then obtain p where "p \<in> set (wq_requests q)" "\<not> transaction_id p \<noteq> a" by auto
  from takeWhile_append1 [of p _ "\<lambda>p. transaction_id p \<noteq> a", OF this]
  have "takeWhile (\<lambda>p. transaction_id p \<noteq> a) (wq_requests q') = takeWhile (\<lambda>p. transaction_id p \<noteq> a) (wq_requests q)"
    unfolding req .
  with s show ?thesis by (auto simp: waits_for_iff set_wq_blockers)
qed

text \<open>Blockers from the lock table, after each change of the table.\<close>

lemma lt_blockers_mono:
  assumes "\<And>h. h \<in> set (locks T') \<Longrightarrow> requests_conflict (request h) r \<Longrightarrow> transaction_id h \<noteq> w \<Longrightarrow>
      transaction_id h = x \<or> (\<exists>g \<in> set (locks T). transaction_id g = transaction_id h \<and> requests_conflict (request g) r)"
  shows "set (lt_blockers T' w r) \<subseteq> insert x (set (lt_blockers T w r))"
  unfolding set_lt_blockers [abs_def] subset_iff insert_iff using assms by metis

lemma lt_blockers_grant:
  assumes "grant L T t n = Inr T'"
  shows "set (lt_blockers T' w r) \<subseteq> insert t (set (lt_blockers T w r))"
proof (cases "held_covers T t n")
  case False
  show ?thesis
    by (rule lt_blockers_mono) (auto simp: grant_InrD(1) [OF assms False])
qed (use assms in \<open>auto simp: grant_held\<close>)

lemma lt_blockers_release: "set (lt_blockers (release_transaction L T t) w r) \<subseteq> set (lt_blockers T w r)"
  by (auto simp: set_lt_blockers locks_release)

lemma lt_blockers_restore:
  assumes "\<And>s. s \<in> set rs \<Longrightarrow> held_covers T t s"
  shows "set (lt_blockers (restore_transaction L T t rs) w r) \<subseteq> set (lt_blockers T w r)"
proof
  fix b assume "b \<in> set (lt_blockers (restore_transaction L T t rs) w r)"
  then obtain h where h: "h \<in> set (locks (restore_transaction L T t rs))" "transaction_id h = b" "b \<noteq> w"
    "requests_conflict (request h) r" by (auto simp: set_lt_blockers)
  show "b \<in> set (lt_blockers T w r)"
  proof (cases "h \<in> set (locks T)")
    case True
    with h show ?thesis by (auto simp: set_lt_blockers)
  next
    case False
    with h(1,2) have "request h \<in> set rs" "b = t" by (auto simp: locks_restore)
    with assms obtain g where "g \<in> set (locks T)" "transaction_id g = b" "request_covers (request g) (request h)"
      unfolding held_covers_def by blast
    with request_covers_conflict [OF _ h(4)] h(3) show ?thesis by (auto simp: set_lt_blockers)
  qed
qed

lemma waits_for_locks_mono:
  assumes "\<And>w r. set (lt_blockers T' w r) \<subseteq> set (lt_blockers T w r)"
  shows "waits_for q T' \<subseteq> waits_for q T"
  using assms by (auto simp: waits_for_iff) blast+

text \<open>A vertex without successors is on no cycle.\<close>

lemma acyclic_sink:
  assumes "acyclic E" "\<And>a b. (a, b) \<in> E' \<Longrightarrow> b \<noteq> x \<Longrightarrow> (a, b) \<in> E" "\<And>b. (x, b) \<notin> E'"
  shows "acyclic E'"
proof (rule acyclicI, intro allI notI)
  fix a assume cycle: "(a, a) \<in> E'\<^sup>+"
  have "b \<noteq> x \<Longrightarrow> (a, b) \<in> E\<^sup>+" if "(a, b) \<in> E'\<^sup>+" for b
    using that
  proof (induction rule: trancl_induct)
    case (base b)
    then show ?case using assms(2) by blast
  next
    case (step b c)
    then show ?case using assms(2,3) by (metis trancl.trancl_into_trancl)
  qed
  moreover have "a \<noteq> x" using cycle assms(3) by (metis tranclD)
  ultimately have "(a, a) \<in> E\<^sup>+" using cycle by blast
  with assms(1) show False by (simp add: acyclic_def)
qed

lemma acyclic_grant:
  assumes "acyclic (waits_for q T)" "grant L T t r = Inr T'" "pending_requests q t = None"
  shows "acyclic (waits_for q T')"
proof (rule acyclic_sink [OF assms(1), where x = t])
  show "(t, b) \<notin> waits_for q T'" for b using assms(3) by (simp add: waits_for_iff)
  show "(a, b) \<in> waits_for q T" if "(a, b) \<in> waits_for q T'" "b \<noteq> t" for a b
    using that lt_blockers_grant [OF assms(2)] by (auto simp: waits_for_iff)
qed

lemma acyclic_enqueue:
  assumes "acyclic (waits_for q T)" "distinct (map transaction_id (wq_requests q))" "enqueue L q t r = Inr q'"
    "check_deadlock q' t T = Inr u"
  shows "acyclic (waits_for q' T)"
proof (rule acyclic_redirect [OF assms(1), where w = t])
  show "(t, t) \<notin> (waits_for q' T)\<^sup>+" using check_deadlock_spec [where q = q' and t = t and T = T] assms(4) by simp
qed (rule waits_for_enqueue [OF assms(2,3)])

section \<open>The invariant of the manager\<close>

text \<open>Live savepoints are covered, and a newer one of a transaction covers its older ones.\<close>

definition saved_ok :: "lock_table \<Rightarrow> (txid \<times> lock_request list) list \<Rightarrow> bool" where
  "saved_ok T sp \<longleftrightarrow>
     (\<forall>s \<in> set sp. (\<forall>r \<in> set (snd s). held_covers T (fst s) r) \<and>
        narrow_bounded (escalation_entries_per_table (limits T))
          (map (\<lambda>r. \<lparr>transaction_id = fst s, request = r\<rparr>) (snd s))) \<and>
     sorted_wrt (\<lambda>s o'. fst s = fst o' \<longrightarrow> (\<forall>q \<in> set (snd o'). \<exists>r \<in> set (snd s). request_covers r q)) sp"

definition lm_inv :: "layout \<Rightarrow> lm_state \<Rightarrow> bool" where
  "lm_inv L S \<longleftrightarrow>
     (let T = lm_locks (fst S); q = lm_waiters (fst S) in
      lt_compatible T \<and> lt_accounted L T \<and> lt_escalated T \<and> limits T = default_limits \<and>
      wq_ok L q \<and> wq_limits q = default_limits \<and> acyclic (waits_for q T) \<and> saved_ok T (snd S))"

lemma default_limits_ok: "limits_ok default_limits"
  by (simp add: limits_ok_def default_limits_def usize_max_def)

lemma lm_invI:
  assumes "lt_compatible T" "lt_accounted L T" "lt_escalated T" "limits T = default_limits"
    "wq_ok L q" "wq_limits q = default_limits" "acyclic (waits_for q T)" "saved_ok T sp"
  shows "lm_inv L (\<lparr>lm_locks = T, lm_waiters = q\<rparr>, sp)"
  using assms by (simp add: lm_inv_def Let_def)

lemma lm_invD:
  assumes "lm_inv L (M, sp)"
  shows "lt_compatible (lm_locks M)" "lt_accounted L (lm_locks M)" "lt_escalated (lm_locks M)"
    "limits (lm_locks M) = default_limits" "wq_ok L (lm_waiters M)" "wq_limits (lm_waiters M) = default_limits"
    "acyclic (waits_for (lm_waiters M) (lm_locks M))" "saved_ok (lm_locks M) sp"
    "distinct (map transaction_id (wq_requests (lm_waiters M)))"
  using assms by (simp_all add: lm_inv_def Let_def, simp add: wq_ok_def)

lemma saved_ok_mono:
  "saved_ok T sp \<Longrightarrow> (\<And>t r. held_covers T t r \<Longrightarrow> held_covers T' t r) \<Longrightarrow> limits T' = limits T \<Longrightarrow> saved_ok T' sp"
  by (auto simp: saved_ok_def)

lemma lm_inv_init: "lm_inv L (default_lock_manager, [])"
  unfolding default_lock_manager_def
  by (rule lm_invI)
    (simp_all add: default_lock_table_def default_wait_queue_def lt_compatible_def lt_accounted_def
      lt_escalated_def narrow_bounded_def wq_ok_def saved_ok_def waits_for_def pending_requests_def acyclic_def)

lemma lm_inv_waiters:
  assumes "lm_inv L (M, sp)" "wq_ok L q" "wq_limits q = default_limits" "acyclic (waits_for q (lm_locks M))"
  shows "lm_inv L (M\<lparr>lm_waiters := q\<rparr>, sp)"
  using assms by (simp add: lm_inv_def Let_def)

lemma lm_inv_remove:
  assumes "lm_inv L (M, sp)"
  shows "lm_inv L (M\<lparr>lm_waiters := wq_remove L (lm_waiters M) t\<rparr>, sp)"
proof (rule lm_inv_waiters [OF assms])
  show "wq_ok L (wq_remove L (lm_waiters M) t)" by (rule wq_remove_ok [OF lm_invD(5) [OF assms]])
  show "wq_limits (wq_remove L (lm_waiters M) t) = default_limits" by (simp add: lm_invD [OF assms])
  show "acyclic (waits_for (wq_remove L (lm_waiters M) t) (lm_locks M))"
    by (rule acyclic_mono [OF lm_invD(7) [OF assms]]) (rule waits_for_remove [OF lm_invD(9) [OF assms]])
qed

lemma all_blockers_Nil:
  "all_blockers q T t r = [] \<longleftrightarrow> lt_blockers T t r = [] \<and> wq_blockers q t r = []"
  using set_all_blockers [of q T t r] by (metis Un_empty set_empty)

lemma lm_inv_grant:
  assumes inv: "lm_inv L (M, sp)" and start: "acquire_start M t r = Some n"
    and free: "lt_blockers (lm_locks M) t n = []" and g: "grant L (lm_locks M) t n = Inr T"
  shows "lm_inv L (M\<lparr>lm_waiters := wq_remove L (lm_waiters M) t, lm_locks := T\<rparr>, sp)"
proof -
  let ?q = "wq_remove L (lm_waiters M) t"
  note D = lm_invD [OF inv] and R = lm_invD [OF lm_inv_remove [OF inv, of t]]
  have lim: "limits_ok (limits (lm_locks M))" by (simp add: D(4) default_limits_ok)
  have n: "n = normalized_request (lm_locks M) t r"
    using start by (simp add: acquire_start_def Let_def split: if_splits)
  have "lt_escalated T" using grant_escalated [OF D(3) _ lim] g n by blast
  moreover have "acyclic (waits_for ?q T)"
    by (rule acyclic_grant [OF _ g waits_for_remove(2) [OF D(9)]]) (use R(7) in simp)
  moreover have "saved_ok T sp"
    by (rule saved_ok_mono [OF D(8) grant_keeps_coverage [OF g] grant_limits [OF g]])
  ultimately have "lm_inv L (\<lparr>lm_locks = T, lm_waiters = ?q\<rparr>, sp)"
    using D grant_compatible [OF D(1) g free] grant_accounted [OF D(2) g lim] grant_limits [OF g] R(5,6)
    by (intro lm_invI) simp_all
  then show ?thesis by (simp add: lm_inv_def)
qed

lemma lm_inv_round:
  assumes inv: "lm_inv L (M, sp)" and start: "acquire_start M t r = Some n" and rnd: "acquire_round L M t n = (M', out)"
  shows "lm_inv L (M', sp)"
proof (cases "all_blockers (lm_waiters M) (lm_locks M) t n = []")
  case True
  then have free: "lt_blockers (lm_locks M) t n = []" by (simp add: all_blockers_Nil)
  show ?thesis
  proof (cases "grant L (lm_locks M) t n")
    case (Inl e)
    with True rnd lm_inv_remove [OF inv, of t] show ?thesis by (auto simp: acquire_round_def Let_def)
  next
    case (Inr T)
    with True rnd lm_inv_grant [OF inv start free Inr] show ?thesis by (auto simp: acquire_round_def Let_def)
  qed
next
  case blocked: False
  show ?thesis
  proof (cases "enqueue L (lm_waiters M) t n")
    case (Inl e)
    with blocked rnd lm_inv_remove [OF inv, of t] show ?thesis by (auto simp: acquire_round_def)
  next
    case (Inr q)
    note D = lm_invD [OF inv]
    have lim: "limits_ok (wq_limits (lm_waiters M))" by (simp add: D(6) default_limits_ok)
    have q_ok: "wq_ok L q" by (rule enqueue_ok [OF D(5) lim Inr])
    have q_lim: "wq_limits q = default_limits" using enqueue_cases [OF Inr] D(6) by auto
    show ?thesis
    proof (cases "check_deadlock q t (lm_locks M)")
      case (Inl e)
      then have M': "M' = M\<lparr>lm_waiters := wq_remove L q t\<rparr>" using blocked Inr rnd by (simp add: acquire_round_def)
      have dist: "distinct (map transaction_id (wq_requests q))" using q_ok by (simp add: wq_ok_def)
      have "(a, b) \<in> waits_for (lm_waiters M) (lm_locks M)" if "(a, b) \<in> waits_for (wq_remove L q t) (lm_locks M)" for a b
      proof -
        have "a \<noteq> t" using that waits_for_remove(2) [OF dist, of L t] by (auto simp: waits_for_iff)
        with that waits_for_remove(1) [OF dist, of L t] show ?thesis by (blast intro: waits_for_enqueue [OF D(9) Inr])
      qed
      then have "acyclic (waits_for (wq_remove L q t) (lm_locks M))" by (intro acyclic_mono [OF D(7)]) auto
      then show ?thesis unfolding M' by (intro lm_inv_waiters [OF inv] wq_remove_ok q_ok) (simp_all add: q_lim)
    next
      case (Inr u)
      then have "acyclic (waits_for q (lm_locks M))"
        using acyclic_enqueue [OF D(7,9) \<open>enqueue L (lm_waiters M) t n = Inr q\<close>] by blast
      then show ?thesis
        using lm_inv_waiters [OF inv q_ok q_lim] blocked rnd Inr \<open>enqueue L (lm_waiters M) t n = Inr q\<close>
        by (simp add: acquire_round_def)
    qed
  qed
qed

lemma lm_inv_locks:
  assumes inv: "lm_inv L (M, sp)" and "lt_compatible T" "lt_accounted L T" "lt_escalated T"
    "limits T = default_limits" "\<And>w r. set (lt_blockers T w r) \<subseteq> set (lt_blockers (lm_locks M) w r)" "saved_ok T sp'"
  shows "lm_inv L (M\<lparr>lm_locks := T, lm_waiters := wq_remove L (lm_waiters M) t\<rparr>, sp')"
proof -
  note R = lm_invD [OF lm_inv_remove [OF inv, of t]]
  have "acyclic (waits_for (wq_remove L (lm_waiters M) t) T)"
    by (rule acyclic_mono [OF _ waits_for_locks_mono [OF assms(6)]]) (use R(7) in simp)
  with assms R(5,6) show ?thesis by (simp add: lm_inv_def Let_def)
qed

lemma saved_ok_filter: "saved_ok T sp \<Longrightarrow> saved_ok T (filter P sp)"
  by (auto simp: saved_ok_def sorted_wrt_filter)

lemma lm_inv_release:
  assumes "lm_inv L (M, sp)"
  shows "lm_inv L (lm_release L M t, filter (\<lambda>s. fst s \<noteq> t) sp)"
  unfolding lm_release_def
proof (rule lm_inv_locks [OF assms])
  note D = lm_invD [OF assms]
  show "lt_compatible (release_transaction L (lm_locks M) t)" by (rule release_compatible [OF D(1)])
  show "lt_accounted L (release_transaction L (lm_locks M) t)" by (rule release_accounted [OF D(2)])
  show "lt_escalated (release_transaction L (lm_locks M) t)" by (rule release_escalated [OF D(3)])
  show "limits (release_transaction L (lm_locks M) t) = default_limits" by (simp add: D(4))
  show "set (lt_blockers (release_transaction L (lm_locks M) t) w r) \<subseteq> set (lt_blockers (lm_locks M) w r)" for w r
    by (rule lt_blockers_release)
  show "saved_ok (release_transaction L (lm_locks M) t) (filter (\<lambda>s. fst s \<noteq> t) sp)"
    using D(8) by (auto simp: saved_ok_def restore_keeps_coverage sorted_wrt_filter)
qed

lemma saved_ok_savepoint:
  assumes "saved_ok T sp" "lt_escalated T"
  shows "saved_ok T ((t, savepoint T t) # sp)"
proof -
  have "\<exists>r \<in> set (savepoint T t). request_covers r q" if "s \<in> set sp" "fst s = t" "q \<in> set (snd s)" for s q
    using assms(1) that by (fastforce simp: saved_ok_def held_covers_def savepoint_def)
  with assms savepoint_covered show ?thesis
    by (auto simp: saved_ok_def savepoint_locks lt_escalated_def narrow_bounded_filter)
qed

lemma saved_ok_restore:
  assumes ok: "saved_ok T (newer @ (t, rs) # older)"
  shows "saved_ok (restore_transaction L T t rs) (filter (\<lambda>s. fst s \<noteq> t) newer @ (t, rs) # older)"
proof -
  let ?T = "restore_transaction L T t rs"
  have "held_covers ?T (fst s) q"
    if s: "s \<in> set (filter (\<lambda>s. fst s \<noteq> t) newer @ (t, rs) # older)" "q \<in> set (snd s)" for s q
  proof (cases "fst s = t")
    case False
    moreover have "held_covers T (fst s) q" using ok s by (auto simp: saved_ok_def)
    ultimately show ?thesis by (simp add: restore_keeps_coverage)
  next
    case True
    with s consider "s = (t, rs)" | "s \<in> set older" by auto
    then obtain r where "r \<in> set rs" "request_covers r q"
    proof cases
      case 1
      with s(2) that show thesis by (metis request_covers_refl snd_conv)
    next
      case 2
      with ok True s(2) have "\<exists>r \<in> set rs. request_covers r q" by (auto simp: saved_ok_def sorted_wrt_append)
      with that show thesis by blast
    qed
    with restore_covers [of r rs L T t] True show ?thesis
      by (auto simp: held_covers_def intro: request_covers_trans)
  qed
  with ok show ?thesis by (auto simp: saved_ok_def sorted_wrt_append sorted_wrt_filter)
qed

lemma lm_inv_restore:
  assumes inv: "lm_inv L (M, newer @ (t, rs) # older)"
    and fits: "sum_list (map (held_lock_estimated_bytes L) (locks (lm_locks (lm_restore L M t rs)))) \<le> usize_max"
  shows "lm_inv L (lm_restore L M t rs, filter (\<lambda>s. fst s \<noteq> t) newer @ (t, rs) # older)"
  unfolding lm_restore_def
proof (rule lm_inv_locks [OF inv])
  note D = lm_invD [OF inv]
  let ?T = "restore_transaction L (lm_locks M) t rs"
  have cov: "held_covers (lm_locks M) t r" if "r \<in> set rs" for r using D(8) that by (auto simp: saved_ok_def)
  show "lt_compatible ?T" by (rule restore_compatible [OF D(1) cov])
  have "estimated_bytes ?T = usize_sum (map (held_lock_estimated_bytes L) (locks ?T))"
    by (simp add: restore_transaction_def Let_def)
  moreover have "sum_list (map (held_lock_estimated_bytes L) (locks ?T)) \<le> usize_max"
    using fits by (simp add: lm_restore_def)
  ultimately show "lt_accounted L ?T" by (simp add: lt_accounted_def usize_sum_exact)
  show "lt_escalated ?T" using D(8) by (intro restore_escalated [OF D(3)]) (auto simp: saved_ok_def)
  show "limits ?T = default_limits" by (simp add: D(4))
  show "set (lt_blockers ?T w r) \<subseteq> set (lt_blockers (lm_locks M) w r)" for w r
    by (rule lt_blockers_restore [OF cov])
  show "saved_ok ?T (filter (\<lambda>s. fst s \<noteq> t) newer @ (t, rs) # older)" by (rule saved_ok_restore [OF D(8)])
qed

lemma lm_step_inv: "lm_step L t S S' \<Longrightarrow> lm_inv L S \<Longrightarrow> lm_inv L S'"
proof (induction rule: lm_step.induct)
  case (savepoint M sp)
  note D = lm_invD [OF savepoint]
  from savepoint saved_ok_savepoint [OF D(8,3), of t] show ?case by (simp add: lm_inv_def Let_def lm_savepoint_def)
next
  case (withdraw M sp)
  then show ?case unfolding withdraw_def by (rule lm_inv_remove)
qed (auto intro: lm_inv_round lm_inv_release lm_inv_restore)

lemma lm_reachable_inv: "lm_reachable L S \<Longrightarrow> lm_inv L S"
  by (induction rule: lm_reachable.induct) (auto intro: lm_inv_init lm_step_inv)

section \<open>One round\<close>

lemma held_covers_eq: "held_covers T t r \<Longrightarrow> request_covers r q \<Longrightarrow> held_covers T t q"
  by (auto simp: held_covers_def intro: request_covers_trans)

lemma acquire_round_locks:
  assumes "acquire_round L M t r = (M', out)"
  shows "lm_locks M' = lm_locks M \<or> grant L (lm_locks M) t r = Inr (lm_locks M')"
    "out = Granted \<Longrightarrow> grant L (lm_locks M) t r = Inr (lm_locks M')"
    "out = Granted \<Longrightarrow> all_blockers (lm_waiters M) (lm_locks M) t r = []"
  using assms by (auto simp: acquire_round_def Let_def split: if_splits sum.splits)

lemma acquire_start_covers:
  "acquire_start M t r = None \<Longrightarrow> held_covers (lm_locks M) t r"
  "acquire_start M t r = Some n \<Longrightarrow> request_covers n r"
  using normalized_covers [of "lm_locks M" t r] held_covers_eq [of "lm_locks M" t "normalized_request (lm_locks M) t r" r]
  by (auto simp: acquire_start_def covers_all_iff Let_def split: if_splits)

text \<open>A step of one transaction leaves the locks of every other one as they are.\<close>

lemma step_other_locks:
  assumes "lm_step L t (M, sp) (M', sp')" "u \<noteq> t"
  shows "filter (\<lambda>h. transaction_id h = u) (locks (lm_locks M')) = filter (\<lambda>h. transaction_id h = u) (locks (lm_locks M))"
  using assms(1)
proof cases
  case (round r r' out)
  from acquire_round_locks(1) [OF round(3)] show ?thesis
    by (elim disjE) (simp_all add: grant_other_locks [OF _ assms(2)])
next
  case release
  then show ?thesis using assms(2) by (auto simp: lm_release_def locks_release intro!: filter_cong)
next
  case (restore rs newer older)
  then show ?thesis
    using assms(2) by (auto simp: lm_restore_def locks_restore comp_def filter_map intro!: filter_cong)
qed (simp_all add: withdraw_def)

section \<open>Properties\<close>

text \<open>A concrete run for the witnesses: two readers, then a writer that has to wait.\<close>

definition demo_layout :: layout where
  "demo_layout = \<lparr>size_held_lock = 200, size_string = 24, size_relational_key = 24,
     size_relational_value = 40, size_overflow_ref = 64\<rparr>"

definition demo_request :: "lock_mode \<Rightarrow> lock_request" where
  "demo_request m = \<lparr>mode = m, target = GraphNode 7\<rparr>"

definition demo_readers :: lock_manager where
  "demo_readers =
     fst (acquire_round demo_layout
       (fst (acquire_round demo_layout default_lock_manager 1 (demo_request Shared))) 2 (demo_request Shared))"

definition demo_waiting :: lock_manager where
  "demo_waiting = fst (acquire_round demo_layout demo_readers 3 (demo_request Exclusive))"

lemma demo_bytes: "lock_request_estimated_bytes demo_layout (demo_request m) = 200"
  by (simp add: lock_request_estimated_bytes_def demo_layout_def demo_request_def sat_add_def usize_max_def)

lemma demo_sels [simp]: "mode (demo_request m) = m" "target (demo_request m) = GraphNode 7"
  by (simp_all add: demo_request_def)

lemmas demo_simps = demo_bytes acquire_start_def acquire_round_def covers_all_def
  mode_covers_def target_covers_def normalized_request_def all_blockers_def lt_blockers_def wq_blockers_def
  bts_of_def bts_insert_def wq_remove_def grant_def Let_def default_limits_def replaced_by_def usize_max_def
  sat_add_def held_lock_estimated_bytes_def requests_conflict_def
  modes_conflict_def targets_overlap_def default_lock_manager_def default_lock_table_def default_wait_queue_def
  enqueue_def cmp_lin_def check_deadlock_def pending_requests_def

lemma demo_readers_eq:
  "demo_readers =
     \<lparr>lm_locks = \<lparr>locks = [\<lparr>transaction_id = 1, request = demo_request Shared\<rparr>, \<lparr>transaction_id = 2, request = demo_request Shared\<rparr>],
        estimated_bytes = 400, limits = default_limits\<rparr>,
      lm_waiters = default_wait_queue\<rparr>"
  by (simp add: demo_readers_def demo_simps)

lemma demo_waiting_eq:
  "demo_waiting = demo_readers\<lparr>lm_waiters :=
     \<lparr>wq_requests = [\<lparr>transaction_id = 3, request = demo_request Exclusive\<rparr>], wq_bytes = 200, wq_limits = default_limits\<rparr>\<rparr>"
  by (simp add: demo_waiting_def demo_readers_eq demo_simps)

lemma demo_reachable:
  "lm_reachable demo_layout (demo_readers, [])" "lm_reachable demo_layout (demo_waiting, [])"
proof -
  let ?M = "fst (acquire_round demo_layout default_lock_manager 1 (demo_request Shared))"
  have 1: "lm_reachable demo_layout (?M, [])"
    by (rule lm_reachable.step [OF lm_reachable.init], rule lm_step.round [where t = 1 and r = "demo_request Shared" and r' = "demo_request Shared" and out = Granted])
      (simp_all add: demo_simps)
  show 2: "lm_reachable demo_layout (demo_readers, [])"
    by (rule lm_reachable.step [OF 1], rule lm_step.round [where t = 2 and r = "demo_request Shared" and r' = "demo_request Shared" and out = Granted])
      (simp_all add: demo_readers_def demo_simps)
  show "lm_reachable demo_layout (demo_waiting, [])"
    by (rule lm_reachable.step [OF 2], rule lm_step.round [where t = 3 and r = "demo_request Exclusive" and r' = "demo_request Exclusive" and out = Waiting])
      (simp_all add: demo_waiting_eq demo_readers_eq demo_simps)
qed

text \<open>
  C2: mutual exclusion. In every state any interleaving of transactions reaches, two transactions
  that hold locks on a common resource hold them in the same mode, and that mode is not exclusive.
\<close>

theorem exclusive_access:
  assumes "lm_reachable L (M, sp)" "h \<in> set (locks (lm_locks M))" "h' \<in> set (locks (lm_locks M))"
    and "transaction_id h \<noteq> transaction_id h'"
    and "resources (target (request h)) \<inter> resources (target (request h')) \<noteq> {}"
  shows "mode (request h) = mode (request h') \<and> mode (request h) \<noteq> Exclusive"
proof -
  have "\<not> requests_conflict (request h) (request h')"
    using lm_invD(1) [OF lm_reachable_inv [OF assms(1)]] assms(2-4) by (simp add: lt_compatible_def)
  with targets_overlap_complete [OF assms(5)] show ?thesis
    by (cases "mode (request h)"; cases "mode (request h')") (simp_all add: requests_conflict_def modes_conflict_def)
qed

theorem exclusive_access_witness:
  "map transaction_id (locks (lm_locks demo_readers)) = [1, 2] \<and>
   map (\<lambda>h. target (request h)) (locks (lm_locks demo_readers)) = [GraphNode 7, GraphNode 7] \<and>
   mode (request (locks (lm_locks demo_readers) ! 0)) = mode (request (locks (lm_locks demo_readers) ! 1)) \<and>
   mode (request (locks (lm_locks demo_readers) ! 0)) \<noteq> Exclusive"
proof -
  have "mode (request (locks (lm_locks demo_readers) ! 0)) = mode (request (locks (lm_locks demo_readers) ! 1)) \<and>
    mode (request (locks (lm_locks demo_readers) ! 0)) \<noteq> Exclusive"
    by (rule exclusive_access [OF demo_reachable(1)]) (simp_all add: demo_readers_eq)
  then show ?thesis by (simp add: demo_readers_eq)
qed

text \<open>
  C7: deadlock freedom. In every reachable state the waits-for relation of the queue is acyclic, and
  as long as somebody waits there is a waiter blocked by no other waiter, only by running
  transactions.
\<close>

theorem deadlock_freedom:
  assumes "lm_reachable L (M, sp)"
  defines "q \<equiv> lm_waiters M"
  shows "acyclic (waits_for q (lm_locks M)) \<and>
    (wq_requests q \<noteq> [] \<longrightarrow>
      (\<exists>p \<in> set (wq_requests q). \<forall>b. (transaction_id p, b) \<in> waits_for q (lm_locks M) \<longrightarrow>
         b \<notin> transaction_id ` set (wq_requests q)))"
proof -
  let ?W = "transaction_id ` set (wq_requests q)"
  let ?E = "waits_for q (lm_locks M) \<inter> ?W \<times> ?W"
  have acyc: "acyclic (waits_for q (lm_locks M))"
    using lm_invD(7) [OF lm_reachable_inv [OF assms(1)]] by (simp add: q_def)
  then have "acyclic ?E" by (rule acyclic_mono) blast
  moreover have "finite ?E" by simp
  ultimately have wf: "wf (?E\<inverse>)" by (rule finite_acyclic_wf_converse [rotated])
  have "\<exists>p \<in> set (wq_requests q). \<forall>b. (transaction_id p, b) \<in> waits_for q (lm_locks M) \<longrightarrow> b \<notin> ?W"
    if "wq_requests q \<noteq> []"
  proof -
    have "hd (map transaction_id (wq_requests q)) \<in> ?W" using that by (cases "wq_requests q") auto
    from wfE_min [OF wf this] obtain z where "z \<in> ?W" "\<And>y. (y, z) \<in> ?E\<inverse> \<Longrightarrow> y \<notin> ?W" by blast
    then show ?thesis by fastforce
  qed
  with acyc show ?thesis by blast
qed

theorem deadlock_freedom_witness:
  "acyclic (waits_for (lm_waiters demo_waiting) (lm_locks demo_waiting)) \<and> wq_requests (lm_waiters demo_waiting) \<noteq> []"
  using deadlock_freedom [OF demo_reachable(2)] by (simp add: demo_waiting_eq)

text \<open>
  C23: a round that grants a request has found no conflicting holder and no conflicting older waiter,
  so a newcomer never overtakes an older waiter it conflicts with; the transaction then holds a
  lock that covers the request.
\<close>

theorem grant_respects_queue:
  assumes "acquire_round L M t r = (M', Granted)"
  shows "held_covers (lm_locks M') t r \<and>
    (\<forall>h \<in> set (locks (lm_locks M)). transaction_id h \<noteq> t \<longrightarrow> \<not> requests_conflict (request h) r) \<and>
    (\<forall>p \<in> set (takeWhile (\<lambda>p. transaction_id p \<noteq> t) (wq_requests (lm_waiters M))). \<not> requests_conflict (request p) r)"
proof -
  have free: "lt_blockers (lm_locks M) t r = []" "wq_blockers (lm_waiters M) t r = []"
    using acquire_round_locks(3) [OF assms] by (simp_all add: all_blockers_Nil)
  have "\<not> requests_conflict (request h) r" if "h \<in> set (locks (lm_locks M))" "transaction_id h \<noteq> t" for h
    using free(1) set_lt_blockers [of "transaction_id h" "lm_locks M" t r] that by auto
  moreover have "\<not> requests_conflict (request p) r"
    if "p \<in> set (takeWhile (\<lambda>p. transaction_id p \<noteq> t) (wq_requests (lm_waiters M)))" for p
    using free(2) set_wq_blockers [of "transaction_id p" "lm_waiters M" t r] that by auto
  ultimately show ?thesis using grant_covers [OF acquire_round_locks(2) [OF assms]] by blast
qed

theorem grant_respects_queue_witness:
  "held_covers (lm_locks (fst (acquire_round demo_layout default_lock_manager 1 (demo_request Shared)))) 1 (demo_request Shared)"
  using grant_respects_queue [of demo_layout default_lock_manager 1 "demo_request Shared"
      "fst (acquire_round demo_layout default_lock_manager 1 (demo_request Shared))"]
  by (simp add: demo_simps)

text \<open>
  C38: no step of one transaction changes the locks another holds; only a grant of its own, its own
  release or its own rollback does.
\<close>

theorem step_keeps_other_locks:
  assumes "lm_step L t (M, sp) (M', sp')" "u \<noteq> t"
  shows "savepoint (lm_locks M') u = savepoint (lm_locks M) u"
  by (simp add: savepoint_def step_other_locks [OF assms])

theorem step_keeps_other_locks_witness:
  "savepoint (lm_locks (lm_release demo_layout demo_readers 1)) 2 = [demo_request Shared]"
  using step_keeps_other_locks [OF lm_step.release, of 2 1 demo_layout demo_readers]
  by (simp add: savepoint_def demo_readers_eq)

text \<open>
  C17: rolling back to a live savepoint gives the transaction exactly the locks it held when the
  savepoint was taken. Since these are still covered by what it holds, the table stays free of
  conflicts, even though other transactions were granted locks in between.
\<close>

theorem restore_is_sound:
  assumes "lm_reachable L (M, newer @ (t, rs) # older)"
  shows "savepoint (lm_locks (lm_restore L M t rs)) t = rs \<and> lt_compatible (lm_locks (lm_restore L M t rs)) \<and>
    covers_all (lm_locks M) t rs"
proof -
  note D = lm_invD [OF lm_reachable_inv [OF assms]]
  have cov: "held_covers (lm_locks M) t r" if "r \<in> set rs" for r using D(8) that by (auto simp: saved_ok_def)
  then show ?thesis
    using restore_compatible [OF D(1) cov] by (simp add: lm_restore_def savepoint_restore covers_all_iff)
qed

theorem restore_is_sound_witness:
  "savepoint (lm_locks (lm_restore demo_layout demo_readers 1 [demo_request Shared])) 1 = [demo_request Shared]"
  using restore_is_sound [where newer = "[]" and older = "[]", simplified,
      OF lm_reachable.step [OF demo_reachable(1) lm_step.savepoint [of demo_layout 1]]]
  by (simp add: lm_savepoint_def savepoint_def demo_readers_eq)

text \<open>
  C37: the memory accounting is exact and the bounds hold. In every reachable state the estimated
  bytes of the lock table are the sum over its locks, the queue holds at most one request per
  transaction within its entry and byte budgets, and no transaction holds more range locks on a
  table than the escalation limit.
\<close>

theorem lock_memory_accounted:
  assumes "lm_reachable L (M, sp)"
  shows "estimated_bytes (lm_locks M) = sum_list (map (held_lock_estimated_bytes L) (locks (lm_locks M))) \<and>
    wq_bytes (lm_waiters M) = sum_list (map (held_lock_estimated_bytes L) (wq_requests (lm_waiters M))) \<and>
    wq_bytes (lm_waiters M) \<le> 16 * 1024 * 1024 \<and> length (wq_requests (lm_waiters M)) \<le> 65536 \<and>
    distinct (map transaction_id (wq_requests (lm_waiters M))) \<and>
    length (filter (narrow_range t table) (locks (lm_locks M))) \<le> 64"
  using lm_invD [OF lm_reachable_inv [OF assms]]
  by (simp add: lt_accounted_def wq_ok_def lt_escalated_def narrow_bounded_def default_limits_def)

theorem lock_memory_accounted_witness:
  "estimated_bytes (lm_locks demo_waiting) = 400 \<and> wq_bytes (lm_waiters demo_waiting) \<le> 16 * 1024 * 1024"
  using lock_memory_accounted [OF demo_reachable(2)] by (simp add: demo_waiting_eq demo_readers_eq)

end
