(* ===== verification/Lock_Acquire.thy ===== *)
theory Lock_Acquire
  imports Lock_Manager
begin

text \<open>
  \<open>LockManager::acquire\<close> of \<open>src/api/concurrent/coordinator.rs\<close> as a whole: the requests are
  sorted and deduplicated, requests already covered are skipped, and every other one is tried,
  round after round, until it is granted, refused, or the wait ends.

  The condition variable releases the mutex while the thread sleeps. A \<open>wake\<close> is one return of
  the wait, with what the other transactions did to the manager in the meantime; an acquisition
  runs on the list of its wakes. The clock is in the wakes too: the timeout may have passed before
  the thread sleeps (\<open>Expired\<close>) or while it does (\<open>TimedOut\<close>).
\<close>

section \<open>The requests of one acquisition\<close>

primrec insert_by :: "('a \<Rightarrow> 'a \<Rightarrow> ordering) \<Rightarrow> 'a \<Rightarrow> 'a list \<Rightarrow> 'a list" where
  "insert_by c x [] = [x]"
| "insert_by c x (y # ys) = (if c x y \<noteq> Greater then x # y # ys else y # insert_by c x ys)"

text \<open>\<open>sort_by\<close> is stable, so its result is the one of any stable sort.\<close>

definition sort_by :: "('a \<Rightarrow> 'a \<Rightarrow> ordering) \<Rightarrow> 'a list \<Rightarrow> 'a list" where
  "sort_by c xs = foldr (insert_by c) xs []"

fun dedup_by :: "('a \<Rightarrow> 'a \<Rightarrow> bool) \<Rightarrow> 'a list \<Rightarrow> 'a list" where
  "dedup_by eq (x # y # ys) = (if eq x y then dedup_by eq (x # ys) else x # dedup_by eq (y # ys))"
| "dedup_by eq xs = xs"

definition unique_requests :: "lock_request list \<Rightarrow> lock_request list" where
  "unique_requests requests = dedup_by request_eq (sort_by acquisition_cmp requests)"

section \<open>Waiting\<close>

datatype wake =
    Expired
  | Woken "lm_state \<Rightarrow> lm_state"
  | TimedOut "lm_state \<Rightarrow> lm_state"
  | Poisoned "lm_state \<Rightarrow> lm_state"

text \<open>
  \<open>StillWaiting\<close> is an acquisition asleep after its last wake. The other outcomes are the results
  of \<open>acquire\<close>: a timeout is retryable, while an error of the manager (its value kept) or a mutex
  poisoned by a panicking thread aborts the transaction.
\<close>

datatype acquire_outcome =
    Acquired
  | StillWaiting
  | Retryable
  | AbortTransaction lock_error
  | AbortPoisoned

fun leave_queue :: "layout \<Rightarrow> txid \<Rightarrow> lm_state \<Rightarrow> lm_state" where
  "leave_queue L t (M, sp) = (withdraw L M t, sp)"

fun wait_loop ::
  "layout \<Rightarrow> txid \<Rightarrow> lock_request \<Rightarrow> wake list \<Rightarrow> lm_state \<Rightarrow> lm_state \<times> acquire_outcome \<times> wake list" where
  "wait_loop L t r wakes (M, sp) =
     (case acquire_round L M t r of
        (M', Granted) \<Rightarrow> ((M', sp), Acquired, wakes)
      | (M', Aborted e) \<Rightarrow> ((M', sp), AbortTransaction e, wakes)
      | (M', Waiting) \<Rightarrow>
          (case wakes of
             [] \<Rightarrow> ((M', sp), StillWaiting, [])
           | Expired # later \<Rightarrow> (leave_queue L t (M', sp), Retryable, later)
           | Poisoned others # later \<Rightarrow> (leave_queue L t (others (M', sp)), AbortPoisoned, later)
           | TimedOut others # later \<Rightarrow> (leave_queue L t (others (M', sp)), Retryable, later)
           | Woken others # later \<Rightarrow> wait_loop L t r later (others (M', sp))))"

fun acquire_loop ::
  "layout \<Rightarrow> txid \<Rightarrow> lock_request list \<Rightarrow> wake list \<Rightarrow> lm_state \<Rightarrow> lm_state \<times> acquire_outcome" where
  "acquire_loop L t [] wakes S = (S, Acquired)"
| "acquire_loop L t (r # rs) wakes S =
     (case acquire_start (fst S) t r of
        None \<Rightarrow> acquire_loop L t rs wakes S
      | Some r' \<Rightarrow>
          (case wait_loop L t r' wakes S of
             (S', Acquired, later) \<Rightarrow> acquire_loop L t rs later S'
           | (S', out, later) \<Rightarrow> (S', out)))"

text \<open>\<open>poisoned\<close> says whether the mutex is poisoned when the acquisition locks it first.\<close>

definition acquire ::
  "layout \<Rightarrow> txid \<Rightarrow> lock_request list \<Rightarrow> bool \<Rightarrow> wake list \<Rightarrow> lm_state \<Rightarrow> lm_state \<times> acquire_outcome" where
  "acquire L t requests poisoned wakes S =
     (if poisoned then (S, AbortPoisoned) else acquire_loop L t (unique_requests requests) wakes S)"

section \<open>What the others may do meanwhile\<close>

inductive others_run :: "layout \<Rightarrow> txid \<Rightarrow> lm_state \<Rightarrow> lm_state \<Rightarrow> bool" for L t where
  rest: "others_run L t S S"
| step: "others_run L t S S' \<Longrightarrow> lm_step L u S' S'' \<Longrightarrow> u \<noteq> t \<Longrightarrow> others_run L t S S''"

text \<open>Between sleeping and waking up, only other transactions take steps.\<close>

fun wake_by_others :: "layout \<Rightarrow> txid \<Rightarrow> wake \<Rightarrow> bool" where
  "wake_by_others L t Expired \<longleftrightarrow> True"
| "wake_by_others L t (Woken others) \<longleftrightarrow> (\<forall>S. lm_reachable L S \<longrightarrow> others_run L t S (others S))"
| "wake_by_others L t (TimedOut others) \<longleftrightarrow> (\<forall>S. lm_reachable L S \<longrightarrow> others_run L t S (others S))"
| "wake_by_others L t (Poisoned others) \<longleftrightarrow> (\<forall>S. lm_reachable L S \<longrightarrow> others_run L t S (others S))"

fun is_woken :: "wake \<Rightarrow> bool" where
  "is_woken (Woken _) \<longleftrightarrow> True"
| "is_woken _ \<longleftrightarrow> False"

definition own_locks :: "txid \<Rightarrow> lm_state \<Rightarrow> held_lock list" where
  "own_locks t S = filter (\<lambda>h. transaction_id h = t) (locks (lm_locks (fst S)))"

definition in_queue :: "txid \<Rightarrow> lock_wait_queue \<Rightarrow> bool" where
  "in_queue t q \<longleftrightarrow> t \<in> transaction_id ` set (wq_requests q)"

definition queued :: "txid \<Rightarrow> lm_state \<Rightarrow> bool" where
  "queued t S \<longleftrightarrow> in_queue t (lm_waiters (fst S))"

definition keeps_own :: "txid \<Rightarrow> lm_state \<Rightarrow> lm_state \<Rightarrow> bool" where
  "keeps_own t S S' \<longleftrightarrow> (\<forall>q. held_covers (lm_locks (fst S)) t q \<longrightarrow> held_covers (lm_locks (fst S')) t q)"

lemma keeps_own_refl [simp]: "keeps_own t S S"
  by (simp add: keeps_own_def)

lemma keeps_own_trans: "keeps_own t S S' \<Longrightarrow> keeps_own t S' S'' \<Longrightarrow> keeps_own t S S''"
  by (simp add: keeps_own_def)

lemma held_covers_own: "held_covers (lm_locks (fst S)) t q \<longleftrightarrow> (\<exists>h \<in> set (own_locks t S). request_covers (request h) q)"
  by (auto simp: held_covers_def own_locks_def)

lemma others_run_reachable: "others_run L t S S' \<Longrightarrow> lm_reachable L S \<Longrightarrow> lm_reachable L S'"
  by (induction rule: others_run.induct) (auto intro: lm_reachable.step)

lemma others_run_own: "others_run L t S S' \<Longrightarrow> own_locks t S' = own_locks t S"
proof (induction rule: others_run.induct)
  case (step S S' u S'')
  then show ?case
    using step_other_locks [of L u "fst S'" "snd S'" "fst S''" "snd S''" t] by (simp add: own_locks_def)
qed simp

lemma reachable_limits: "lm_reachable L S \<Longrightarrow> limits (lm_locks (fst S)) = default_limits"
  using lm_invD(4) [of L "fst S" "snd S"] lm_reachable_inv [of L S] by simp

text \<open>
  What a transaction waits for depends on its own locks only, so it is still the right request
  after the others moved.
\<close>

lemma acquire_start_own:
  assumes "own_locks t S' = own_locks t S" "limits (lm_locks (fst S')) = limits (lm_locks (fst S))"
  shows "acquire_start (fst S') t r = acquire_start (fst S) t r"
proof -
  have narrow: "filter (\<lambda>h. transaction_id h = t \<and> P h) (locks (lm_locks (fst S'))) =
      filter (\<lambda>h. transaction_id h = t \<and> P h) (locks (lm_locks (fst S)))" for P
    using arg_cong [OF assms(1), of "filter P"] by (simp add: own_locks_def conj_commute)
  have "normalized_request (lm_locks (fst S')) t r = normalized_request (lm_locks (fst S)) t r"
    unfolding normalized_request_def narrow_range_def [abs_def] narrow_adjacency_def [abs_def] narrow assms(2) by (rule refl)
  moreover have "covers_all (lm_locks (fst S')) t [q] = covers_all (lm_locks (fst S)) t [q]" for q
    by (simp add: covers_all_iff held_covers_own assms(1))
  ultimately show ?thesis by (simp add: acquire_start_def)
qed

section \<open>Rounds\<close>

lemma wq_remove_absent:
  "distinct (map transaction_id (wq_requests q)) \<Longrightarrow> \<not> in_queue t (wq_remove L q t)"
  by (auto simp: in_queue_def wq_remove_requests)

lemma enqueue_present: "enqueue L q t r = Inr q' \<Longrightarrow> in_queue t q'"
  by (drule enqueue_cases) (auto simp: in_queue_def)

lemma enqueue_distinct:
  "distinct (map transaction_id (wq_requests q)) \<Longrightarrow> enqueue L q t r = Inr q' \<Longrightarrow> distinct (map transaction_id (wq_requests q'))"
  by (drule enqueue_cases) auto

lemma acquire_round_queue:
  assumes "acquire_round L M t r = (M', out)" "distinct (map transaction_id (wq_requests (lm_waiters M)))"
  shows "out = Waiting \<longleftrightarrow> in_queue t (lm_waiters M')"
  using assms(1)
  by (auto simp: acquire_round_def Let_def wq_remove_absent [OF assms(2)] enqueue_present
      wq_remove_absent [OF enqueue_distinct [OF assms(2)]] split: if_splits sum.splits)

lemma acquire_round_waiting:
  "acquire_round L M t r = (M', Waiting) \<Longrightarrow> lm_locks M' = lm_locks M"
  by (auto simp: acquire_round_def Let_def split: if_splits sum.splits)

text \<open>A round is a step of its transaction, which keeps its own locks.\<close>

lemma round_step:
  assumes "lm_reachable L (M, sp)" "acquire_start M t r = Some n" "acquire_round L M t n = (M', out)"
  shows "lm_reachable L (M', sp)" "keeps_own t (M, sp) (M', sp)" "out = Waiting \<longleftrightarrow> queued t (M', sp)"
    "out = Granted \<Longrightarrow> held_covers (lm_locks M') t n"
proof -
  show "lm_reachable L (M', sp)" by (rule lm_reachable.step [OF assms(1) lm_step.round [OF assms(2,3)]])
  show "keeps_own t (M, sp) (M', sp)"
    using acquire_round_locks(1) [OF assms(3)] grant_keeps_coverage by (auto simp: keeps_own_def)
  show "out = Waiting \<longleftrightarrow> queued t (M', sp)"
    using acquire_round_queue [OF assms(3) lm_invD(9) [OF lm_reachable_inv [OF assms(1)]]] by (simp add: queued_def)
  show "held_covers (lm_locks M') t n" if "out = Granted"
    by (rule grant_covers [OF acquire_round_locks(2) [OF assms(3) that]])
qed

lemma leave_step:
  assumes "lm_reachable L S"
  shows "lm_reachable L (leave_queue L t S)" "keeps_own t S (leave_queue L t S)" "\<not> queued t (leave_queue L t S)"
proof -
  obtain M sp where S: "S = (M, sp)" by (cases S)
  show "lm_reachable L (leave_queue L t S)" unfolding S leave_queue.simps
    by (rule lm_reachable.step [OF assms [unfolded S] lm_step.withdraw])
  show "keeps_own t S (leave_queue L t S)" by (simp add: S keeps_own_def withdraw_def)
  show "\<not> queued t (leave_queue L t S)"
    using wq_remove_absent [OF lm_invD(9) [OF lm_reachable_inv [OF assms [unfolded S]]], of t L]
    by (simp add: S queued_def withdraw_def)
qed

lemma others_step:
  assumes "lm_reachable L S" "others_run L t S S'"
  shows "lm_reachable L S'" "keeps_own t S S'" "acquire_start (fst S') t r = acquire_start (fst S) t r"
proof -
  note own = others_run_own [OF assms(2)]
  show reach: "lm_reachable L S'" by (rule others_run_reachable [OF assms(2,1)])
  show "keeps_own t S S'" by (simp add: keeps_own_def held_covers_own own)
  show "acquire_start (fst S') t r = acquire_start (fst S) t r"
    by (rule acquire_start_own [OF own]) (simp add: reachable_limits [OF reach] reachable_limits [OF assms(1)])
qed

section \<open>The wait loop\<close>

text \<open>What an acquisition promises of the state it stops in, however it stops.\<close>

definition stopped_ok :: "layout \<Rightarrow> txid \<Rightarrow> lm_state \<Rightarrow> wake list \<Rightarrow> lm_state \<Rightarrow> acquire_outcome \<Rightarrow> bool" where
  "stopped_ok L t S wakes S' out \<longleftrightarrow>
     lm_reachable L S' \<and> keeps_own t S S' \<and> (out = StillWaiting \<longleftrightarrow> queued t S') \<and>
     (out = StillWaiting \<longrightarrow> list_all is_woken wakes) \<and>
     (wakes = [] \<longrightarrow> (\<forall>u. u \<noteq> t \<longrightarrow> own_locks u S' = own_locks u S))"

lemma stopped_ok_woken:
  "keeps_own t S S1 \<Longrightarrow> stopped_ok L t S1 wakes S' out \<Longrightarrow> stopped_ok L t S (Woken f # wakes) S' out"
  by (auto simp: stopped_ok_def intro: keeps_own_trans)

lemma stopped_ok_left:
  "lm_reachable L S1 \<Longrightarrow> keeps_own t S S1 \<Longrightarrow> out \<noteq> StillWaiting \<Longrightarrow> stopped_ok L t S (w # wakes) (leave_queue L t S1) out"
  using leave_step [of L S1 t] by (auto simp: stopped_ok_def intro: keeps_own_trans)

lemma stopped_ok_trans:
  "stopped_ok L t S (used @ later) S1 Acquired \<Longrightarrow> list_all is_woken used \<Longrightarrow> stopped_ok L t S1 later S' out \<Longrightarrow>
   stopped_ok L t S (used @ later) S' out"
  by (auto simp: stopped_ok_def intro: keeps_own_trans)

lemma round_stopped:
  assumes "lm_reachable L (M, sp)" "acquire_start M t r = Some n" "acquire_round L M t n = (M', res)"
    and "out = StillWaiting \<longleftrightarrow> res = Waiting" "out = StillWaiting \<Longrightarrow> wakes = []"
  shows "stopped_ok L t (M, sp) wakes (M', sp) out"
proof -
  note R = round_step [OF assms(1-3)]
  have "own_locks u (M', sp) = own_locks u (M, sp)" if "u \<noteq> t" for u
    using step_other_locks [OF lm_step.round [OF assms(2,3)] that] by (simp add: own_locks_def)
  with R(1-3) assms(4,5) show ?thesis by (auto simp: stopped_ok_def)
qed

text \<open>After a round that has to wait, the others move, and the request is still the one to wait for.\<close>

lemma wait_moved:
  assumes "lm_reachable L (M, sp)" "acquire_start M t r = Some n" "acquire_round L M t n = (M', Waiting)"
    and "others_run L t (M', sp) S1"
  shows "lm_reachable L S1" "keeps_own t (M, sp) S1" "acquire_start (fst S1) t r = Some n"
proof -
  note R = round_step(1,2) [OF assms(1-3)] and O = others_step(1,2) [OF round_step(1) [OF assms(1-3)] assms(4)]
  show "lm_reachable L S1" by (rule O(1))
  show "keeps_own t (M, sp) S1" by (rule keeps_own_trans [OF R(2) O(2)])
  have "acquire_start M' t r = Some n"
    using acquire_start_own [of t "(M', sp)" "(M, sp)" r] acquire_round_waiting [OF assms(3)] assms(2)
    by (simp add: own_locks_def)
  then show "acquire_start (fst S1) t r = Some n" using others_step(3) [OF R(1) assms(4), of r] by simp
qed

definition wait_ok ::
  "layout \<Rightarrow> txid \<Rightarrow> lock_request \<Rightarrow> lm_state \<Rightarrow> wake list \<Rightarrow> lm_state \<times> acquire_outcome \<times> wake list \<Rightarrow> bool" where
  "wait_ok L t n S wakes res \<longleftrightarrow>
     (case res of (S', out, later) \<Rightarrow>
        stopped_ok L t S wakes S' out \<and>
        (out = Acquired \<longrightarrow> held_covers (lm_locks (fst S')) t n \<and> (\<exists>used. wakes = used @ later \<and> list_all is_woken used)))"

lemma wait_ok_decided:
  assumes "lm_reachable L (M, sp)" "acquire_start M t r = Some n" "acquire_round L M t n = (M', res)"
    and "res = Waiting \<Longrightarrow> wakes = []"
  shows "wait_ok L t n (M, sp) wakes (wait_loop L t n wakes (M, sp))"
  using round_stopped [OF assms(1-3)] round_step(4) [OF assms(1-3)] assms(3,4)
  by (cases res) (simp_all add: wait_ok_def)

lemma wait_ok_woken:
  assumes "keeps_own t S S1" "wait_ok L t n S1 wakes res"
  shows "wait_ok L t n S (Woken f # wakes) res"
proof -
  obtain S' out later where res: "res = (S', out, later)" by (cases res)
  have "\<exists>used'. Woken f # wakes = used' @ later \<and> list_all is_woken used'" if "wakes = used @ later" "list_all is_woken used" for used
    using that by (intro exI [of _ "Woken f # used"]) simp
  with assms stopped_ok_woken [OF assms(1)] show ?thesis unfolding wait_ok_def res prod.case by blast
qed

lemma wait_loop_ok:
  assumes "lm_reachable L S" "acquire_start (fst S) t r = Some n" "list_all (wake_by_others L t) wakes"
  shows "wait_ok L t n S wakes (wait_loop L t n wakes S)"
  using assms
proof (induction wakes arbitrary: S)
  case Nil
  then show ?case using wait_ok_decided [of L "fst S" "snd S" t r n _ _ "[]"] by (cases S; cases "acquire_round L (fst S) t n") simp
next
  case (Cons w wakes)
  obtain M sp where S: "S = (M, sp)" by (cases S)
  obtain M' res where rnd: "acquire_round L M t n = (M', res)" by (cases "acquire_round L M t n")
  note start = Cons.prems(1,2) [unfolded S fst_conv]
  show ?case
  proof (cases "res = Waiting")
    case False
    then show ?thesis unfolding S by (intro wait_ok_decided [OF start rnd]) simp
  next
    case True
    note rnd = rnd [unfolded True]
    note reach = round_step(1) [OF start rnd] and moved = wait_moved [OF start rnd]
    have left: "wait_ok L t n S (w # wakes) (leave_queue L t S1, out, wakes)"
      if "lm_reachable L S1" "keeps_own t S S1" "out \<noteq> StillWaiting" "out \<noteq> Acquired" for S1 out
      using stopped_ok_left [OF that(1-3)] that(4) by (simp add: wait_ok_def)
    show ?thesis
    proof (cases w)
      case Expired
      with left [OF reach round_step(2) [OF start rnd, folded S], of Retryable] rnd show ?thesis by (simp add: S)
    next
      case (Woken f)
      with Cons.prems(3) reach have "others_run L t (M', sp) (f (M', sp))" by simp
      note moved = moved [OF this]
      from Cons.IH [OF moved(1,3)] Cons.prems(3) have "wait_ok L t n (f (M', sp)) wakes (wait_loop L t n wakes (f (M', sp)))"
        by simp
      with wait_ok_woken [OF moved(2)] rnd Woken show ?thesis by (simp add: S)
    next
      case (TimedOut f)
      with Cons.prems(3) reach have "others_run L t (M', sp) (f (M', sp))" by simp
      with left [OF moved(1) moved(2) [folded S], of _ Retryable] rnd TimedOut show ?thesis by (simp add: S)
    next
      case (Poisoned f)
      with Cons.prems(3) reach have "others_run L t (M', sp) (f (M', sp))" by simp
      with left [OF moved(1) moved(2) [folded S], of _ AbortPoisoned] rnd Poisoned show ?thesis by (simp add: S)
    qed
  qed
qed

lemma acquire_loop_ok:
  assumes "lm_reachable L S" "\<not> queued t S" "list_all (wake_by_others L t) wakes"
    and "acquire_loop L t rs wakes S = (S', out)"
  shows "stopped_ok L t S wakes S' out \<and> (out = Acquired \<longrightarrow> (\<forall>r \<in> set rs. held_covers (lm_locks (fst S')) t r))"
  using assms
proof (induction rs arbitrary: S wakes)
  case Nil
  then show ?case by (simp add: stopped_ok_def)
next
  case (Cons r rs)
  show ?case
  proof (cases "acquire_start (fst S) t r")
    case None
    with Cons have ih: "stopped_ok L t S wakes S' out" "out = Acquired \<longrightarrow> (\<forall>r \<in> set rs. held_covers (lm_locks (fst S')) t r)"
      by simp_all
    with acquire_start_covers(1) [OF None] show ?thesis by (simp add: stopped_ok_def keeps_own_def)
  next
    case (Some n)
    obtain S1 res later where w: "wait_loop L t n wakes S = (S1, res, later)" by (cases "wait_loop L t n wakes S") auto
    note W = wait_loop_ok [OF Cons.prems(1) Some Cons.prems(3), unfolded w wait_ok_def prod.case]
    show ?thesis
    proof (cases "res = Acquired")
      case False
      with Cons.prems(4) Some w W show ?thesis by (cases res) auto
    next
      case True
      with W obtain used where u: "wakes = used @ later" "list_all is_woken used" by blast
      have S1: "lm_reachable L S1" "\<not> queued t S1" using W True by (simp_all add: stopped_ok_def)
      have "acquire_loop L t rs later S1 = (S', out)" using Cons.prems(4) Some w True by simp
      from Cons.IH [OF S1 _ this] Cons.prems(3) u(1) have ih: "stopped_ok L t S1 later S' out"
        "out = Acquired \<longrightarrow> (\<forall>r \<in> set rs. held_covers (lm_locks (fst S')) t r)" by simp_all
      have "held_covers (lm_locks (fst S1)) t r"
        using held_covers_eq W True acquire_start_covers(2) [OF Some] by blast
      then have "held_covers (lm_locks (fst S')) t r" using ih(1) by (simp add: stopped_ok_def keeps_own_def)
      with ih stopped_ok_trans [OF _ u(2) ih(1)] W True u(1) show ?thesis by simp
    qed
  qed
qed

section \<open>Requests, sorted and without repetitions\<close>

lemma set_insert_by: "set (insert_by c x ys) = insert x (set ys)"
  by (induction ys) auto

lemma set_sort_by: "set (sort_by c xs) = set xs"
  unfolding sort_by_def by (induction xs) (auto simp: set_insert_by)

lemma dedup_by_represents:
  assumes trans: "\<And>x y z. eq x y \<Longrightarrow> eq y z \<Longrightarrow> eq x z" and refl: "\<And>x. eq x x"
  shows "x \<in> set xs \<Longrightarrow> \<exists>y \<in> set (dedup_by eq xs). eq y x"
proof (induction "length xs" arbitrary: xs x rule: less_induct)
  case less
  show ?case
  proof (cases "\<exists>a b ys. xs = a # b # ys")
    case True
    then obtain a b ys where Two: "xs = a # b # ys" by blast
    have ih: "z \<in> set zs \<Longrightarrow> \<exists>y \<in> set (dedup_by eq zs). eq y z" if "length zs < length xs" for z zs
      by (rule less.hyps [OF that])
    show ?thesis
    proof (cases "eq a b")
      case True
      with less.prems Two consider "x \<in> set (a # ys)" | "x = b" by auto
      then show ?thesis
      proof cases
        case 1
        with ih [of "a # ys" x] True Two show ?thesis by simp
      next
        case 2
        obtain y where "y \<in> set (dedup_by eq (a # ys))" "eq y a" using ih [of "a # ys" a] Two by auto
        with 2 True Two trans [of y a b] show ?thesis by auto
      qed
    next
      case False
      with ih [of "b # ys" x] less.prems Two refl show ?thesis by auto
    qed
  next
    case False
    then have "dedup_by eq xs = xs" by (cases "(eq, xs)" rule: dedup_by.cases) auto
    with less.prems refl show ?thesis by auto
  qed
qed

text \<open>Equal requests cover one another.\<close>

lemma bound_eq_covers:
  "bound_eq key_eq l r \<Longrightarrow> lower_bound_covers key_cmp l r" "bound_eq key_eq l r \<Longrightarrow> upper_bound_covers key_cmp l r"
  by (cases l; cases r; simp add: bound_eq_def lower_bound_covers_def upper_bound_covers_def key_cmp_Equal [symmetric])+

lemma target_eq_covers: "target_eq a b \<Longrightarrow> target_covers a b"
  using target_covers_refl [of a]
  by (cases a; cases b) (auto simp: target_eq_def target_covers_def intro: bound_eq_covers)

lemma request_eq_covers: "request_eq a b \<Longrightarrow> request_covers a b"
  by (simp add: request_eq_def request_covers_def mode_covers_def target_eq_covers)

lemma request_eq_equiv: "request_eq r r" "request_eq a b \<Longrightarrow> request_eq b c \<Longrightarrow> request_eq a c"
  using acquisition_ord.cmp_Equal_trans [of a b c] acquisition_ord.cmp_refl [of r]
  by (simp_all add: acquisition_cmp_Equal)

lemma set_unique_requests:
  "r \<in> set requests \<Longrightarrow> \<exists>r' \<in> set (unique_requests requests). request_covers r' r"
  using dedup_by_represents [of request_eq r "sort_by acquisition_cmp requests"] request_eq_equiv request_eq_covers
  unfolding unique_requests_def set_sort_by by blast

section \<open>Properties\<close>

text \<open>A writer that waits for the two readers of the run above, until both have released their locks.\<close>

definition demo_release :: "txid \<Rightarrow> lm_state \<Rightarrow> lm_state" where
  "demo_release u S = (lm_release demo_layout (fst S) u, filter (\<lambda>s. fst s \<noteq> u) (snd S))"

lemma demo_release_by_others: "u \<noteq> t \<Longrightarrow> wake_by_others demo_layout t (Woken (demo_release u))"
  by (auto simp: demo_release_def intro!: others_run.step [OF others_run.rest] lm_step.release)

text \<open>
  C22: \<open>acquire\<close>, with all its waits. While it sleeps other transactions take any steps, and it
  may be woken any number of times, spuriously too. It stops in a reachable state, with no lock
  lost that the transaction held before. If it succeeds, the transaction holds locks that cover
  every request it was given, in whatever order and with whatever repetitions they came. On every
  exit, timeouts, refusals and a poisoned mutex included, the transaction has left the queue; only
  an acquisition that is still asleep is in it, and one whose wait timed out is not asleep. An
  acquisition that never wakes up from a wait leaves the locks of all others alone.
\<close>

theorem acquire_covers_requests:
  assumes "lm_reachable L S" "\<not> queued t S" "list_all (wake_by_others L t) wakes"
    and "acquire L t requests poisoned wakes S = (S', out)"
  shows "lm_reachable L S' \<and>
    (out = Acquired \<longrightarrow> covers_all (lm_locks (fst S')) t requests) \<and>
    (\<forall>q. held_covers (lm_locks (fst S)) t q \<longrightarrow> held_covers (lm_locks (fst S')) t q) \<and>
    (out = StillWaiting \<longleftrightarrow> queued t S') \<and> (out = StillWaiting \<longrightarrow> list_all is_woken wakes) \<and>
    (wakes = [] \<longrightarrow> (\<forall>u. u \<noteq> t \<longrightarrow> own_locks u S' = own_locks u S))"
proof (cases poisoned)
  case True
  with assms show ?thesis by (auto simp: acquire_def)
next
  case False
  with assms(4) have "acquire_loop L t (unique_requests requests) wakes S = (S', out)" by (simp add: acquire_def)
  note A = acquire_loop_ok [OF assms(1-3) this]
  have "held_covers (lm_locks (fst S')) t r" if "r \<in> set requests" "out = Acquired" for r
    using set_unique_requests [OF that(1)] A that(2) held_covers_eq by blast
  with A show ?thesis by (auto simp: covers_all_iff stopped_ok_def keeps_own_def)
qed

theorem acquire_covers_requests_witness:
  "\<exists>S'. acquire demo_layout 3 [demo_request Exclusive, demo_request Exclusive] False
        [Woken (demo_release 1), Woken (demo_release 2)] (demo_readers, []) = (S', Acquired) \<and>
      covers_all (lm_locks (fst S')) 3 [demo_request Exclusive, demo_request Exclusive] \<and> \<not> queued 3 S'"
proof -
  let ?a = "acquire demo_layout 3 [demo_request Exclusive, demo_request Exclusive] False
      [Woken (demo_release 1), Woken (demo_release 2)] (demo_readers, [])"
  have "snd ?a = Acquired"
    by (simp add: acquire_def unique_requests_def sort_by_def acquisition_cmp_def lock_target_cmp_def
      request_eq_def target_eq_def demo_simps demo_readers_eq demo_release_def lm_release_def
      release_transaction_def)
  moreover have "\<not> queued 3 (demo_readers, [])"
    by (simp add: queued_def in_queue_def demo_readers_eq default_wait_queue_def)
  moreover have "list_all (wake_by_others demo_layout 3) [Woken (demo_release 1), Woken (demo_release 2)]"
    using demo_release_by_others by simp
  ultimately show ?thesis
    using acquire_covers_requests [OF demo_reachable(1), of 3 _ _ _ "fst ?a" "snd ?a"]
    by (metis acquire_outcome.distinct(1) prod.collapse)
qed

end
