(* ===== verification/Wire.thy ===== *)
theory Wire
  imports Byte_Codec
begin

text \<open>
  The field-tagged wire format of record payloads (\<open>crates/storage/src/wire.rs\<close>): varints, zigzag,
  tags, the three field bodies and the skipping of unknown fields.

  A decoder takes the whole buffer and a position and returns the value and the new position; the
  position after an error is never used by the callers and is not returned. \<open>usize\<close> has 64 bits, so
  \<open>usize::try_from\<close> of a \<open>u64\<close> succeeds.
\<close>

datatype wire_error =
    VarintTruncated
  | VarintOverflowsU64
  | VarintExceedsTenBytes
  | FieldIdOverflowsU32
  | Fixed64Truncated
  | LenBodyTruncated
  | StringNotUtf8
  | WireTypeNotSkippable u8

definition WIRE_TYPE_VARINT :: u8 where "WIRE_TYPE_VARINT = 0"
definition WIRE_TYPE_FIXED64 :: u8 where "WIRE_TYPE_FIXED64 = 1"
definition WIRE_TYPE_LEN :: u8 where "WIRE_TYPE_LEN = 2"

lemmas wire_types = WIRE_TYPE_VARINT_def WIRE_TYPE_FIXED64_def WIRE_TYPE_LEN_def

definition MAX_VARINT_BYTES :: nat where "MAX_VARINT_BYTES = 10"

section \<open>Varints\<close>

lemma drop_bit_7_less: "drop_bit 7 v \<noteq> 0 \<Longrightarrow> unat (drop_bit 7 v) < unat (v :: u64)"
proof -
  assume nz: "drop_bit 7 v \<noteq> 0"
  have e: "unat (drop_bit 7 v) = unat v div 128"
    by (simp add: drop_bit_eq_div unat_div)
  from nz have "unat (drop_bit 7 v) \<noteq> 0" by (simp add: unat_eq_0)
  with e show ?thesis by simp
qed

function encode_varint_u64 :: "u64 \<Rightarrow> bytes" where
  "encode_varint_u64 v =
     (let b = ucast (v AND 0x7f) :: u8;
          v' = drop_bit 7 v
      in if v' = 0 then [b] else (b OR 0x80) # encode_varint_u64 v')"
  by auto
termination
  by (relation "measure unat") (simp_all add: drop_bit_7_less)

declare encode_varint_u64.simps [simp del]

text \<open>The loop body, once per remaining iteration of \<open>for _ in 0..MAX_VARINT_BYTES\<close>.\<close>

primrec varint_loop :: "nat \<Rightarrow> bytes \<Rightarrow> nat \<Rightarrow> u64 \<Rightarrow> nat \<Rightarrow> wire_error + u64 \<times> nat" where
  "varint_loop 0 bs pos v shift = Inl VarintExceedsTenBytes"
| "varint_loop (Suc n) bs pos v shift =
     (if length bs \<le> pos then Inl VarintTruncated
      else let byte = bs ! pos;
               low = ucast (byte AND 0x7f) :: u64
           in if shift = 63 \<and> 1 < low then Inl VarintOverflowsU64
              else let v' = v OR push_bit shift low
                   in if byte AND 0x80 = 0 then Inr (v', Suc pos)
                      else varint_loop n bs (Suc pos) v' (shift + 7))"

definition decode_varint_u64 :: "bytes \<Rightarrow> nat \<Rightarrow> wire_error + u64 \<times> nat" where
  "decode_varint_u64 bs pos = varint_loop MAX_VARINT_BYTES bs pos 0 0"

definition zigzag_encode_i64 :: "i64 \<Rightarrow> u64" where
  "zigzag_encode_i64 v = push_bit 1 v XOR signed_drop_bit 63 v"

definition zigzag_decode_i64 :: "u64 \<Rightarrow> i64" where
  "zigzag_decode_i64 v = drop_bit 1 v XOR - (v AND 1)"

section \<open>Tags and field bodies\<close>

definition encode_tag :: "u32 \<Rightarrow> u8 \<Rightarrow> bytes" where
  "encode_tag field_id wire_type = encode_varint_u64 (push_bit 3 (ucast field_id) OR ucast wire_type)"

definition decode_tag :: "bytes \<Rightarrow> nat \<Rightarrow> wire_error + (u32 \<times> u8) \<times> nat" where
  "decode_tag bs pos =
     (case decode_varint_u64 bs pos of
        Inl e \<Rightarrow> Inl e
      | Inr (tag, pos') \<Rightarrow>
          let wire_type = ucast (tag AND 0x7) :: u8;
              field_id = drop_bit 3 tag
          in if field_id \<le> 0xFFFFFFFF then Inr ((ucast field_id, wire_type), pos')
             else Inl FieldIdOverflowsU32)"

definition encode_varint_field :: "u32 \<Rightarrow> u64 \<Rightarrow> bytes" where
  "encode_varint_field field_id v = encode_tag field_id WIRE_TYPE_VARINT @ encode_varint_u64 v"

definition encode_fixed64_field :: "u32 \<Rightarrow> u64 \<Rightarrow> bytes" where
  "encode_fixed64_field field_id v = encode_tag field_id WIRE_TYPE_FIXED64 @ u64_le v"

definition encode_len_field :: "u32 \<Rightarrow> bytes \<Rightarrow> bytes" where
  "encode_len_field field_id body =
     encode_tag field_id WIRE_TYPE_LEN @ encode_varint_u64 (of_nat (length body)) @ body"

definition encode_string_field :: "u32 \<Rightarrow> bytes \<Rightarrow> bytes" where
  "encode_string_field field_id s = encode_len_field field_id s"

definition byte_range :: "nat \<Rightarrow> nat \<Rightarrow> 'a list \<Rightarrow> 'a list" where
  "byte_range a b xs = take (b - a) (drop a xs)"

definition bounded_end :: "nat \<Rightarrow> nat \<Rightarrow> bytes \<Rightarrow> nat option" where
  "bounded_end pos n bs =
     (case checked_add pos n of
        None \<Rightarrow> None
      | Some e \<Rightarrow> if e \<le> length bs then Some e else None)"

definition decode_fixed64 :: "bytes \<Rightarrow> nat \<Rightarrow> wire_error + u64 \<times> nat" where
  "decode_fixed64 bs pos =
     (case bounded_end pos 8 bs of
        None \<Rightarrow> Inl Fixed64Truncated
      | Some e \<Rightarrow> Inr (le_u64 (byte_range pos e bs), e))"

definition decode_len_body :: "bytes \<Rightarrow> nat \<Rightarrow> wire_error + bytes \<times> nat" where
  "decode_len_body bs pos =
     (case decode_varint_u64 bs pos of
        Inl e \<Rightarrow> Inl e
      | Inr (len, pos') \<Rightarrow>
          (case bounded_end pos' (unat len) bs of
             None \<Rightarrow> Inl LenBodyTruncated
           | Some e \<Rightarrow> Inr (byte_range pos' e bs, e)))"

definition decode_string_body :: "bytes \<Rightarrow> nat \<Rightarrow> wire_error + bytes \<times> nat" where
  "decode_string_body bs pos =
     (case decode_len_body bs pos of
        Inl e \<Rightarrow> Inl e
      | Inr (body, pos') \<Rightarrow> if utf8_valid body then Inr (body, pos') else Inl StringNotUtf8)"

definition skip_field :: "bytes \<Rightarrow> nat \<Rightarrow> u8 \<Rightarrow> wire_error + nat" where
  "skip_field bs pos wire_type =
     (if wire_type = WIRE_TYPE_VARINT then map_sum id snd (decode_varint_u64 bs pos)
      else if wire_type = WIRE_TYPE_FIXED64 then map_sum id snd (decode_fixed64 bs pos)
      else if wire_type = WIRE_TYPE_LEN then map_sum id snd (decode_len_body bs pos)
      else Inl (WireTypeNotSkippable wire_type))"


section \<open>Round trips\<close>

lemma bit_wire_masks:
  "bit (0x7f :: int) n \<longleftrightarrow> n < 7" "bit (0x80 :: int) n \<longleftrightarrow> n = 7"
  "bit (0x7f :: u64) n \<longleftrightarrow> n < 7" "bit (0x7f :: u8) n \<longleftrightarrow> n < 7" "bit (0x80 :: u8) n \<longleftrightarrow> n = 7"
proof -
  have m: "(0x7f :: int) = mask 7" "(0x80 :: int) = 2 ^ 7"
    "(0x7f :: u64) = mask 7" "(0x7f :: u8) = mask 7" "(0x80 :: u8) = 2 ^ 7"
    by (simp_all add: mask_eq_exp_minus_1)
  show "bit (0x7f :: int) n \<longleftrightarrow> n < 7" "bit (0x80 :: int) n \<longleftrightarrow> n = 7"
    "bit (0x7f :: u64) n \<longleftrightarrow> n < 7" "bit (0x7f :: u8) n \<longleftrightarrow> n < 7" "bit (0x80 :: u8) n \<longleftrightarrow> n = 7"
    unfolding m by (auto simp: bit_mask_iff bit_exp_iff simp del: power_numeral)
qed

lemmas wire_bits = bit_wire_masks bit_and_iff bit_or_iff bit_push_bit_iff bit_drop_bit_eq bit_unsigned_iff

lemma or_push_split:
  "(a OR push_bit s (w AND 0x7f)) OR push_bit (s + 7) (drop_bit 7 w) = a OR push_bit s (w :: u64)"
proof (rule bit_eqI)
  fix n
  have "7 + (n - (s + 7)) = n - s" if "s + 7 \<le> n" using that by simp
  then show "bit ((a OR push_bit s (w AND 0x7f)) OR push_bit (s + 7) (drop_bit 7 w)) n =
      bit (a OR push_bit s w) n"
    by (cases "s + 7 \<le> n") (auto simp: wire_bits)
qed

lemma low_byte:
  "(ucast ((ucast (w AND 0x7f) :: u8) AND 0x7f) :: u64) = w AND 0x7f"
  "(ucast (((ucast (w AND 0x7f) :: u8) OR 0x80) AND 0x7f) :: u64) = w AND 0x7f"
  "((ucast (w AND 0x7f) :: u8) AND 0x80) = 0"
  "(((ucast (w AND 0x7f) :: u8) OR 0x80) AND 0x80) \<noteq> 0" for w :: u64
proof -
  show "(ucast ((ucast (w AND 0x7f) :: u8) AND 0x7f) :: u64) = w AND 0x7f"
    by (rule bit_eqI) (auto simp: wire_bits)
  show "(ucast (((ucast (w AND 0x7f) :: u8) OR 0x80) AND 0x7f) :: u64) = w AND 0x7f"
    by (rule bit_eqI) (auto simp: wire_bits)
  show "((ucast (w AND 0x7f) :: u8) AND 0x80) = 0"
    by (rule bit_eqI) (auto simp: wire_bits)
  have "bit (((ucast (w AND 0x7f) :: u8) OR 0x80) AND 0x80) 7"
    by (simp add: wire_bits)
  then show "(((ucast (w AND 0x7f) :: u8) OR 0x80) AND 0x80) \<noteq> 0" by auto
qed

lemma varint_step:
  assumes "\<not> (shift = 63 \<and> 1 < w AND 0x7f)"
  shows "varint_loop (Suc n) (pre @ ucast (w AND 0x7f) # post) (length pre) v shift =
      Inr (v OR push_bit shift (w AND 0x7f), Suc (length pre))"
    "varint_loop (Suc n) (pre @ (ucast (w AND 0x7f) OR 0x80) # post) (length pre) v shift =
      varint_loop n (pre @ (ucast (w AND 0x7f) OR 0x80) # post) (Suc (length pre))
        (v OR push_bit shift (w AND 0x7f)) (shift + 7)"
  using assms
  by (simp_all only: varint_loop.simps Let_def nth_append_length low_byte length_append list.size
      if_False if_True simp_thms) simp_all

text \<open>A varint encoded at any position of a buffer is read back from there, with any
  accumulated low bits; the loop has as many iterations left as the shift allows.\<close>

lemma drop_bit_7_bound:
  assumes "unat w < 2 ^ (64 - 7 * k)" "k \<le> 9" "drop_bit 7 w \<noteq> (0 :: u64)"
  shows "k \<le> 8" "unat (drop_bit 7 w) < 2 ^ (64 - 7 * Suc k)"
proof -
  have e: "unat (drop_bit 7 w) = unat w div 128"
    by (simp add: drop_bit_eq_div unat_div)
  with assms(3) have ge: "128 \<le> unat w"
    by (metis div_less not_le unat_eq_zero)
  show k: "k \<le> 8"
  proof (rule ccontr)
    assume "\<not> k \<le> 8"
    with assms(2) have "k = 9" by simp
    with assms(1) ge show False by simp
  qed
  then have "(2 :: nat) ^ (64 - 7 * k) = 128 * 2 ^ (64 - 7 * Suc k)"
    using power_add [of "2 :: nat" 7 "64 - 7 * Suc k"] by simp
  with assms(1) e show "unat (drop_bit 7 w) < 2 ^ (64 - 7 * Suc k)"
    by (simp add: less_mult_imp_div_less)
qed

lemma varint_loop_encode:
  "unat w < 2 ^ (64 - 7 * k) \<Longrightarrow> k \<le> 9 \<Longrightarrow>
   varint_loop (10 - k) (pre @ encode_varint_u64 w @ post) (length pre) a (7 * k) =
     Inr (a OR push_bit (7 * k) w, length pre + length (encode_varint_u64 w))"
proof (induction w arbitrary: k pre a rule: encode_varint_u64.induct)
  case (1 w)
  obtain n where n: "10 - k = Suc n" "n = 10 - Suc k"
    using "1.prems"(2) by (cases "10 - k") auto
  have low: "\<not> (7 * k = 63 \<and> 1 < w AND 0x7f)"
  proof
    assume "7 * k = 63 \<and> 1 < w AND 0x7f"
    then have "k = 9" "1 < w AND 0x7f" by auto
    with "1.prems"(1) have "unat w \<le> 1" by simp
    moreover have "unat (w AND 0x7f) \<le> unat w"
      using word_and_le2 [of w "0x7f"] by (simp add: word_le_nat_alt)
    ultimately show False
      using \<open>1 < w AND 0x7f\<close> by (simp add: word_less_nat_alt)
  qed
  show ?case
  proof (cases "drop_bit 7 w = 0")
    case True
    then have enc: "encode_varint_u64 w = [ucast (w AND 0x7f)]"
      by (simp add: encode_varint_u64.simps [of w])
    have "a OR push_bit (7 * k) (w AND 0x7f) = a OR push_bit (7 * k) w"
      using or_push_split [of a "7 * k" w] True by simp
    then show ?thesis by (simp only: n(1) enc append_Cons append_Nil varint_step(1) [OF low]) simp
  next
    case False
    then have enc: "encode_varint_u64 w = (ucast (w AND 0x7f) OR 0x80) # encode_varint_u64 (drop_bit 7 w)"
      by (simp add: encode_varint_u64.simps [of w] Let_def)
    note b = drop_bit_7_bound [OF "1.prems" False]
    have "varint_loop n ((pre @ [ucast (w AND 0x7f) OR 0x80]) @ encode_varint_u64 (drop_bit 7 w) @ post)
        (length (pre @ [ucast (w AND 0x7f) OR 0x80 :: u8])) (a OR push_bit (7 * k) (w AND 0x7f)) (7 * Suc k) =
        Inr ((a OR push_bit (7 * k) (w AND 0x7f)) OR push_bit (7 * Suc k) (drop_bit 7 w),
          length (pre @ [ucast (w AND 0x7f) OR 0x80 :: u8]) + length (encode_varint_u64 (drop_bit 7 w)))"
      unfolding n(2) by (rule "1.IH" [OF refl refl False b(2)]) (use b(1) in simp)
    then have "varint_loop n (pre @ (ucast (w AND 0x7f) OR 0x80) # encode_varint_u64 (drop_bit 7 w) @ post)
        (Suc (length pre)) (a OR push_bit (7 * k) (w AND 0x7f)) (7 * k + 7) =
        Inr (a OR push_bit (7 * k) w, length pre + Suc (length (encode_varint_u64 (drop_bit 7 w))))"
      using or_push_split [of a "7 * k" w] by (simp add: add.commute)
    then show ?thesis by (simp only: n(1) enc append_Cons varint_step(2) [OF low]) simp
  qed
qed

lemma decode_encode_varint [roundtrip_simps]:
  "decode_varint_u64 (pre @ encode_varint_u64 v @ post) (length pre) =
     Inr (v, length pre + length (encode_varint_u64 v))"
  using varint_loop_encode [of v 0 pre post 0] unsigned_less [of v, where ?'a = nat]
  by (simp add: decode_varint_u64_def MAX_VARINT_BYTES_def)

lemma encode_varint_nonempty [simp]: "encode_varint_u64 v \<noteq> []"
  by (subst encode_varint_u64.simps) (simp add: Let_def)

lemma decode_encode_varint_at [roundtrip_simps]:
  "p = length pre \<Longrightarrow> decode_varint_u64 (pre @ encode_varint_u64 v @ post) p =
     Inr (v, p + length (encode_varint_u64 v))"
  by (simp add: decode_encode_varint)

text \<open>Zigzag is a bijection between the signed and the unsigned 64-bit values.\<close>

lemma bit_neg_low: "bit (- (v AND 1) :: u64) n \<longleftrightarrow> n < 64 \<and> bit v 0"
proof -
  have "v AND 1 = (if bit v 0 then 1 else 0)"
    by (simp add: and_one_eq mod_2_eq_odd bit_0)
  then show ?thesis by (simp add: bit_minus_1_iff)
qed

lemma bit_zigzag:
  "bit (zigzag_encode_i64 v) n \<longleftrightarrow> n < 64 \<and> ((0 < n \<and> bit v (n - 1)) \<noteq> bit v 63)"
  "bit (zigzag_decode_i64 v) n \<longleftrightarrow> n < 64 \<and> ((n < 63 \<and> bit v (Suc n)) \<noteq> bit v 0)"
proof -
  have "bit (push_bit 1 v) n \<longleftrightarrow> n < 64 \<and> 0 < n \<and> bit v (n - 1)"
    unfolding bit_push_bit_iff by auto
  moreover have "bit (signed_drop_bit 63 v) n \<longleftrightarrow> n < 64 \<and> bit v 63"
    by (cases n) (auto simp: bit_signed_drop_bit_iff dest: bit_imp_le_length)
  ultimately show "bit (zigzag_encode_i64 v) n \<longleftrightarrow> n < 64 \<and> ((0 < n \<and> bit v (n - 1)) \<noteq> bit v 63)"
    unfolding zigzag_encode_i64_def bit_xor_iff by blast
  have "bit (drop_bit 1 v) n \<longleftrightarrow> n < 63 \<and> bit v (Suc n)"
    unfolding bit_drop_bit_eq by (auto dest: bit_imp_le_length)
  then show "bit (zigzag_decode_i64 v) n \<longleftrightarrow> n < 64 \<and> ((n < 63 \<and> bit v (Suc n)) \<noteq> bit v 0)"
    unfolding zigzag_decode_i64_def bit_xor_iff bit_neg_low by (auto dest: bit_imp_le_length)
qed

lemma zigzag_decode_encode: "zigzag_decode_i64 (zigzag_encode_i64 v) = v"
proof (rule bit_eqI)
  fix n
  assume "possible_bit TYPE(u64) n"
  then have "n < 63 \<or> n = 63" by auto
  then show "bit (zigzag_decode_i64 (zigzag_encode_i64 v)) n = bit v n"
    by (elim disjE) (simp_all add: bit_zigzag, blast)
qed

lemma zigzag_encode_decode: "zigzag_encode_i64 (zigzag_decode_i64 v) = v"
proof (rule bit_eqI)
  fix n
  assume "possible_bit TYPE(u64) n"
  then have "n < 64" by simp
  then show "bit (zigzag_encode_i64 (zigzag_decode_i64 v)) n = bit v n"
    by (cases n) (simp_all add: bit_zigzag, blast)
qed

section \<open>Fields of a message\<close>

text \<open>The three kinds of fields, what the encoders write for them, and a reader that decodes the
  tag and then the body the tag announces.\<close>

datatype wire_field = VarintField u32 u64 | Fixed64Field u32 u64 | LenField u32 bytes

fun encode_field :: "wire_field \<Rightarrow> bytes" where
  "encode_field (VarintField i v) = encode_varint_field i v"
| "encode_field (Fixed64Field i v) = encode_fixed64_field i v"
| "encode_field (LenField i b) = encode_len_field i b"

definition decode_field :: "bytes \<Rightarrow> nat \<Rightarrow> wire_error + wire_field \<times> nat" where
  "decode_field bs pos =
     (case decode_tag bs pos of
        Inl e \<Rightarrow> Inl e
      | Inr ((i, ty), pos') \<Rightarrow>
          if ty = WIRE_TYPE_VARINT then map_sum id (map_prod (VarintField i) id) (decode_varint_u64 bs pos')
          else if ty = WIRE_TYPE_FIXED64 then map_sum id (map_prod (Fixed64Field i) id) (decode_fixed64 bs pos')
          else if ty = WIRE_TYPE_LEN then map_sum id (map_prod (LenField i) id) (decode_len_body bs pos')
          else Inl (WireTypeNotSkippable ty))"

definition skip_one :: "bytes \<Rightarrow> nat \<Rightarrow> wire_error + nat" where
  "skip_one bs pos =
     (case decode_tag bs pos of
        Inl e \<Rightarrow> Inl e
      | Inr ((i, ty), pos') \<Rightarrow> skip_field bs pos' ty)"

lemma byte_range_append [simp]: "byte_range (length xs) (length xs + length ys) (xs @ ys @ zs) = ys"
  by (simp add: byte_range_def)

lemma byte_range_append2 [simp]:
  "byte_range (length xs + length ws) (length xs + length ws + length ys) (xs @ ws @ ys @ zs) = ys"
  by (simp add: byte_range_def)

lemma tag_parts:
  fixes i :: u32 and ty :: u8
  assumes "ty \<le> 7"
  shows "ucast ((push_bit 3 (ucast i) OR ucast ty :: u64) AND 7) = ty"
    "drop_bit 3 (push_bit 3 (ucast i) OR ucast ty :: u64) = ucast i"
proof -
  have m: "(7 :: u64) = mask 3" "(7 :: u8) = mask 3" by (simp_all add: mask_eq_exp_minus_1)
  have "unat ty < 2 ^ 3" using assms by (simp add: word_le_nat_alt)
  then have "take_bit 3 (unat ty) = unat ty" by (simp add: take_bit_nat_eq_self_iff)
  then have hi: "n < 3" if "bit ty n" for n
    using that by (metis bit_take_bit_iff bit_unsigned_iff not_le possible_bit_nat)
  show "ucast ((push_bit 3 (ucast i) OR ucast ty :: u64) AND 7) = ty"
    unfolding m(1)
    by (rule bit_eqI) (use hi in \<open>auto simp: bit_and_iff bit_or_iff bit_push_bit_iff bit_unsigned_iff bit_mask_iff not_le\<close>)
  show "drop_bit 3 (push_bit 3 (ucast i) OR ucast ty :: u64) = ucast i"
    by (rule bit_eqI) (use hi in \<open>auto simp: bit_or_iff bit_push_bit_iff bit_unsigned_iff bit_drop_bit_eq
      dest: bit_imp_le_length\<close>)
qed

lemma decode_encode_tag [roundtrip_simps]:
  assumes "ty \<le> 7" "p = length pre"
  shows "decode_tag (pre @ encode_tag i ty @ post) p = Inr ((i, ty), p + length (encode_tag i ty))"
proof -
  have "unat (ucast i :: u64) = unat i" using unat_bounds(2) [of i] by (simp add: unsigned_ucast_eq take_bit_nat_eq_self_iff)
  then have "(ucast i :: u64) \<le> 0xFFFFFFFF"
    using unat_bounds(2) [of i] by (simp add: word_le_nat_alt)
  moreover have "(ucast (ucast i :: u64) :: u32) = i"
    by (rule bit_eqI) (auto simp: bit_unsigned_iff)
  moreover define t :: u64 where "t = push_bit 3 (ucast i) OR ucast ty"
  moreover have "ucast (t AND 7) = ty" "drop_bit 3 t = ucast i"
    using tag_parts [OF assms(1), of i] by (simp_all only: t_def)
  moreover have "encode_tag i ty = encode_varint_u64 t"
    by (simp only: encode_tag_def t_def)
  ultimately show ?thesis
    using assms(2) by (simp add: decode_tag_def roundtrip_simps Let_def)
qed

lemma decode_fixed64_le [roundtrip_simps]:
  assumes "length (pre @ u64_le v @ post) \<le> usize_max" "p = length pre"
  shows "decode_fixed64 (pre @ u64_le v @ post) p = Inr (v, p + 8)"
  using assms byte_range_append [of pre "u64_le v" post]
  by (simp add: decode_fixed64_def bounded_end_def checked_add_def)

lemma decode_len_body_encode [roundtrip_simps]:
  assumes "length (pre @ encode_varint_u64 (of_nat (length body)) @ body @ post) \<le> usize_max"
    and "p = length pre"
  shows "decode_len_body (pre @ encode_varint_u64 (of_nat (length body)) @ body @ post) p =
    Inr (body, p + length (encode_varint_u64 (of_nat (length body))) + length body)"
proof -
  let ?v = "encode_varint_u64 (of_nat (length body))"
  have "unat (of_nat (length body) :: u64) = length body"
    using assms(1) by (simp add: unat_of_nat usize_max_def)
  then show ?thesis
    using assms byte_range_append2 [of pre ?v body post]
    by (simp add: decode_len_body_def roundtrip_simps bounded_end_def checked_add_def)
qed

lemma wire_type_le: "WIRE_TYPE_VARINT \<le> 7" "WIRE_TYPE_FIXED64 \<le> 7" "WIRE_TYPE_LEN \<le> 7"
  by (simp_all add: wire_types)

lemma wire_type_distinct [simp]:
  "WIRE_TYPE_FIXED64 \<noteq> WIRE_TYPE_VARINT" "WIRE_TYPE_LEN \<noteq> WIRE_TYPE_VARINT"
  "WIRE_TYPE_LEN \<noteq> WIRE_TYPE_FIXED64" "WIRE_TYPE_VARINT \<noteq> WIRE_TYPE_FIXED64"
  "WIRE_TYPE_VARINT \<noteq> WIRE_TYPE_LEN" "WIRE_TYPE_FIXED64 \<noteq> WIRE_TYPE_LEN"
  by (simp_all add: wire_types)

lemma field_roundtrip:
  assumes "length (pre @ encode_field f @ post) \<le> usize_max"
  shows "decode_field (pre @ encode_field f @ post) (length pre) =
           Inr (f, length pre + length (encode_field f)) \<and>
         skip_one (pre @ encode_field f @ post) (length pre) =
           Inr (length pre + length (encode_field f))"
proof (cases f)
  case (VarintField i v)
  let ?t = "encode_tag i WIRE_TYPE_VARINT"
  show ?thesis
    using decode_encode_tag [OF wire_type_le(1) refl, of pre i "encode_varint_u64 v @ post"]
      decode_encode_varint [of "pre @ ?t" v post]
    by (simp add: VarintField decode_field_def skip_one_def skip_field_def encode_varint_field_def)
next
  case (Fixed64Field i v)
  let ?t = "encode_tag i WIRE_TYPE_FIXED64"
  show ?thesis
    using decode_encode_tag [OF wire_type_le(2) refl, of pre i "u64_le v @ post"]
      decode_fixed64_le [of "pre @ ?t" v post] assms
    by (simp add: Fixed64Field decode_field_def skip_one_def skip_field_def encode_fixed64_field_def)
next
  case (LenField i b)
  let ?t = "encode_tag i WIRE_TYPE_LEN" and ?n = "encode_varint_u64 (of_nat (length b))"
  show ?thesis
    using decode_encode_tag [OF wire_type_le(3) refl, of pre i "?n @ b @ post"]
      decode_len_body_encode [of "pre @ ?t" b post] assms
    by (simp add: LenField decode_field_def skip_one_def skip_field_def encode_len_field_def)
qed

text \<open>C26. A field that the encoders wrote anywhere in a buffer of at most \<open>usize::MAX\<close> bytes is
  decoded to the same field id and body, and a reader that does not know the field id and skips it
  by its wire type ends at the first byte after the field.\<close>

theorem wire_field_roundtrip:
  assumes "length (pre @ encode_field f @ post) \<le> usize_max"
  shows "decode_field (pre @ encode_field f @ post) (length pre) =
           Inr (f, length pre + length (encode_field f)) \<and>
         skip_one (pre @ encode_field f @ post) (length pre) =
           Inr (length pre + length (encode_field f))"
  using assms by (rule field_roundtrip)

theorem wire_field_roundtrip_witness:
  "skip_one ([7] @ encode_field (LenField 3 [1, 2]) @ [9]) 1 =
     Inr (1 + length (encode_field (LenField 3 [1, 2])))"
  using wire_field_roundtrip [of "[7]" "LenField 3 [1, 2]" "[9]"]
  by (simp add: encode_len_field_def encode_tag_def encode_varint_u64.simps Let_def usize_max_def
      wire_types)

section \<open>Decoding arbitrary bytes\<close>

text \<open>Whatever the bytes are, a decoder that succeeds has advanced and stays inside the buffer,
  and its answer does not depend on what follows.\<close>

lemma varint_loop_bounds:
  "varint_loop n bs pos v s = Inr (r, p) \<Longrightarrow> pos < p \<and> p \<le> length bs"
  by (induction n arbitrary: pos v s) (auto simp: Let_def split: if_splits dest: Suc_lessD)

lemma varint_loop_extend:
  "varint_loop n bs pos v s = Inr r \<Longrightarrow> varint_loop n (bs @ more) pos v s = Inr r"
  by (induction n arbitrary: pos v s) (auto simp: Let_def nth_append split: if_splits)

lemma varint_loop_error: "varint_loop n bs pos v s \<noteq> Inl (WireTypeNotSkippable t)"
  by (induction n arbitrary: pos v s) (auto simp: Let_def)

lemma varint_loop_range:
  "varint_loop n bs pos v s = Inr (r, p) \<Longrightarrow> p \<le> pos + n"
  by (induction n arbitrary: pos v s) (fastforce simp: Let_def split: if_splits)+

lemma decode_varint_bounds:
  "decode_varint_u64 bs pos = Inr (r, p) \<Longrightarrow> pos < p \<and> p \<le> length bs \<and> p \<le> pos + 10"
  using varint_loop_bounds varint_loop_range
  unfolding decode_varint_u64_def MAX_VARINT_BYTES_def by blast

lemma bounded_end_Some:
  "bounded_end pos n bs = Some e \<longleftrightarrow> e = pos + n \<and> e \<le> usize_max \<and> e \<le> length bs"
  by (auto simp: bounded_end_def checked_add_def split: option.splits if_splits)

lemma decode_len_body_bounds:
  "decode_len_body bs pos = Inr (b, p) \<Longrightarrow> pos < p \<and> p \<le> length bs \<and> pos + length b < p"
  by (auto simp: decode_len_body_def bounded_end_Some byte_range_def split: sum.splits option.splits
      dest!: decode_varint_bounds)

lemma skip_field_bounds:
  "skip_field bs pos t = Inr p \<Longrightarrow> pos < p \<and> p \<le> length bs"
  by (auto simp: skip_field_def decode_fixed64_def bounded_end_Some map_sum_def
      split: if_splits sum.splits option.splits
      dest!: decode_varint_bounds decode_len_body_bounds)

lemma decode_varint_extend:
  "decode_varint_u64 bs pos = Inr r \<Longrightarrow> decode_varint_u64 (bs @ more) pos = Inr r"
  unfolding decode_varint_u64_def by (rule varint_loop_extend)

lemma byte_range_extend: "e \<le> length bs \<Longrightarrow> byte_range a e (bs @ more) = byte_range a e bs"
  by (simp add: byte_range_def)

lemma bounded_end_extend: "bounded_end pos n bs = Some e \<Longrightarrow> bounded_end pos n (bs @ more) = Some e"
  by (simp add: bounded_end_Some)

lemma decode_fixed64_extend:
  "decode_fixed64 bs pos = Inr r \<Longrightarrow> decode_fixed64 (bs @ more) pos = Inr r"
  by (auto simp: decode_fixed64_def bounded_end_Some byte_range_extend dest!: bounded_end_extend [of _ _ _ _ more]
      split: option.splits)

lemma decode_len_body_extend:
  assumes "decode_len_body bs pos = Inr r"
  shows "decode_len_body (bs @ more) pos = Inr r"
proof -
  obtain len p e where v: "decode_varint_u64 bs pos = Inr (len, p)"
    and e: "bounded_end p (unat len) bs = Some e" and r: "r = (byte_range p e bs, e)"
    using assms by (auto simp: decode_len_body_def split: sum.splits option.splits)
  from e have "byte_range p e (bs @ more) = byte_range p e bs"
    by (simp add: bounded_end_Some byte_range_extend)
  then show ?thesis
    by (simp add: decode_len_body_def decode_varint_extend [OF v] bounded_end_extend [OF e] r)
qed

lemma decode_tag_extend:
  assumes "decode_tag bs pos = Inr r"
  shows "decode_tag (bs @ more) pos = Inr r"
proof -
  obtain tag p where "decode_varint_u64 bs pos = Inr (tag, p)"
    using assms by (auto simp: decode_tag_def split: sum.splits)
  with assms decode_varint_extend [OF this, of more] show ?thesis
    by (simp add: decode_tag_def)
qed

lemma map_sum_Inr_iff: "map_sum id f x = Inr y \<longleftrightarrow> (\<exists>z. x = Inr z \<and> y = f z)"
  by (cases x) auto

lemma map_sum_Inl_iff: "map_sum id f x = Inl y \<longleftrightarrow> x = Inl y"
  by (cases x) auto

lemma decode_field_extend:
  assumes "decode_field bs pos = Inr r"
  shows "decode_field (bs @ more) pos = Inr r"
proof -
  obtain i ty p where t: "decode_tag bs pos = Inr ((i, ty), p)"
    using assms by (auto simp: decode_field_def split: sum.splits)
  with assms show ?thesis
    by (auto simp: decode_field_def decode_tag_extend [OF t] map_sum_Inr_iff
        decode_varint_extend decode_fixed64_extend decode_len_body_extend split: if_splits)
qed

lemma decode_field_bounds: "decode_field bs pos = Inr (f, p) \<Longrightarrow> p \<le> length bs"
  by (auto simp: decode_field_def map_sum_def map_prod_def decode_fixed64_def bounded_end_Some
      split: sum.splits if_splits option.splits dest!: decode_varint_bounds decode_len_body_bounds)

lemma decode_field_prefix_rejected:
  assumes "length (pre @ encode_field f) \<le> usize_max" "k < length (encode_field f)"
  shows "\<exists>e. decode_field (pre @ take k (encode_field f)) (length pre) = Inl e"
proof (rule ccontr)
  assume "\<not> ?thesis"
  then obtain g p where d: "decode_field (pre @ take k (encode_field f)) (length pre) = Inr (g, p)"
    by (cases "decode_field (pre @ take k (encode_field f)) (length pre)") auto
  from decode_field_extend [OF this, of "drop k (encode_field f)"]
  have "decode_field (pre @ encode_field f) (length pre) = Inr (g, p)" by simp
  with field_roundtrip [of pre f "[]"] assms(1) have "p = length pre + length (encode_field f)"
    by simp
  moreover from decode_field_bounds [OF d] assms(2) have "p < length pre + length (encode_field f)"
    by simp
  ultimately show False by simp
qed

text \<open>C40. A buffer that ends inside a field, whatever bytes precede the field, is rejected: no
  decoder of the format takes a truncated field for a shorter one.\<close>

theorem wire_truncation_rejected:
  assumes "length (pre @ encode_field f) \<le> usize_max" "k < length (encode_field f)"
  shows "\<exists>e. decode_field (pre @ take k (encode_field f)) (length pre) = Inl e"
  using assms by (rule decode_field_prefix_rejected)

theorem wire_truncation_rejected_witness:
  "\<exists>e. decode_field ([] @ take 8 (encode_field (Fixed64Field 1 5))) (length ([] :: bytes)) = Inl e"
  using wire_truncation_rejected [of "[]" "Fixed64Field 1 5" 8]
  by (simp add: encode_fixed64_field_def encode_tag_def encode_varint_u64.simps Let_def usize_max_def
      wire_types)

text \<open>Whatever the bytes and the wire type, skipping a field advances the position and stays
  inside the buffer; a wire type above 2 is an error. A loop that skips the fields of a buffer ends.\<close>

lemma wire_skip_advances:
  "case skip_field bs pos t of
     Inr p \<Rightarrow> pos < p \<and> p \<le> length bs \<and> t \<in> {WIRE_TYPE_VARINT, WIRE_TYPE_FIXED64, WIRE_TYPE_LEN}
   | Inl e \<Rightarrow> (e = WireTypeNotSkippable t) = (t \<notin> {WIRE_TYPE_VARINT, WIRE_TYPE_FIXED64, WIRE_TYPE_LEN})"
proof (cases "skip_field bs pos t")
  case (Inr p)
  then show ?thesis
    using skip_field_bounds [OF Inr] by (auto simp: skip_field_def split: if_splits)
next
  case (Inl e)
  have v: "decode_varint_u64 bs pos \<noteq> Inl (WireTypeNotSkippable t)" for pos
    using varint_loop_error unfolding decode_varint_u64_def by blast
  have "decode_fixed64 bs pos \<noteq> Inl (WireTypeNotSkippable t)"
    by (simp add: decode_fixed64_def split: option.splits)
  moreover have "decode_len_body bs pos \<noteq> Inl (WireTypeNotSkippable t)"
    using v by (auto simp: decode_len_body_def split: sum.splits option.splits)
  ultimately show ?thesis
    using Inl v [of pos] by (auto simp: skip_field_def map_sum_Inl_iff split: if_splits)
qed

end
