(* ===== verification/Wal_Frame.thy ===== *)
theory Wal_Frame
  imports Wire "HOL-Library.Monad_Syntax"
begin

text \<open>
  The block-oriented fragment framing of the binary write-ahead log
  (\<open>crates/storage/src/wal/frame.rs\<close>): the file header, the framing of a record into fragments of
  32 KiB blocks, and the reader that streams fragment chains back out of a file.

  \<^item> The checksum \<open>crc32c_append\<close> belongs to an external crate and is the parameter \<open>crc\<close>.
  \<^item> \<open>std::io::Read\<close> is the parameter \<open>rd\<close>: from a stream state and a buffer size it gives an I/O
    error or the bytes delivered and the next state. A reader may deliver fewer bytes than asked.
    The locale \<open>byte_reader\<close> states the contract of the trait.
  \<^item> Of the block buffer the model keeps the loaded prefix, so \<open>block_len\<close> is its length.
  \<^item> The reasons of the events are values of a datatype instead of formatted texts.
\<close>

type_synonym crc_append = "u32 \<Rightarrow> bytes \<Rightarrow> u32"

definition WAL_BINARY_MAGIC :: bytes where
  "WAL_BINARY_MAGIC = [0x53, 0x4B, 0x57, 0x41, 0x4C, 0x42, 0x30, 0x31]"

definition WAL_BLOCK_BYTES :: nat where "WAL_BLOCK_BYTES = 32 * 1024"
definition WAL_FRAGMENT_HEADER_BYTES :: nat where "WAL_FRAGMENT_HEADER_BYTES = 15"
definition WAL_BINARY_FILE_HEADER_BYTES :: nat where "WAL_BINARY_FILE_HEADER_BYTES = 28"

definition FRAGMENT_FULL :: u8 where "FRAGMENT_FULL = 1"
definition FRAGMENT_FIRST :: u8 where "FRAGMENT_FIRST = 2"
definition FRAGMENT_MIDDLE :: u8 where "FRAGMENT_MIDDLE = 3"
definition FRAGMENT_LAST :: u8 where "FRAGMENT_LAST = 4"

lemmas fragment_types = FRAGMENT_FULL_def FRAGMENT_FIRST_def FRAGMENT_MIDDLE_def FRAGMENT_LAST_def
lemmas wal_sizes = WAL_BLOCK_BYTES_def WAL_FRAGMENT_HEADER_BYTES_def WAL_BINARY_FILE_HEADER_BYTES_def

lemma wal_size_bounds [simp]:
  "0 < WAL_BLOCK_BYTES" "WAL_BLOCK_BYTES \<noteq> 0" "0 < WAL_FRAGMENT_HEADER_BYTES"
  "WAL_FRAGMENT_HEADER_BYTES < WAL_BLOCK_BYTES" "WAL_FRAGMENT_HEADER_BYTES \<le> WAL_BLOCK_BYTES"
  by (simp_all add: wal_sizes)

definition CRC_MASK_DELTA :: u32 where "CRC_MASK_DELTA = 0xa282ead8"

section \<open>Writing\<close>

definition masked_fragment_crc :: "crc_append \<Rightarrow> u8 \<Rightarrow> u64 \<Rightarrow> bytes \<Rightarrow> u32" where
  "masked_fragment_crc crc fragment_type generation payload =
     word_rotr 15 (crc (crc (crc 0 [fragment_type]) (u64_le generation)) payload) + CRC_MASK_DELTA"

definition encode_binary_wal_header :: "crc_append \<Rightarrow> u64 \<Rightarrow> u64 \<Rightarrow> bytes" where
  "encode_binary_wal_header crc generation start_lsn =
     (let header = WAL_BINARY_MAGIC @ u64_le generation @ u64_le start_lsn
      in header @ u32_le (crc 0 header))"

datatype wal_header_error = HeaderTruncated | MissingHeader | HeaderChecksumMismatch u32 u32

definition decode_binary_wal_header :: "crc_append \<Rightarrow> bytes \<Rightarrow> wal_header_error + u64 \<times> u64" where
  "decode_binary_wal_header crc bs =
     (if length bs < WAL_BINARY_FILE_HEADER_BYTES then Inl HeaderTruncated
      else let header = take WAL_BINARY_FILE_HEADER_BYTES bs in
        if take 8 header \<noteq> WAL_BINARY_MAGIC then Inl MissingHeader
        else let expected = le_u32 (byte_range 24 28 header);
                 actual = crc 0 (take 24 header)
             in if expected \<noteq> actual then Inl (HeaderChecksumMismatch expected actual)
                else Inr (le_u64 (byte_range 8 16 header), le_u64 (byte_range 16 24 header)))"

definition fragment_type_of :: "bool \<Rightarrow> bool \<Rightarrow> u8" where
  "fragment_type_of first rest_empty =
     (case (first, rest_empty) of
        (True, True) \<Rightarrow> FRAGMENT_FULL
      | (True, False) \<Rightarrow> FRAGMENT_FIRST
      | (False, True) \<Rightarrow> FRAGMENT_LAST
      | (False, False) \<Rightarrow> FRAGMENT_MIDDLE)"

definition fragment_bytes :: "crc_append \<Rightarrow> u64 \<Rightarrow> u8 \<Rightarrow> bytes \<Rightarrow> bytes" where
  "fragment_bytes crc generation fragment_type chunk =
     u32_le (masked_fragment_crc crc fragment_type generation chunk) @
     u16_le (of_nat (length chunk)) @ [fragment_type] @ u64_le generation @ chunk"

function frame_loop :: "crc_append \<Rightarrow> u64 \<Rightarrow> bytes \<Rightarrow> bool \<Rightarrow> nat \<Rightarrow> bytes" where
  "frame_loop crc generation remaining first block_pos =
     (let available = WAL_BLOCK_BYTES - block_pos - WAL_FRAGMENT_HEADER_BYTES;
          n = min available (length remaining);
          chunk = take n remaining;
          rest = drop n remaining;
          out = fragment_bytes crc generation (fragment_type_of first (rest = [])) chunk
      in if rest = [] then out else out @ frame_loop crc generation rest False 0)"
  by auto
termination
  by (relation "measures [\<lambda>(c, g, r, f, p). length r, \<lambda>(c, g, r, f, p). p]")
    (auto simp: wal_sizes min_def split: if_splits)

declare frame_loop.simps [simp del]

definition frame_padding :: "nat \<Rightarrow> nat" where
  "frame_padding block_pos =
     (if WAL_BLOCK_BYTES - block_pos < WAL_FRAGMENT_HEADER_BYTES then WAL_BLOCK_BYTES - block_pos else 0)"

definition frame_binary_wal_record :: "crc_append \<Rightarrow> u64 \<Rightarrow> bytes \<Rightarrow> nat \<Rightarrow> bytes" where
  "frame_binary_wal_record crc generation payload position =
     (let block_pos = position mod WAL_BLOCK_BYTES;
          padding = frame_padding block_pos
      in replicate padding 0 @
         frame_loop crc generation payload True (if padding \<noteq> 0 then 0 else block_pos))"

section \<open>Reading\<close>

datatype wal_reason =
    UnwrittenHeader
  | StaleGeneration u64 u64
  | TrailerNotZero
  | TrailerCutShort
  | FragmentHeaderCutShort
  | LengthOverflowsBlock u16
  | PayloadCutShort u16
  | PayloadCrossesBlock
  | ChecksumMismatch u32 u32
  | InvalidFragmentType u8
  | ChainIncomplete
  | FragmentsFollowMarker wal_reason
  | StaleSuffix wal_reason
  | FullInterruptsChain
  | FirstInterruptsChain
  | ContinuationWithoutFirst

datatype wal_event =
    Record bytes nat nat
  | TornTail nat wal_reason
  | Corrupt nat wal_reason
  | Eof

datatype wal_read_error =
    WalIo
  | RecordLimitExceeded nat
  | InvalidInterval
  | StartsBeyondBytes

record 's wal_reader =
  wr_reader :: 's
  wr_generation :: u64
  wr_max_record_bytes :: "nat option"
  wr_block :: bytes
  wr_block_pos :: nat
  wr_block_offset :: nat
  wr_stream_ended :: bool
  wr_block_loaded :: bool
  wr_chain :: "(nat \<times> bytes) option"
  wr_finished :: bool
  wr_end_offset :: "nat option"

type_synonym 's read_fn = "'s \<Rightarrow> nat \<Rightarrow> (bytes \<times> 's) option"

definition wr_new :: "'s \<Rightarrow> u64 \<Rightarrow> nat option \<Rightarrow> 's wal_reader" where
  "wr_new reader generation max_record_bytes =
     \<lparr> wr_reader = reader, wr_generation = generation, wr_max_record_bytes = max_record_bytes,
       wr_block = [], wr_block_pos = 0, wr_block_offset = WAL_BINARY_FILE_HEADER_BYTES,
       wr_stream_ended = False, wr_block_loaded = False, wr_chain = None, wr_finished = False,
       wr_end_offset = None \<rparr>"

definition fill_request :: "'s wal_reader \<Rightarrow> nat" where
  "fill_request r =
     (let free = WAL_BLOCK_BYTES - length (wr_block r) in
      case wr_end_offset r of
        None \<Rightarrow> free
      | Some e \<Rightarrow> min (min (e - (wr_block_offset r + length (wr_block r))) usize_max) free)"

text \<open>The \<open>while\<close> loop of \<open>load_next_block\<close>.\<close>

function fill_block :: "'s read_fn \<Rightarrow> 's wal_reader \<Rightarrow> wal_read_error + 's wal_reader" where
  "fill_block rd r =
     (if length (wr_block r) < WAL_BLOCK_BYTES then
        if fill_request r = 0 then Inr (r\<lparr>wr_stream_ended := True\<rparr>)
        else (case rd (wr_reader r) (fill_request r) of
                None \<Rightarrow> Inl WalIo
              | Some (got, reader) \<Rightarrow>
                  if got = [] then Inr (r\<lparr>wr_reader := reader, wr_stream_ended := True\<rparr>)
                  else fill_block rd (r\<lparr>wr_reader := reader, wr_block := wr_block r @ got\<rparr>))
      else Inr r)"
  by auto
termination
  by (relation "measure (\<lambda>(rd, r). WAL_BLOCK_BYTES - length (wr_block r))")
    (auto intro!: diff_less_mono2 simp flip: length_greater_0_conv)

declare fill_block.simps [simp del]

definition load_next_block :: "'s read_fn \<Rightarrow> 's wal_reader \<Rightarrow> wal_read_error + 's wal_reader" where
  "load_next_block rd r =
     map_sum id (\<lambda>r'. r'\<lparr>wr_block_loaded := True\<rparr>)
       (fill_block rd (r\<lparr>wr_block_offset := wr_block_offset r + length (wr_block r),
                          wr_block := [], wr_block_pos := 0\<rparr>))"

definition wr_range ::
    "'s read_fn \<Rightarrow> (nat \<Rightarrow> 's option) \<Rightarrow> u64 \<Rightarrow> nat option \<Rightarrow> nat \<Rightarrow> nat \<Rightarrow>
     wal_read_error + 's wal_reader" where
  "wr_range rd seek generation max_record_bytes from_offset to_offset =
     (if from_offset < WAL_BINARY_FILE_HEADER_BYTES \<or> to_offset < from_offset then Inl InvalidInterval
      else let data_offset = from_offset - WAL_BINARY_FILE_HEADER_BYTES;
               block_start = WAL_BINARY_FILE_HEADER_BYTES +
                 data_offset div WAL_BLOCK_BYTES * WAL_BLOCK_BYTES
           in case seek block_start of
                None \<Rightarrow> Inl WalIo
              | Some reader \<Rightarrow>
                  let cursor = (wr_new reader generation max_record_bytes)
                        \<lparr>wr_block_offset := block_start, wr_end_offset := Some to_offset\<rparr>
                  in if from_offset = to_offset then Inr (cursor\<lparr>wr_finished := True\<rparr>)
                     else (case load_next_block rd cursor of
                             Inl e \<Rightarrow> Inl e
                           | Inr cursor' \<Rightarrow>
                               let skip = from_offset - block_start
                               in if length (wr_block cursor') < skip then Inl StartsBeyondBytes
                                  else Inr (cursor'\<lparr>wr_block_pos := skip\<rparr>)))"

datatype fragment_parse =
    Fragment u8 nat
  | EndOfLog wal_reason
  | ParseCorrupt wal_reason
  | ParseTorn wal_reason
  | NeedNextBlock
  | EndOfStream

definition valid_fragment_type :: "u8 \<Rightarrow> bool" where
  "valid_fragment_type t \<longleftrightarrow> FRAGMENT_FULL \<le> t \<and> t \<le> FRAGMENT_LAST"

text \<open>The part of \<open>parse_fragment_at_cursor\<close> that examines the bytes of the current block.\<close>

definition parse_in_block ::
    "crc_append \<Rightarrow> u64 \<Rightarrow> bytes \<Rightarrow> nat \<Rightarrow> bool \<Rightarrow> fragment_parse" where
  "parse_in_block crc generation block header_start stream_ended =
     (let header = byte_range header_start (header_start + WAL_FRAGMENT_HEADER_BYTES) block;
          stored_crc = le_u32 (byte_range 0 4 header);
          declared_len = le_u16 (byte_range 4 6 header);
          fragment_type = header ! 6;
          fragment_generation = le_u64 (byte_range 7 15 header)
      in if stored_crc = 0 \<and> declared_len = 0 \<and> fragment_type = 0 \<and> fragment_generation = 0
         then EndOfLog UnwrittenHeader
         else let payload_start = header_start + WAL_FRAGMENT_HEADER_BYTES;
                  payload_end = payload_start + unat declared_len
              in if WAL_BLOCK_BYTES < payload_end then ParseCorrupt (LengthOverflowsBlock declared_len)
                 else if length block < payload_end then
                   (if stream_ended then ParseTorn (PayloadCutShort declared_len)
                    else ParseCorrupt PayloadCrossesBlock)
                 else let expected_crc = masked_fragment_crc crc fragment_type fragment_generation
                            (byte_range payload_start payload_end block)
                      in if stored_crc \<noteq> expected_crc
                         then ParseCorrupt (ChecksumMismatch expected_crc stored_crc)
                         else if \<not> valid_fragment_type fragment_type
                         then ParseCorrupt (InvalidFragmentType fragment_type)
                         else if fragment_generation \<noteq> generation
                         then EndOfLog (StaleGeneration fragment_generation generation)
                         else Fragment fragment_type payload_end)"

definition parse_loaded :: "crc_append \<Rightarrow> 's wal_reader \<Rightarrow> fragment_parse \<times> 's wal_reader" where
  "parse_loaded crc r =
     (let block = wr_block r; pos = wr_block_pos r; remaining = length block - pos
      in if remaining = 0 then (if wr_stream_ended r then EndOfStream else NeedNextBlock, r)
         else if WAL_BLOCK_BYTES - pos < WAL_FRAGMENT_HEADER_BYTES then
           (if \<exists>b \<in> set (byte_range pos (length block) block). b \<noteq> 0 then (ParseCorrupt TrailerNotZero, r)
            else if length block < WAL_BLOCK_BYTES then (ParseTorn TrailerCutShort, r)
            else (NeedNextBlock, r\<lparr>wr_block_pos := length block\<rparr>))
         else if remaining < WAL_FRAGMENT_HEADER_BYTES then (ParseTorn FragmentHeaderCutShort, r)
         else (parse_in_block crc (wr_generation r) block pos (wr_stream_ended r), r))"

definition parse_fragment_at_cursor ::
    "'s read_fn \<Rightarrow> crc_append \<Rightarrow> 's wal_reader \<Rightarrow> wal_read_error + fragment_parse \<times> 's wal_reader" where
  "parse_fragment_at_cursor rd crc r =
     (if \<not> wr_block_loaded r \<or> (wr_block_pos r = length (wr_block r) \<and> \<not> wr_stream_ended r)
      then map_sum id (parse_loaded crc) (load_next_block rd r)
      else Inr (parse_loaded crc r))"

definition live_header :: "crc_append \<Rightarrow> 's wal_reader \<Rightarrow> bool" where
  "live_header crc r =
     (let block = wr_block r;
          header = take WAL_FRAGMENT_HEADER_BYTES block;
          stored_crc = le_u32 (byte_range 0 4 header);
          payload_end = WAL_FRAGMENT_HEADER_BYTES + unat (le_u16 (byte_range 4 6 header));
          fragment_type = header ! 6;
          fragment_generation = le_u64 (byte_range 7 15 header)
      in valid_fragment_type fragment_type \<and> fragment_generation = wr_generation r \<and>
         payload_end \<le> length block \<and>
         stored_crc = masked_fragment_crc crc fragment_type fragment_generation
           (byte_range WAL_FRAGMENT_HEADER_BYTES payload_end block))"

partial_function (option) live_fragment_after ::
    "'s read_fn \<Rightarrow> crc_append \<Rightarrow> 's wal_reader \<Rightarrow> (wal_read_error + bool \<times> 's wal_reader) option" where
  "live_fragment_after rd crc r =
     (case load_next_block rd r of
        Inl e \<Rightarrow> Some (Inl e)
      | Inr r' \<Rightarrow>
          if wr_block r' = [] then Some (Inr (False, r'))
          else if WAL_FRAGMENT_HEADER_BYTES \<le> length (wr_block r') \<and> live_header crc r'
          then Some (Inr (True, r'))
          else if wr_stream_ended r' then Some (Inr (False, r'))
          else live_fragment_after rd crc r')"

definition end_of_log ::
    "'s read_fn \<Rightarrow> crc_append \<Rightarrow> 's wal_reader \<Rightarrow> nat \<Rightarrow> wal_reason \<Rightarrow>
     (wal_read_error + wal_event \<times> 's wal_reader) option" where
  "end_of_log rd crc r offset reason =
     map_option (map_sum id (\<lambda>(live, r').
         if live then (Corrupt offset (FragmentsFollowMarker reason), r')
         else (Corrupt (case wr_chain r' of None \<Rightarrow> offset | Some c \<Rightarrow> fst c) (StaleSuffix reason),
               r'\<lparr>wr_chain := None\<rparr>)))
       (live_fragment_after rd crc (r\<lparr>wr_finished := True\<rparr>))"

definition chain_violation ::
    "'s wal_reader \<Rightarrow> nat \<Rightarrow> wal_reason \<Rightarrow> wal_event \<times> 's wal_reader" where
  "chain_violation r offset reason = (Corrupt offset reason, r\<lparr>wr_finished := True\<rparr>)"

definition within_record_limit :: "'s wal_reader \<Rightarrow> nat \<Rightarrow> bool" where
  "within_record_limit r payload_len =
     (case wr_max_record_bytes r of None \<Rightarrow> True | Some limit \<Rightarrow> payload_len \<le> limit)"

definition enforce_record_limit :: "'s wal_reader \<Rightarrow> nat \<Rightarrow> wal_read_error option" where
  "enforce_record_limit r payload_len =
     (if within_record_limit r payload_len then None
      else Some (RecordLimitExceeded (case wr_max_record_bytes r of None \<Rightarrow> 0 | Some l \<Rightarrow> l)))"

text \<open>The arm of \<open>next_event\<close> for a valid fragment: \<open>Inl\<close> ends the call with a result, \<open>Inr\<close>
  continues the loop.\<close>

definition fragment_arm ::
    "'s wal_reader \<Rightarrow> nat \<Rightarrow> u8 \<Rightarrow> nat \<Rightarrow>
     (wal_read_error + wal_event \<times> 's wal_reader) + 's wal_reader" where
  "fragment_arm r0 fragment_offset fragment_type payload_end =
     (let payload_start = wr_block_pos r0 + WAL_FRAGMENT_HEADER_BYTES;
          r = r0\<lparr>wr_block_pos := payload_end\<rparr>;
          payload = byte_range payload_start payload_end (wr_block r);
          end_offset = wr_block_offset r + wr_block_pos r
      in if fragment_type = FRAGMENT_FULL then
           (if wr_chain r \<noteq> None then Inl (Inr (chain_violation r0 fragment_offset FullInterruptsChain))
            else case enforce_record_limit r (length payload) of
                   Some e \<Rightarrow> Inl (Inl e)
                 | None \<Rightarrow> Inl (Inr (Record payload fragment_offset end_offset, r)))
         else if fragment_type = FRAGMENT_FIRST then
           (if wr_chain r \<noteq> None then Inl (Inr (chain_violation r0 fragment_offset FirstInterruptsChain))
            else case enforce_record_limit r (length payload) of
                   Some e \<Rightarrow> Inl (Inl e)
                 | None \<Rightarrow> Inr (r\<lparr>wr_chain := Some (fragment_offset, payload)\<rparr>))
         else
           (case wr_chain r of
              None \<Rightarrow> Inl (Inr (Corrupt fragment_offset ContinuationWithoutFirst, r\<lparr>wr_finished := True\<rparr>))
            | Some (start_offset, acc) \<Rightarrow>
                let r' = r\<lparr>wr_chain := Some (start_offset, acc @ payload)\<rparr>
                in case enforce_record_limit r' (length (acc @ payload)) of
                     Some e \<Rightarrow> Inl (Inl e)
                   | None \<Rightarrow>
                       if fragment_type = FRAGMENT_LAST
                       then Inl (Inr (Record (acc @ payload) start_offset end_offset, r'\<lparr>wr_chain := None\<rparr>))
                       else Inr r'))"

text \<open>The loop of \<open>next_event\<close>; \<open>None\<close> would be a call that never returns.\<close>

partial_function (option) event_loop ::
    "'s read_fn \<Rightarrow> crc_append \<Rightarrow> 's wal_reader \<Rightarrow> (wal_read_error + wal_event \<times> 's wal_reader) option" where
  "event_loop rd crc r =
     (case parse_fragment_at_cursor rd crc r of
        Inl e \<Rightarrow> Some (Inl e)
      | Inr (res, r') \<Rightarrow>
          (case res of
             NeedNextBlock \<Rightarrow> event_loop rd crc r'
           | EndOfStream \<Rightarrow>
               Some (Inr (case wr_chain r' of
                            Some c \<Rightarrow> (TornTail (fst c) ChainIncomplete,
                                      r'\<lparr>wr_finished := True, wr_chain := None\<rparr>)
                          | None \<Rightarrow> (Eof, r'\<lparr>wr_finished := True\<rparr>)))
           | ParseTorn reason \<Rightarrow>
               Some (Inr (TornTail (case wr_chain r' of
                                      Some c \<Rightarrow> fst c
                                    | None \<Rightarrow> wr_block_offset r + wr_block_pos r) reason,
                          r'\<lparr>wr_finished := True, wr_chain := None\<rparr>))
           | ParseCorrupt reason \<Rightarrow>
               Some (Inr (Corrupt (wr_block_offset r + wr_block_pos r) reason,
                          r'\<lparr>wr_finished := True\<rparr>))
           | EndOfLog reason \<Rightarrow> end_of_log rd crc r' (wr_block_offset r + wr_block_pos r) reason
           | Fragment fragment_type payload_end \<Rightarrow>
               (case fragment_arm r' (wr_block_offset r + wr_block_pos r) fragment_type payload_end of
                  Inl result \<Rightarrow> Some result
                | Inr r'' \<Rightarrow> event_loop rd crc r'')))"

definition next_event ::
    "'s read_fn \<Rightarrow> crc_append \<Rightarrow> 's wal_reader \<Rightarrow> (wal_read_error + wal_event \<times> 's wal_reader) option" where
  "next_event rd crc r = (if wr_finished r then Some (Inr (Eof, r)) else event_loop rd crc r)"

section \<open>The contract of the byte source\<close>

text \<open>\<open>Read::read\<close> on a nonempty buffer delivers a nonempty piece of what is left, at most as long as
  the buffer, until nothing is left; it may fail at any time. A reliable source does not fail.\<close>

locale byte_reader =
  fixes rd :: "'s read_fn" and rest :: "'s \<Rightarrow> bytes"
  assumes read_piece: "rd s n = Some (got, s') \<Longrightarrow> 0 < n \<Longrightarrow> rest s = got @ rest s' \<and> length got \<le> n"
    and read_end: "rd s n = Some ([], s') \<Longrightarrow> 0 < n \<Longrightarrow> rest s = []"

locale reliable_reader = byte_reader +
  assumes read_ok: "0 < n \<Longrightarrow> rd s n \<noteq> None"

text \<open>The reader of the standard library over a byte slice.\<close>

definition slice_read :: "bytes read_fn" where
  "slice_read s n = Some (take n s, drop n s)"

interpretation slice_reader: reliable_reader slice_read id
  by unfold_locales (auto simp: slice_read_def)

text \<open>What the reader can still load: the rest of the stream up to the captured end.\<close>

definition wr_available :: "('s \<Rightarrow> bytes) \<Rightarrow> 's wal_reader \<Rightarrow> bytes" where
  "wr_available rest r =
     (case wr_end_offset r of
        None \<Rightarrow> rest (wr_reader r)
      | Some e \<Rightarrow> take (e - (wr_block_offset r + length (wr_block r))) (rest (wr_reader r)))"

lemma wr_available_simps [simp]:
  "wr_available rest (r\<lparr>wr_stream_ended := b\<rparr>) = wr_available rest r"
  "wr_available rest (r\<lparr>wr_block_loaded := b\<rparr>) = wr_available rest r"
  "wr_available rest (r\<lparr>wr_block_pos := n\<rparr>) = wr_available rest r"
  "wr_available rest (r\<lparr>wr_chain := c\<rparr>) = wr_available rest r"
  "wr_available rest (r\<lparr>wr_finished := b\<rparr>) = wr_available rest r"
  by (simp_all add: wr_available_def cong: option.case_cong)

text \<open>The reader stands at byte \<open>q\<close> of the log data \<open>D\<close>, the bytes after the file header: the current
  block is the block of \<open>D\<close> that starts at a multiple of the block size and the stream holds what
  follows it.\<close>

definition reader_at :: "('s \<Rightarrow> bytes) \<Rightarrow> bytes \<Rightarrow> nat \<Rightarrow> 's wal_reader \<Rightarrow> bool" where
  "reader_at rest D q r \<longleftrightarrow>
     (\<exists>s. WAL_BLOCK_BYTES dvd s \<and> wr_block_offset r = WAL_BINARY_FILE_HEADER_BYTES + s \<and>
        q = s + wr_block_pos r \<and> s \<le> length D \<and> wr_block_pos r \<le> length (wr_block r) \<and>
        wr_available rest r = drop (s + length (wr_block r)) D \<and>
        (if wr_block_loaded r
         then wr_block r = take WAL_BLOCK_BYTES (drop s D) \<and>
              wr_stream_ended r = (length (wr_block r) < WAL_BLOCK_BYTES)
         else wr_block r = [] \<and> \<not> wr_stream_ended r))"

text \<open>The block that holds byte \<open>q\<close> is loaded.\<close>

definition reader_ready :: "('s \<Rightarrow> bytes) \<Rightarrow> bytes \<Rightarrow> nat \<Rightarrow> 's wal_reader \<Rightarrow> bool" where
  "reader_ready rest D q r \<longleftrightarrow>
     reader_at rest D q r \<and> wr_block_loaded r \<and>
     (if q < length D then wr_block_pos r < length (wr_block r) else wr_stream_ended r)"

text \<open>The fields that loading a block and parsing leave alone.\<close>

definition same_session :: "'s wal_reader \<Rightarrow> 's wal_reader \<Rightarrow> bool" where
  "same_session r r' \<longleftrightarrow>
     wr_generation r' = wr_generation r \<and> wr_max_record_bytes r' = wr_max_record_bytes r \<and>
     wr_chain r' = wr_chain r \<and> wr_finished r' = wr_finished r \<and> wr_end_offset r' = wr_end_offset r"

lemma length_take_less: "length (take n xs) < n \<longleftrightarrow> length xs < n"
  by auto

lemma block_bytes_le_usize: "WAL_BLOCK_BYTES - n \<le> usize_max"
  by (simp add: wal_sizes usize_max_def)

lemma fill_request_min:
  "fill_request r = (case wr_end_offset r of
      None \<Rightarrow> WAL_BLOCK_BYTES - length (wr_block r)
    | Some e \<Rightarrow> min (e - (wr_block_offset r + length (wr_block r))) (WAL_BLOCK_BYTES - length (wr_block r)))"
  using block_bytes_le_usize [of "length (wr_block r)"]
  by (auto simp: fill_request_def Let_def min_def split: option.splits)

lemma event_loop_step:
  assumes "parse_fragment_at_cursor rd crc r = Inr (res, r')"
  shows "event_loop rd crc r =
    (case res of
       NeedNextBlock \<Rightarrow> event_loop rd crc r'
     | EndOfStream \<Rightarrow>
         Some (Inr (case wr_chain r' of
                      Some c \<Rightarrow> (TornTail (fst c) ChainIncomplete,
                                r'\<lparr>wr_finished := True, wr_chain := None\<rparr>)
                    | None \<Rightarrow> (Eof, r'\<lparr>wr_finished := True\<rparr>)))
     | ParseTorn reason \<Rightarrow>
         Some (Inr (TornTail (case wr_chain r' of
                                Some c \<Rightarrow> fst c
                              | None \<Rightarrow> wr_block_offset r + wr_block_pos r) reason,
                    r'\<lparr>wr_finished := True, wr_chain := None\<rparr>))
     | ParseCorrupt reason \<Rightarrow>
         Some (Inr (Corrupt (wr_block_offset r + wr_block_pos r) reason, r'\<lparr>wr_finished := True\<rparr>))
     | EndOfLog reason \<Rightarrow> end_of_log rd crc r' (wr_block_offset r + wr_block_pos r) reason
     | Fragment fragment_type payload_end \<Rightarrow>
         (case fragment_arm r' (wr_block_offset r + wr_block_pos r) fragment_type payload_end of
            Inl result \<Rightarrow> Some result
          | Inr r'' \<Rightarrow> event_loop rd crc r''))"
  by (subst event_loop.simps) (simp only: assms sum.case prod.case)

context byte_reader begin

lemma available_piece:
  assumes "rd (wr_reader r) (fill_request r) = Some (got, s)" "0 < fill_request r"
  shows "wr_available rest r =
      got @ wr_available rest (r\<lparr>wr_reader := s, wr_block := wr_block r @ got\<rparr>)"
    and "length got \<le> WAL_BLOCK_BYTES - length (wr_block r)"
    and "got = [] \<Longrightarrow> wr_available rest r = []"
proof -
  note p = read_piece [OF assms]
  then show "length got \<le> WAL_BLOCK_BYTES - length (wr_block r)"
    by (auto simp: fill_request_min split: option.splits)
  from p show "wr_available rest r =
      got @ wr_available rest (r\<lparr>wr_reader := s, wr_block := wr_block r @ got\<rparr>)"
    by (auto simp: wr_available_def fill_request_min add.assoc split: option.splits)
  show "wr_available rest r = []" if "got = []"
    using read_end [of "wr_reader r" "fill_request r" s] assms that
    by (simp add: wr_available_def split: option.splits)
qed

lemma fill_block_loads:
  assumes "fill_block rd r = Inr r'" "length (wr_block r) \<le> WAL_BLOCK_BYTES"
  shows "\<exists>s. r' = r\<lparr>wr_reader := s,
      wr_block := wr_block r @ take (WAL_BLOCK_BYTES - length (wr_block r)) (wr_available rest r),
      wr_stream_ended := wr_stream_ended r \<or>
        length (wr_block r @ take (WAL_BLOCK_BYTES - length (wr_block r)) (wr_available rest r)) < WAL_BLOCK_BYTES\<rparr> \<and>
    wr_available rest r' = drop (WAL_BLOCK_BYTES - length (wr_block r)) (wr_available rest r)"
  using assms
proof (induction "WAL_BLOCK_BYTES - length (wr_block r)" arbitrary: r rule: less_induct)
  case less
  consider (full) "length (wr_block r) = WAL_BLOCK_BYTES"
    | (stop) "length (wr_block r) < WAL_BLOCK_BYTES" "fill_request r = 0"
    | (eof) s where "length (wr_block r) < WAL_BLOCK_BYTES" "0 < fill_request r"
        "rd (wr_reader r) (fill_request r) = Some ([], s)"
    | (more) got s where "length (wr_block r) < WAL_BLOCK_BYTES" "0 < fill_request r" "got \<noteq> []"
        "rd (wr_reader r) (fill_request r) = Some (got, s)"
    using less.prems
    by (cases "rd (wr_reader r) (fill_request r)")
      (force simp: fill_block.simps [of rd r] split: if_splits)+
  then show ?case
  proof cases
    case full
    with less.prems have "r' = r" by (simp add: fill_block.simps [of rd r])
    with full show ?thesis by (intro exI [of _ "wr_reader r"]) simp
  next
    case stop
    then have "wr_available rest r = []"
      by (auto simp: fill_request_min wr_available_def min_def split: option.splits if_splits)
    moreover from stop less.prems have "r' = r\<lparr>wr_stream_ended := True\<rparr>"
      by (simp add: fill_block.simps [of rd r])
    ultimately show ?thesis using stop
      by (intro exI [of _ "wr_reader r"]) simp
  next
    case eof
    from available_piece(3) [OF eof(3,2)] have a: "wr_available rest r = []" by simp
    moreover from eof less.prems have "r' = r\<lparr>wr_reader := s, wr_stream_ended := True\<rparr>"
      by (simp add: fill_block.simps [of rd r])
    moreover have "wr_available rest r' = []"
      using available_piece(1) [OF eof(3,2)] a \<open>r' = _\<close> by simp
    ultimately show ?thesis using eof by (intro exI [of _ s]) simp
  next
    case more
    let ?r = "r\<lparr>wr_reader := s, wr_block := wr_block r @ got\<rparr>"
    note piece = available_piece [OF more(4,2)]
    have "fill_block rd ?r = Inr r'"
      using more less.prems by (simp add: fill_block.simps [of rd r])
    moreover have "WAL_BLOCK_BYTES - length (wr_block ?r) < WAL_BLOCK_BYTES - length (wr_block r)"
      using more by (cases got) auto
    ultimately obtain s' where
      r': "r' = ?r\<lparr>wr_reader := s',
          wr_block := wr_block ?r @ take (WAL_BLOCK_BYTES - length (wr_block ?r)) (wr_available rest ?r),
          wr_stream_ended := wr_stream_ended ?r \<or> length (wr_block ?r @
            take (WAL_BLOCK_BYTES - length (wr_block ?r)) (wr_available rest ?r)) < WAL_BLOCK_BYTES\<rparr>"
      and a': "wr_available rest r' = drop (WAL_BLOCK_BYTES - length (wr_block ?r)) (wr_available rest ?r)"
      using less.hyps [of ?r] piece(2) more(1) by fastforce
    have "take (WAL_BLOCK_BYTES - length (wr_block r)) (wr_available rest r) =
        got @ take (WAL_BLOCK_BYTES - length (wr_block ?r)) (wr_available rest ?r)"
      using piece(1,2) by simp
    moreover have "drop (WAL_BLOCK_BYTES - length (wr_block r)) (wr_available rest r) =
        drop (WAL_BLOCK_BYTES - length (wr_block ?r)) (wr_available rest ?r)"
      using piece(1,2) by simp
    ultimately show ?thesis using r' a' by (intro exI [of _ s']) simp
  qed
qed

lemma load_next_block_loads:
  assumes "load_next_block rd r = Inr r'"
  shows "wr_block r' = take WAL_BLOCK_BYTES (wr_available rest r)"
    and "wr_block_pos r' = 0"
    and "wr_block_offset r' = wr_block_offset r + length (wr_block r)"
    and "wr_stream_ended r' = (wr_stream_ended r \<or> length (wr_available rest r) < WAL_BLOCK_BYTES)"
    and "wr_block_loaded r'"
    and "wr_available rest r' = drop WAL_BLOCK_BYTES (wr_available rest r)"
    and "same_session r r'"
proof -
  let ?r = "r\<lparr>wr_block_offset := wr_block_offset r + length (wr_block r), wr_block := [],
      wr_block_pos := 0\<rparr>"
  have a: "wr_available rest ?r = wr_available rest r"
    by (simp add: wr_available_def split: option.splits)
  obtain r1 where f: "fill_block rd ?r = Inr r1" and r': "r' = r1\<lparr>wr_block_loaded := True\<rparr>"
    using assms by (auto simp: load_next_block_def map_sum_Inr_iff)
  from fill_block_loads [OF f] obtain s where "r1 = ?r\<lparr>wr_reader := s,
      wr_block := take WAL_BLOCK_BYTES (wr_available rest r),
      wr_stream_ended := wr_stream_ended r \<or> length (wr_available rest r) < WAL_BLOCK_BYTES\<rparr>"
    and a1: "wr_available rest r1 = drop WAL_BLOCK_BYTES (wr_available rest r)"
    unfolding a by (auto simp: length_take_less simp del: length_take)
  then show "wr_block r' = take WAL_BLOCK_BYTES (wr_available rest r)" "wr_block_pos r' = 0"
    "wr_block_offset r' = wr_block_offset r + length (wr_block r)"
    "wr_stream_ended r' = (wr_stream_ended r \<or> length (wr_available rest r) < WAL_BLOCK_BYTES)"
    "wr_block_loaded r'" "same_session r r'"
    by (simp_all add: r' same_session_def)
  from a1 show "wr_available rest r' = drop WAL_BLOCK_BYTES (wr_available rest r)"
    by (simp add: r')
qed

lemma parse_normalised:
  assumes "reader_at rest D q r" "parse_fragment_at_cursor rd crc r = Inr y"
  obtains r1 where "y = parse_loaded crc r1" "reader_ready rest D q r1" "same_session r r1"
proof (cases "\<not> wr_block_loaded r \<or> (wr_block_pos r = length (wr_block r) \<and> \<not> wr_stream_ended r)")
  case True
  obtain s where s: "WAL_BLOCK_BYTES dvd s" "wr_block_offset r = WAL_BINARY_FILE_HEADER_BYTES + s"
    "q = s + wr_block_pos r" "s \<le> length D" "wr_available rest r = drop (s + length (wr_block r)) D"
    using assms(1) by (auto simp: reader_at_def)
  obtain r1 where l: "load_next_block rd r = Inr r1" and y: "y = parse_loaded crc r1"
    using assms(2) True by (auto simp: parse_fragment_at_cursor_def map_sum_Inr_iff)
  note ld = load_next_block_loads [OF l]
  have b: "wr_block_pos r = length (wr_block r)" "\<not> wr_stream_ended r"
    and len: "length (wr_block r) = 0 \<or> length (wr_block r) = WAL_BLOCK_BYTES"
    and q: "q \<le> length D"
    using assms(1) True by (auto simp: reader_at_def split: if_splits)
  have "WAL_BLOCK_BYTES dvd q" using s(1,3) b(1) len by auto
  then have at: "reader_at rest D q r1"
    using ld s b(2) q unfolding reader_at_def
    by (intro exI [of _ q]) (auto simp: b(1) add.commute [of WAL_BLOCK_BYTES])
  have "reader_ready rest D q r1"
    using at ld(1,2,4,5) s(5) b q s(3) by (simp add: reader_ready_def)
  then show thesis by (rule that [OF y _ ld(7)])
next
  case False
  with assms(2) have "y = parse_loaded crc r" by (auto simp: parse_fragment_at_cursor_def)
  moreover have "if q < length D then wr_block_pos r < length (wr_block r) else wr_stream_ended r"
  proof -
    obtain s where "q = s + wr_block_pos r" "wr_block_pos r \<le> length (wr_block r)" "s \<le> length D"
      "length (wr_block r) = min WAL_BLOCK_BYTES (length D - s)"
      "wr_stream_ended r = (length (wr_block r) < WAL_BLOCK_BYTES)"
      using False assms(1) by (force simp: reader_at_def)
    then show ?thesis using False by (simp split: if_splits) linarith
  qed
  then have "reader_ready rest D q r"
    using False assms(1) by (simp add: reader_ready_def)
  moreover have "same_session r r" by (simp add: same_session_def)
  ultimately show thesis by (rule that)
qed

text \<open>A reader over a log always answers: each turn of the loop of \<open>next_event\<close> either ends the call
  or moves forward in the data.\<close>

lemma reader_at_offset:
  "reader_at rest D q r \<Longrightarrow> wr_block_offset r + wr_block_pos r = WAL_BINARY_FILE_HEADER_BYTES + q"
  by (auto simp: reader_at_def)

lemma reader_at_advance:
  assumes "reader_at rest D q r" "wr_block_loaded r" "n \<le> length (wr_block r)" "wr_block_pos r \<le> n"
  shows "reader_at rest D (q + (n - wr_block_pos r)) (r\<lparr>wr_block_pos := n\<rparr>)"
  using assms unfolding reader_at_def
  by (elim exE, intro exI, elim conjE) (simp add: reader_at_def)

lemma reader_at_chain: "reader_at rest D q (r\<lparr>wr_chain := c\<rparr>) = reader_at rest D q r"
  by (simp add: reader_at_def)

lemma parse_progress:
  assumes "reader_ready rest D q r1" "parse_loaded crc r1 = (res, r')"
  shows "same_session r1 r'"
    and "res = NeedNextBlock \<Longrightarrow> \<exists>q' > q. reader_at rest D q' r' \<and> q < length D"
    and "res = Fragment t pe \<Longrightarrow> r' = r1 \<and> wr_block_pos r1 < pe \<and> pe \<le> length (wr_block r1) \<and> q < length D"
    and "res \<noteq> NeedNextBlock \<Longrightarrow> r' = r1"
proof -
  have inside: "q < length D" if "wr_block_pos r1 < length (wr_block r1)"
    using assms(1) that by (auto simp: reader_ready_def reader_at_def)
  show "same_session r1 r'" "res \<noteq> NeedNextBlock \<Longrightarrow> r' = r1"
    using assms(2) by (auto simp: parse_loaded_def Let_def same_session_def split: if_splits)
  show "res = Fragment t pe \<Longrightarrow>
      r' = r1 \<and> wr_block_pos r1 < pe \<and> pe \<le> length (wr_block r1) \<and> q < length D"
    using assms(2) inside
    by (auto simp: parse_loaded_def parse_in_block_def Let_def not_less wal_sizes split: if_splits)
  assume "res = NeedNextBlock"
  moreover have "parse_in_block crc g b n e \<noteq> NeedNextBlock" for g b n e
    by (simp add: parse_in_block_def Let_def)
  ultimately have less: "wr_block_pos r1 < length (wr_block r1)"
    and r': "r' = r1\<lparr>wr_block_pos := length (wr_block r1)\<rparr>"
    using assms by (auto simp: parse_loaded_def reader_ready_def Let_def not_less split: if_splits)
  have "reader_at rest D q r1" "wr_block_loaded r1" using assms(1) by (simp_all add: reader_ready_def)
  from reader_at_advance [OF this order.refl] less
  have "reader_at rest D (q + (length (wr_block r1) - wr_block_pos r1)) r'" by (simp add: r')
  moreover have "q < q + (length (wr_block r1) - wr_block_pos r1)" using less by simp
  ultimately show "\<exists>q' > q. reader_at rest D q' r' \<and> q < length D"
    using inside [OF less] by blast
qed

lemma live_fragment_after_returns: "\<exists>y. live_fragment_after rd crc r = Some y"
proof (induction "length (wr_available rest r)" arbitrary: r rule: less_induct)
  case less
  show ?case
  proof (cases "load_next_block rd r")
    case (Inl e)
    then show ?thesis by (simp add: live_fragment_after.simps [of rd crc r])
  next
    case (Inr r')
    note l = load_next_block_loads [OF Inr]
    show ?thesis
    proof (cases "wr_block r' = []")
      case True
      then show ?thesis by (simp add: live_fragment_after.simps [of rd crc r] Inr)
    next
      case False
      with l(1,6) have "length (wr_available rest r') < length (wr_available rest r)" by auto
      from less [OF this] show ?thesis
        by (auto simp: live_fragment_after.simps [of rd crc r] Inr)
    qed
  qed
qed

lemma fragment_arm_continues:
  assumes "fragment_arm r off t pe = Inr r''"
  shows "\<exists>c. r'' = r\<lparr>wr_block_pos := pe, wr_chain := c\<rparr>"
  using assms by (auto simp: fragment_arm_def Let_def split: if_splits option.splits)

lemma event_loop_returns:
  assumes "reader_at rest D q r"
  shows "\<exists>y. event_loop rd crc r = Some y"
  using assms
proof (induction "length D - q" arbitrary: q r rule: less_induct)
  case less
  show ?case
  proof (cases "parse_fragment_at_cursor rd crc r")
    case (Inl e)
    then show ?thesis by (simp add: event_loop.simps [of rd crc r])
  next
    case (Inr y)
    obtain r1 where y: "y = parse_loaded crc r1" and ready: "reader_ready rest D q r1"
      by (rule parse_normalised [OF less.prems Inr])
    then have at: "reader_at rest D q r1" "wr_block_loaded r1" by (simp_all add: reader_ready_def)
    obtain res r' where p: "parse_loaded crc r1 = (res, r')" by (cases "parse_loaded crc r1")
    then have pr: "parse_fragment_at_cursor rd crc r = Inr (res, r')" using Inr y by simp
    note pp = parse_progress [OF ready p]
    have again: "\<exists>y. event_loop rd crc r2 = Some y"
      if "reader_at rest D q' r2" "q < q'" "q < length D" for q' r2
      using less.hyps [OF _ that(1)] that(2,3) by simp
    show ?thesis
    proof (cases res)
      case NeedNextBlock
      from pp(2) [OF this] obtain q' where "reader_at rest D q' r'" "q < q'" "q < length D" by blast
      then have "\<exists>y. event_loop rd crc r' = Some y" by (rule again)
      then show ?thesis by (simp add: event_loop_step [OF pr] NeedNextBlock)
    next
      case (Fragment t pe)
      show ?thesis
      proof (cases "fragment_arm r' (wr_block_offset r + wr_block_pos r) t pe")
        case (Inr r'')
        from fragment_arm_continues [OF this] pp(3) [OF Fragment]
        obtain c where "r'' = r1\<lparr>wr_block_pos := pe, wr_chain := c\<rparr>" by auto
        then have "reader_at rest D (q + (pe - wr_block_pos r1)) r''"
          using reader_at_advance [OF at, of pe] pp(3) [OF Fragment] by (simp add: reader_at_chain)
        then have "\<exists>y. event_loop rd crc r'' = Some y"
          by (rule again) (use pp(3) [OF Fragment] in linarith)+
        then show ?thesis
          using Inr by (simp add: event_loop_step [OF pr] Fragment)
      qed (simp add: event_loop_step [OF pr] Fragment)
    next
      case (EndOfLog reason)
      with live_fragment_after_returns [of crc "r'\<lparr>wr_finished := True\<rparr>"] show ?thesis
        by (auto simp: event_loop_step [OF pr] end_of_log_def)
    qed (simp_all add: event_loop_step [OF pr])
  qed
qed

end

end
