(* ===== verification/Wal_Log.thy ===== *)
theory Wal_Log
  imports Wal_Frame
begin

text \<open>
  What a reader gets back from a log: every record that was framed into it, in order and with the
  byte range it occupies; and from a log cut at an arbitrary byte, the records that lie completely
  before the cut, followed by a torn tail that starts at or after the last of them.
\<close>

section \<open>Parsing one fragment\<close>

definition fragment_header :: "u32 \<Rightarrow> u16 \<Rightarrow> u8 \<Rightarrow> u64 \<Rightarrow> bytes" where
  "fragment_header c n t g = u32_le c @ u16_le n @ [t] @ u64_le g"

lemma length_fragment_header [simp, len_simps]: "length (fragment_header c n t g) = WAL_FRAGMENT_HEADER_BYTES"
  by (simp add: fragment_header_def wal_sizes)

lemma fragment_bytes_header:
  "fragment_bytes crc g t chunk =
     fragment_header (masked_fragment_crc crc t g chunk) (of_nat (length chunk)) t g @ chunk"
  by (simp add: fragment_bytes_def fragment_header_def)

lemma length_fragment_bytes [simp, len_simps]:
  "length (fragment_bytes crc g t chunk) = WAL_FRAGMENT_HEADER_BYTES + length chunk"
  by (simp add: fragment_bytes_header)

lemma fragment_header_fields:
  "byte_range 0 4 (fragment_header c n t g) = u32_le c" "byte_range 4 6 (fragment_header c n t g) = u16_le n"
  "fragment_header c n t g ! 6 = t" "byte_range 7 15 (fragment_header c n t g) = u64_le g"
  by (simp_all add: fragment_header_def byte_range_def nth_append)

lemma valid_fragment_type_nonzero: "valid_fragment_type t \<Longrightarrow> t \<noteq> 0"
  by (auto simp: valid_fragment_type_def fragment_types)

lemma valid_fragment_types [simp]:
  "valid_fragment_type FRAGMENT_FULL" "valid_fragment_type FRAGMENT_FIRST"
  "valid_fragment_type FRAGMENT_MIDDLE" "valid_fragment_type FRAGMENT_LAST"
  "valid_fragment_type (fragment_type_of a b)"
  by (cases a; cases b; simp add: valid_fragment_type_def fragment_types fragment_type_of_def)+

text \<open>At a header whose type is valid, the parser decides by the declared length and the checksum.\<close>

lemma parse_in_block_header:
  fixes pre tail :: bytes
  assumes "valid_fragment_type t"
  shows "parse_in_block crc gen (pre @ fragment_header c n t g @ tail) (length pre) ended =
    (let payload_end = length pre + WAL_FRAGMENT_HEADER_BYTES + unat n;
         expected = masked_fragment_crc crc t g (take (unat n) tail)
     in if WAL_BLOCK_BYTES < payload_end then ParseCorrupt (LengthOverflowsBlock n)
        else if length tail < unat n then
          (if ended then ParseTorn (PayloadCutShort n) else ParseCorrupt PayloadCrossesBlock)
        else if c \<noteq> expected then ParseCorrupt (ChecksumMismatch expected c)
        else if g \<noteq> gen then EndOfLog (StaleGeneration g gen)
        else Fragment t payload_end)"
proof -
  let ?block = "pre @ fragment_header c n t g @ tail"
  have h: "byte_range (length pre) (length pre + WAL_FRAGMENT_HEADER_BYTES) ?block = fragment_header c n t g"
    by (simp add: byte_range_def)
  have b: "byte_range (length pre + WAL_FRAGMENT_HEADER_BYTES) (length pre + WAL_FRAGMENT_HEADER_BYTES + unat n) ?block =
      take (unat n) tail"
    by (simp add: byte_range_def)
  show ?thesis
    unfolding parse_in_block_def h Let_def fragment_header_fields word_bytes_roundtrip b
    using assms valid_fragment_type_nonzero [OF assms] by simp
qed

lemma parse_loaded_header:
  assumes "parse_in_block crc (wr_generation r) (wr_block r) (wr_block_pos r) (wr_stream_ended r) = res"
    and "wr_block_pos r + WAL_FRAGMENT_HEADER_BYTES \<le> length (wr_block r)"
    and "wr_block_pos r + WAL_FRAGMENT_HEADER_BYTES \<le> WAL_BLOCK_BYTES"
  shows "parse_loaded crc r = (res, r)"
proof -
  have "length (wr_block r) - wr_block_pos r \<noteq> 0"
    "\<not> length (wr_block r) - wr_block_pos r < WAL_FRAGMENT_HEADER_BYTES"
    "\<not> WAL_BLOCK_BYTES - wr_block_pos r < WAL_FRAGMENT_HEADER_BYTES"
    using assms(2,3) wal_size_bounds(3) by linarith+
  then show ?thesis
    unfolding parse_loaded_def Let_def assms(1) by (simp only: if_False)
qed

context byte_reader begin

text \<open>The block of a ready reader, seen from the position in the data.\<close>

lemma ready_block:
  assumes "reader_ready rest D q r" "q < length D"
  obtains pre where "length pre = wr_block_pos r"
    "wr_block r = pre @ take (WAL_BLOCK_BYTES - wr_block_pos r) (drop q D)"
    "wr_block_pos r = q mod WAL_BLOCK_BYTES"
    "wr_stream_ended r = (length D - q < WAL_BLOCK_BYTES - wr_block_pos r)"
proof -
  obtain s where s: "WAL_BLOCK_BYTES dvd s" "q = s + wr_block_pos r" "s \<le> length D"
    and b: "wr_block r = take WAL_BLOCK_BYTES (drop s D)"
    and p: "wr_block_pos r < length (wr_block r)"
    and e: "wr_stream_ended r = (length (wr_block r) < WAL_BLOCK_BYTES)"
    using assms unfolding reader_ready_def reader_at_def by (elim conjE exE) simp
  have "wr_block_pos r < WAL_BLOCK_BYTES" using p by (simp add: b)
  then have m: "wr_block_pos r = q mod WAL_BLOCK_BYTES"
    using s(1,2) by (simp add: mod_add_left_eq [symmetric] dvd_imp_mod_0)
  have "wr_block r = take (wr_block_pos r) (wr_block r) @ drop (wr_block_pos r) (wr_block r)" by simp
  also have "drop (wr_block_pos r) (wr_block r) = take (WAL_BLOCK_BYTES - wr_block_pos r) (drop q D)"
    by (simp add: b drop_take s(2) add.commute)
  finally have "wr_block r =
      take (wr_block_pos r) (wr_block r) @ take (WAL_BLOCK_BYTES - wr_block_pos r) (drop q D)" .
  moreover have "wr_stream_ended r = (length D - q < WAL_BLOCK_BYTES - wr_block_pos r)"
  proof -
    have "length (wr_block r) = min WAL_BLOCK_BYTES (length D - s)" by (simp add: b)
    with e p s(2,3) show ?thesis by linarith
  qed
  moreover have "length (take (wr_block_pos r) (wr_block r)) = wr_block_pos r" using p by simp
  ultimately show thesis using m by (intro that)
qed

lemma parse_complete_fragment:
  assumes "reader_ready rest D q r" "drop q D = fragment_bytes crc (wr_generation r) t chunk @ after"
    and "valid_fragment_type t"
    and "q mod WAL_BLOCK_BYTES + WAL_FRAGMENT_HEADER_BYTES + length chunk \<le> WAL_BLOCK_BYTES"
  shows "parse_loaded crc r =
      (Fragment t (wr_block_pos r + WAL_FRAGMENT_HEADER_BYTES + length chunk), r)"
    and "byte_range (wr_block_pos r + WAL_FRAGMENT_HEADER_BYTES)
      (wr_block_pos r + WAL_FRAGMENT_HEADER_BYTES + length chunk) (wr_block r) = chunk"
    and "wr_block_pos r + WAL_FRAGMENT_HEADER_BYTES + length chunk \<le> length (wr_block r)"
proof -
  have "q < length D" using arg_cong [OF assms(2), of length] by (simp add: wal_sizes)
  then obtain pre where pre: "length pre = wr_block_pos r"
    and b: "wr_block r = pre @ take (WAL_BLOCK_BYTES - wr_block_pos r) (drop q D)"
    and m: "wr_block_pos r = q mod WAL_BLOCK_BYTES"
    by (rule ready_block [OF assms(1)])
  let ?h = "fragment_header (masked_fragment_crc crc t (wr_generation r) chunk) (of_nat (length chunk)) t
    (wr_generation r)"
  obtain tail where b2: "wr_block r = pre @ ?h @ chunk @ tail"
    using b assms(2,4) m by (simp add: fragment_bytes_header)
  have n: "unat (of_nat (length chunk) :: u16) = length chunk"
    using assms(4) by (simp add: unat_of_nat wal_sizes)
  show "wr_block_pos r + WAL_FRAGMENT_HEADER_BYTES + length chunk \<le> length (wr_block r)"
    by (simp add: b2 pre)
  show "byte_range (wr_block_pos r + WAL_FRAGMENT_HEADER_BYTES)
      (wr_block_pos r + WAL_FRAGMENT_HEADER_BYTES + length chunk) (wr_block r) = chunk"
    by (simp add: b2 byte_range_def flip: pre)
  have "parse_in_block crc (wr_generation r) (wr_block r) (wr_block_pos r) (wr_stream_ended r) =
      Fragment t (wr_block_pos r + WAL_FRAGMENT_HEADER_BYTES + length chunk)"
    using assms(4) m
    unfolding b2 pre [symmetric] parse_in_block_header [OF assms(3)] n Let_def by (simp add: pre)
  then show "parse_loaded crc r =
      (Fragment t (wr_block_pos r + WAL_FRAGMENT_HEADER_BYTES + length chunk), r)"
    by (rule parse_loaded_header) (use assms(4) m in \<open>simp_all add: b2 pre\<close>)
qed

end

section \<open>Reading back a framed record\<close>

definition same_config :: "'s wal_reader \<Rightarrow> 's wal_reader \<Rightarrow> bool" where
  "same_config r r' \<longleftrightarrow>
     wr_generation r' = wr_generation r \<and> wr_max_record_bytes r' = wr_max_record_bytes r \<and>
     wr_finished r' = wr_finished r"

lemma same_config_refl [simp]: "same_config r r"
  by (simp add: same_config_def)

lemma same_config_trans [trans]: "same_config r r' \<Longrightarrow> same_config r' r'' \<Longrightarrow> same_config r r''"
  by (simp add: same_config_def)

lemma same_config_limit: "same_config r r' \<Longrightarrow> within_record_limit r' n = within_record_limit r n"
  by (simp add: same_config_def within_record_limit_def)

text \<open>What a fragment does to a pending chain: the start and the payload collected so far.\<close>

definition chain_before :: "u8 \<Rightarrow> 's wal_reader \<Rightarrow> nat \<Rightarrow> nat \<Rightarrow> bytes \<Rightarrow> bool" where
  "chain_before t r off st acc \<longleftrightarrow>
     (if t = FRAGMENT_FULL \<or> t = FRAGMENT_FIRST then wr_chain r = None \<and> st = off \<and> acc = []
      else wr_chain r = Some (st, acc))"

lemma fragment_arm_accepts:
  assumes "chain_before t r off st acc" "within_record_limit r (length (acc @ chunk))"
    and "byte_range (wr_block_pos r + WAL_FRAGMENT_HEADER_BYTES) pe (wr_block r) = chunk"
  shows "fragment_arm r off t pe =
    (if t = FRAGMENT_FULL \<or> t = FRAGMENT_LAST
     then Inl (Inr (Record (acc @ chunk) st (wr_block_offset r + pe),
                    r\<lparr>wr_block_pos := pe, wr_chain := None\<rparr>))
     else Inr (r\<lparr>wr_block_pos := pe, wr_chain := Some (st, acc @ chunk)\<rparr>))"
proof -
  have [simp]: "within_record_limit (r\<lparr>wr_block_pos := p\<rparr>) n = within_record_limit r n"
    "within_record_limit (r\<lparr>wr_block_pos := p, wr_chain := c\<rparr>) n = within_record_limit r n" for p c n
    by (simp_all add: within_record_limit_def)
  have [simp]: "r\<lparr>wr_block_pos := pe, wr_chain := None\<rparr> = r\<lparr>wr_block_pos := pe\<rparr>" if "wr_chain r = None"
    using that by (cases r) simp
  have "FRAGMENT_FULL \<noteq> FRAGMENT_FIRST" "FRAGMENT_LAST \<noteq> FRAGMENT_FULL" "FRAGMENT_LAST \<noteq> FRAGMENT_FIRST"
    by (simp_all add: fragment_types)
  with assms show ?thesis
    by (auto simp: fragment_arm_def chain_before_def enforce_record_limit_def Let_def)
qed

lemma block_pos_inside [simp]: "\<not> WAL_BLOCK_BYTES \<le> q mod WAL_BLOCK_BYTES"
  by (simp add: not_le)

text \<open>After the padding the reader stands where the writer put the first fragment.\<close>

lemma frame_start:
  assumes "bp = q mod WAL_BLOCK_BYTES"
  shows "(if frame_padding bp \<noteq> 0 then 0 else bp) = (q + frame_padding bp) mod WAL_BLOCK_BYTES"
    and "(if frame_padding bp \<noteq> 0 then 0 else bp) + WAL_FRAGMENT_HEADER_BYTES \<le> WAL_BLOCK_BYTES"
proof -
  have "q + (WAL_BLOCK_BYTES - q mod WAL_BLOCK_BYTES) = q - q mod WAL_BLOCK_BYTES + WAL_BLOCK_BYTES"
    using mod_less_eq_dividend [of q WAL_BLOCK_BYTES] mod_less_divisor [of WAL_BLOCK_BYTES q] wal_size_bounds(1)
    by linarith
  then have "(q + (WAL_BLOCK_BYTES - q mod WAL_BLOCK_BYTES)) mod WAL_BLOCK_BYTES = 0"
    by (simp add: minus_mod_eq_mult_div)
  then show "(if frame_padding bp \<noteq> 0 then 0 else bp) = (q + frame_padding bp) mod WAL_BLOCK_BYTES"
    by (simp add: assms frame_padding_def)
  show "(if frame_padding bp \<noteq> 0 then 0 else bp) + WAL_FRAGMENT_HEADER_BYTES \<le> WAL_BLOCK_BYTES"
    by (auto simp: assms frame_padding_def not_less le_diff_conv2)
qed

context reliable_reader begin

lemma fill_block_ok: "\<exists>r'. fill_block rd r = Inr r'"
proof (induction "WAL_BLOCK_BYTES - length (wr_block r)" arbitrary: r rule: less_induct)
  case less
  show ?case
  proof (cases "length (wr_block r) < WAL_BLOCK_BYTES \<and> 0 < fill_request r")
    case True
    then obtain got s where g: "rd (wr_reader r) (fill_request r) = Some (got, s)"
      using read_ok by fastforce
    show ?thesis
    proof (cases "got = []")
      case False
      with True have "WAL_BLOCK_BYTES - length (wr_block r @ got) < WAL_BLOCK_BYTES - length (wr_block r)"
        by (cases got) auto
      with less [of "r\<lparr>wr_reader := s, wr_block := wr_block r @ got\<rparr>"] True g False show ?thesis
        by (simp add: fill_block.simps [of rd r])
    qed (use True g in \<open>simp add: fill_block.simps [of rd r]\<close>)
  qed (auto simp: fill_block.simps [of rd r])
qed

lemma parse_ready:
  assumes "reader_at rest D q r"
  obtains r1 where "parse_fragment_at_cursor rd crc r = Inr (parse_loaded crc r1)"
    "reader_ready rest D q r1" "same_session r r1"
proof -
  have "\<exists>r'. load_next_block rd r = Inr r'"
    using fill_block_ok [of "r\<lparr>wr_block_offset := wr_block_offset r + length (wr_block r), wr_block := [],
      wr_block_pos := 0\<rparr>"] by (auto simp: load_next_block_def)
  then have "\<exists>y. parse_fragment_at_cursor rd crc r = Inr y"
    by (auto simp: parse_fragment_at_cursor_def)
  then obtain y where y: "parse_fragment_at_cursor rd crc r = Inr y" ..
  obtain r1 where "y = parse_loaded crc r1" "reader_ready rest D q r1" "same_session r r1"
    by (rule parse_normalised [OF assms y])
  with y show thesis by (intro that) simp_all
qed

lemma event_fragment:
  assumes at: "reader_at rest D q r"
    and bytes: "drop q D = fragment_bytes crc (wr_generation r) t chunk @ after"
    and t: "valid_fragment_type t"
    and fits: "q mod WAL_BLOCK_BYTES + WAL_FRAGMENT_HEADER_BYTES + length chunk \<le> WAL_BLOCK_BYTES"
    and chain: "chain_before t r (WAL_BINARY_FILE_HEADER_BYTES + q) st acc"
    and limit: "within_record_limit r (length (acc @ chunk))"
  obtains r' where "reader_at rest D (q + WAL_FRAGMENT_HEADER_BYTES + length chunk) r'" "same_config r r'"
    "if t = FRAGMENT_FULL \<or> t = FRAGMENT_LAST
     then wr_chain r' = None \<and>
       event_loop rd crc r = Some (Inr (Record (acc @ chunk) st
         (WAL_BINARY_FILE_HEADER_BYTES + q + WAL_FRAGMENT_HEADER_BYTES + length chunk), r'))
     else wr_chain r' = Some (st, acc @ chunk) \<and> event_loop rd crc r = event_loop rd crc r'"
proof -
  obtain r1 where p: "parse_fragment_at_cursor rd crc r = Inr (parse_loaded crc r1)"
    and ready: "reader_ready rest D q r1" and same: "same_session r r1"
    by (rule parse_ready [OF at])
  let ?pe = "wr_block_pos r1 + WAL_FRAGMENT_HEADER_BYTES + length chunk"
  from same have g: "wr_generation r1 = wr_generation r" by (simp add: same_session_def)
  note frag = parse_complete_fragment [OF ready bytes [folded g] t fits]
  have at1: "reader_at rest D q r1" "wr_block_loaded r1" using ready by (simp_all add: reader_ready_def)
  have off: "wr_block_offset r + wr_block_pos r = WAL_BINARY_FILE_HEADER_BYTES + q"
    "wr_block_offset r1 + ?pe = WAL_BINARY_FILE_HEADER_BYTES + q + WAL_FRAGMENT_HEADER_BYTES + length chunk"
    using reader_at_offset [OF at] reader_at_offset [OF at1(1)] by simp_all
  have "fragment_arm r1 (WAL_BINARY_FILE_HEADER_BYTES + q) t ?pe =
      (if t = FRAGMENT_FULL \<or> t = FRAGMENT_LAST
       then Inl (Inr (Record (acc @ chunk) st (wr_block_offset r1 + ?pe),
                      r1\<lparr>wr_block_pos := ?pe, wr_chain := None\<rparr>))
       else Inr (r1\<lparr>wr_block_pos := ?pe, wr_chain := Some (st, acc @ chunk)\<rparr>))"
    by (rule fragment_arm_accepts [OF _ _ frag(2)])
      (use chain limit same in \<open>simp_all add: chain_before_def within_record_limit_def same_session_def\<close>)
  note arm = this [unfolded off(2)]
  have adv: "reader_at rest D (q + WAL_FRAGMENT_HEADER_BYTES + length chunk) (r1\<lparr>wr_block_pos := ?pe, wr_chain := c\<rparr>)" for c
    using reader_at_advance [OF at1 frag(3)] by (simp add: reader_at_chain add.assoc)
  show thesis
    by (rule that [OF adv [of "if t = FRAGMENT_FULL \<or> t = FRAGMENT_LAST then None else Some (st, acc @ chunk)"]])
      (use same arm in \<open>simp_all add: same_config_def same_session_def event_loop_step [OF p [unfolded frag(1)]] off(1)\<close>)
qed

lemma event_frame_loop:
  assumes "reader_at rest D q r"
    and "drop q D = frame_loop crc g p first bp @ after"
    and "g = wr_generation r" "bp = q mod WAL_BLOCK_BYTES"
    and "bp + WAL_FRAGMENT_HEADER_BYTES \<le> WAL_BLOCK_BYTES"
    and "if first then wr_chain r = None \<and> st = WAL_BINARY_FILE_HEADER_BYTES + q \<and> acc = []
         else wr_chain r = Some (st, acc)"
    and "within_record_limit r (length (acc @ p))"
  shows "\<exists>r'. event_loop rd crc r =
      Some (Inr (Record (acc @ p) st
        (WAL_BINARY_FILE_HEADER_BYTES + q + length (frame_loop crc g p first bp)), r')) \<and>
    reader_at rest D (q + length (frame_loop crc g p first bp)) r' \<and> same_config r r' \<and> wr_chain r' = None"
  using assms
proof (induction crc g p first bp arbitrary: q r acc rule: frame_loop.induct)
  case (1 crc g p first bp)
  define n where "n = min (WAL_BLOCK_BYTES - bp - WAL_FRAGMENT_HEADER_BYTES) (length p)"
  define t where "t = fragment_type_of first (drop n p = [])"
  let ?frag = "fragment_bytes crc g t (take n p)"
  have fl: "frame_loop crc g p first bp =
      (if drop n p = [] then ?frag else ?frag @ frame_loop crc g (drop n p) False 0)"
    by (subst frame_loop.simps) (simp only: Let_def n_def t_def)
  have fits: "q mod WAL_BLOCK_BYTES + WAL_FRAGMENT_HEADER_BYTES + length (take n p) \<le> WAL_BLOCK_BYTES"
    using "1.prems"(4,5) by (simp add: n_def)
  have chain: "chain_before t r (WAL_BINARY_FILE_HEADER_BYTES + q) st acc"
    using "1.prems"(6)
    by (auto simp: chain_before_def t_def fragment_type_of_def fragment_types split: if_splits bool.splits)
  have limit: "within_record_limit r (length (acc @ take n p))"
    using "1.prems"(7) by (auto simp: within_record_limit_def split: option.splits)
  obtain after' where b: "drop q D = ?frag @ after'"
    using "1.prems"(2) by (simp add: fl split: if_splits)
  obtain r1 where at1: "reader_at rest D (q + WAL_FRAGMENT_HEADER_BYTES + length (take n p)) r1"
    and cfg: "same_config r r1"
    and ev: "if t = FRAGMENT_FULL \<or> t = FRAGMENT_LAST
     then wr_chain r1 = None \<and>
       event_loop rd crc r = Some (Inr (Record (acc @ take n p) st
         (WAL_BINARY_FILE_HEADER_BYTES + q + WAL_FRAGMENT_HEADER_BYTES + length (take n p)), r1))
     else wr_chain r1 = Some (st, acc @ take n p) \<and> event_loop rd crc r = event_loop rd crc r1"
    by (rule event_fragment [OF "1.prems"(1) b [unfolded "1.prems"(3)] _ fits chain limit]) (simp add: t_def)
  show ?case
  proof (cases "drop n p = []")
    case True
    then have "t = FRAGMENT_FULL \<or> t = FRAGMENT_LAST" "take n p = p"
      by (auto simp: t_def fragment_type_of_def split: bool.splits)
    with True ev at1 cfg show ?thesis by (auto simp: fl add.assoc)
  next
    case False
    then have nt: "\<not> (t = FRAGMENT_FULL \<or> t = FRAGMENT_LAST)"
      by (auto simp: t_def fragment_type_of_def fragment_types split: bool.splits)
    from False have n: "n = WAL_BLOCK_BYTES - bp - WAL_FRAGMENT_HEADER_BYTES" "length (take n p) = n"
      by (auto simp: n_def)
    let ?q = "q + WAL_FRAGMENT_HEADER_BYTES + length (take n p)"
    have "?q = q - q mod WAL_BLOCK_BYTES + WAL_BLOCK_BYTES"
      using "1.prems"(4,5) n mod_less_eq_dividend [of q WAL_BLOCK_BYTES] by linarith
    then have q0: "0 = ?q mod WAL_BLOCK_BYTES" by (simp add: minus_mod_eq_mult_div)
    have "drop ?q D = drop (length ?frag) (drop q D)" by (simp add: ac_simps)
    then have d: "drop ?q D = frame_loop crc g (drop n p) False 0 @ after"
      using "1.prems"(2) False by (simp only: fl if_False append_assoc append_eq_conv_conj [symmetric] drop_append) simp
    have "\<exists>r'. event_loop rd crc r1 =
        Some (Inr (Record ((acc @ take n p) @ drop n p) st
          (WAL_BINARY_FILE_HEADER_BYTES + ?q + length (frame_loop crc g (drop n p) False 0)), r')) \<and>
      reader_at rest D (?q + length (frame_loop crc g (drop n p) False 0)) r' \<and> same_config r1 r' \<and>
      wr_chain r' = None"
      by (rule "1.IH" [OF refl n_def refl refl refl, folded n_def, OF False at1 d _ q0])
        (use cfg ev nt "1.prems"(3,7) in \<open>simp_all add: same_config_def within_record_limit_def\<close>)
    with ev nt cfg False show ?thesis
      by (auto simp: fl add.assoc intro: same_config_trans)
  qed
qed

lemma parse_trailer:
  assumes "reader_ready rest D q r" "WAL_BLOCK_BYTES < q mod WAL_BLOCK_BYTES + WAL_FRAGMENT_HEADER_BYTES"
    and "drop q D = replicate (WAL_BLOCK_BYTES - q mod WAL_BLOCK_BYTES) 0 @ after"
  shows "parse_loaded crc r = (NeedNextBlock, r\<lparr>wr_block_pos := length (wr_block r)\<rparr>)"
    and "reader_at rest D (q + (WAL_BLOCK_BYTES - q mod WAL_BLOCK_BYTES)) (r\<lparr>wr_block_pos := length (wr_block r)\<rparr>)"
proof -
  have lt: "q mod WAL_BLOCK_BYTES < WAL_BLOCK_BYTES" by simp
  then have q: "q < length D" using assms(3) by (cases "q < length D") auto
  obtain pre where pre: "length pre = wr_block_pos r"
    and b: "wr_block r = pre @ take (WAL_BLOCK_BYTES - wr_block_pos r) (drop q D)"
    and m: "wr_block_pos r = q mod WAL_BLOCK_BYTES"
    by (rule ready_block [OF assms(1) q])
  have b2: "wr_block r = pre @ replicate (WAL_BLOCK_BYTES - wr_block_pos r) 0"
    using b assms(3) m by simp
  then have "length (wr_block r) = WAL_BLOCK_BYTES" using pre m lt by simp
  moreover have "byte_range (wr_block_pos r) WAL_BLOCK_BYTES (wr_block r) = replicate (WAL_BLOCK_BYTES - wr_block_pos r) 0"
    by (simp add: b2 byte_range_def flip: pre)
  ultimately show "parse_loaded crc r = (NeedNextBlock, r\<lparr>wr_block_pos := length (wr_block r)\<rparr>)"
    using assms(2) m lt by (simp add: parse_loaded_def Let_def less_diff_conv2)
  show "reader_at rest D (q + (WAL_BLOCK_BYTES - q mod WAL_BLOCK_BYTES)) (r\<lparr>wr_block_pos := length (wr_block r)\<rparr>)"
    using reader_at_advance [of D q r "length (wr_block r)"] assms(1) lt \<open>length (wr_block r) = _\<close> m
    by (simp add: reader_ready_def)
qed

lemma parse_end:
  assumes "reader_ready rest D q r" "length D \<le> q"
  shows "parse_loaded crc r = (EndOfStream, r)"
proof -
  have "length (wr_block r) \<le> wr_block_pos r" "wr_stream_ended r"
    using assms by (auto simp: reader_ready_def reader_at_def)
  then show ?thesis by (simp add: parse_loaded_def)
qed

lemma parse_trailer_cut:
  assumes "reader_ready rest D q r" "WAL_BLOCK_BYTES < q mod WAL_BLOCK_BYTES + WAL_FRAGMENT_HEADER_BYTES"
    and "drop q D = replicate k 0" "0 < k" "k < WAL_BLOCK_BYTES - q mod WAL_BLOCK_BYTES"
  shows "parse_loaded crc r = (ParseTorn TrailerCutShort, r)"
proof -
  have q: "q < length D" using arg_cong [OF assms(3), of length] assms(4) by simp
  obtain pre where pre: "length pre = wr_block_pos r"
    and b: "wr_block r = pre @ take (WAL_BLOCK_BYTES - wr_block_pos r) (drop q D)"
    and m: "wr_block_pos r = q mod WAL_BLOCK_BYTES"
    by (rule ready_block [OF assms(1) q])
  have b2: "wr_block r = pre @ replicate k 0" using b assms(3,5) m by simp
  then have "length (wr_block r) = wr_block_pos r + k" using pre by simp
  moreover have "byte_range (wr_block_pos r) (wr_block_pos r + k) (wr_block r) = replicate k 0"
    by (simp add: b2 byte_range_def flip: pre)
  ultimately show ?thesis
    using assms(2,4,5) m by (simp add: parse_loaded_def Let_def less_diff_conv2)
qed

lemma parse_fragment_cut:
  assumes "reader_ready rest D q r" "drop q D = take k (fragment_bytes crc g t chunk)"
    and "valid_fragment_type t" "0 < k" "k < WAL_FRAGMENT_HEADER_BYTES + length chunk"
    and "q mod WAL_BLOCK_BYTES + WAL_FRAGMENT_HEADER_BYTES + length chunk \<le> WAL_BLOCK_BYTES"
  shows "\<exists>reason. parse_loaded crc r = (ParseTorn reason, r)"
proof -
  have len: "length (drop q D) = k" using assms(2,5) by simp
  then have q: "q < length D" using assms(4) by simp
  obtain pre where pre: "length pre = wr_block_pos r"
    and b: "wr_block r = pre @ take (WAL_BLOCK_BYTES - wr_block_pos r) (drop q D)"
    and m: "wr_block_pos r = q mod WAL_BLOCK_BYTES"
    and e: "wr_stream_ended r = (length D - q < WAL_BLOCK_BYTES - wr_block_pos r)"
    by (rule ready_block [OF assms(1) q])
  have ended: "wr_stream_ended r" using e len assms(5,6) m by simp
  have b2: "wr_block r = pre @ take k (fragment_bytes crc g t chunk)"
    using b assms(2,5,6) len m by (simp add: take_all)
  then have lb: "length (wr_block r) = wr_block_pos r + k" using pre assms(5) by simp
  show ?thesis
  proof (cases "k < WAL_FRAGMENT_HEADER_BYTES")
    case True
    have "\<not> WAL_BLOCK_BYTES - wr_block_pos r < WAL_FRAGMENT_HEADER_BYTES"
      "length (wr_block r) - wr_block_pos r \<noteq> 0" "length (wr_block r) - wr_block_pos r = k"
      using lb assms(4,6) m by linarith+
    with True show ?thesis unfolding parse_loaded_def Let_def by (simp only: if_False if_True) blast
  next
    case False
    let ?h = "fragment_header (masked_fragment_crc crc t g chunk) (of_nat (length chunk)) t g"
    have b3: "wr_block r = pre @ ?h @ take (k - WAL_FRAGMENT_HEADER_BYTES) chunk"
      using b2 False by (simp add: fragment_bytes_header)
    have n: "unat (of_nat (length chunk) :: u16) = length chunk"
      using assms(6) by (simp add: unat_of_nat wal_sizes)
    have "parse_in_block crc (wr_generation r) (wr_block r) (wr_block_pos r) (wr_stream_ended r) =
        ParseTorn (PayloadCutShort (of_nat (length chunk)))"
      unfolding b3 pre [symmetric] parse_in_block_header [OF assms(3)] n Let_def
      using assms(5,6) m pre ended False by (simp add: min_def)
    from parse_loaded_header [OF this] show ?thesis using lb False assms(6) m by auto
  qed
qed

lemma event_end:
  assumes "reader_at rest D q r" "length D \<le> q"
  shows "\<exists>r'. event_loop rd crc r =
    Some (Inr (case wr_chain r of None \<Rightarrow> Eof | Some c \<Rightarrow> TornTail (fst c) ChainIncomplete, r'))"
proof -
  obtain r1 where p: "parse_fragment_at_cursor rd crc r = Inr (parse_loaded crc r1)"
    and ready: "reader_ready rest D q r1" and same: "same_session r r1"
    by (rule parse_ready [OF assms(1)])
  from p have "parse_fragment_at_cursor rd crc r = Inr (EndOfStream, r1)"
    by (simp add: parse_end [OF ready assms(2)])
  from event_loop_step [OF this] same show ?thesis
    by (auto simp: same_session_def split: option.splits)
qed

lemma event_torn:
  assumes "reader_at rest D q r"
    and "\<And>r1. reader_ready rest D q r1 \<Longrightarrow> same_session r r1 \<Longrightarrow>
      \<exists>reason. parse_loaded crc r1 = (ParseTorn reason, r1)"
  shows "\<exists>r' reason. event_loop rd crc r =
    Some (Inr (TornTail (case wr_chain r of None \<Rightarrow> WAL_BINARY_FILE_HEADER_BYTES + q | Some c \<Rightarrow> fst c) reason, r'))"
proof -
  obtain r1 where p: "parse_fragment_at_cursor rd crc r = Inr (parse_loaded crc r1)"
    and ready: "reader_ready rest D q r1" and same: "same_session r r1"
    by (rule parse_ready [OF assms(1)])
  from assms(2) [OF ready same] obtain reason where "parse_loaded crc r1 = (ParseTorn reason, r1)" ..
  with p have "parse_fragment_at_cursor rd crc r = Inr (ParseTorn reason, r1)" by simp
  from event_loop_step [OF this] same reader_at_offset [OF assms(1)] show ?thesis
    by (auto simp: same_session_def split: option.splits)
qed

text \<open>A fragment with more of its record to come fills its block and leaves the chain open.\<close>

lemma event_frame_step:
  assumes at: "reader_at rest D q r"
    and n: "n = WAL_BLOCK_BYTES - bp - WAL_FRAGMENT_HEADER_BYTES" "n < length p"
    and b: "drop q D = fragment_bytes crc (wr_generation r) (fragment_type_of first False) (take n p) @ after"
    and bp: "bp = q mod WAL_BLOCK_BYTES" "bp + WAL_FRAGMENT_HEADER_BYTES \<le> WAL_BLOCK_BYTES"
    and st: "if first then wr_chain r = None \<and> st = WAL_BINARY_FILE_HEADER_BYTES + q \<and> acc = []
         else wr_chain r = Some (st, acc)"
    and lim: "within_record_limit r (length (acc @ p))"
  obtains r1 where "reader_at rest D (q + WAL_FRAGMENT_HEADER_BYTES + n) r1" "same_config r r1"
    "wr_chain r1 = Some (st, acc @ take n p)" "event_loop rd crc r = event_loop rd crc r1"
    "0 = (q + WAL_FRAGMENT_HEADER_BYTES + n) mod WAL_BLOCK_BYTES" "drop (q + WAL_FRAGMENT_HEADER_BYTES + n) D = after"
    "within_record_limit r1 (length ((acc @ take n p) @ drop n p))"
proof -
  let ?t = "fragment_type_of first False" and ?q = "q + WAL_FRAGMENT_HEADER_BYTES + n"
  have nt: "\<not> (?t = FRAGMENT_FULL \<or> ?t = FRAGMENT_LAST)"
    by (auto simp: fragment_type_of_def fragment_types split: bool.splits)
  have len: "length (take n p) = n" using n(2) by simp
  have fits: "q mod WAL_BLOCK_BYTES + WAL_FRAGMENT_HEADER_BYTES + length (take n p) \<le> WAL_BLOCK_BYTES"
    using n(1) bp len by linarith
  have chain: "chain_before ?t r (WAL_BINARY_FILE_HEADER_BYTES + q) st acc"
    using st by (auto simp: chain_before_def fragment_type_of_def fragment_types split: if_splits bool.splits)
  have limit: "within_record_limit r (length (acc @ take n p))"
    using lim by (auto simp: within_record_limit_def split: option.splits)
  obtain r1 where at1: "reader_at rest D ?q r1" and cfg: "same_config r r1"
    and ev: "wr_chain r1 = Some (st, acc @ take n p)" "event_loop rd crc r = event_loop rd crc r1"
    by (rule event_fragment [OF at b _ fits chain limit]) (use nt len in simp_all)
  have "?q = q - q mod WAL_BLOCK_BYTES + WAL_BLOCK_BYTES"
    using bp n(1) mod_less_eq_dividend [of q WAL_BLOCK_BYTES] by linarith
  then have q0: "0 = ?q mod WAL_BLOCK_BYTES" by (simp add: minus_mod_eq_mult_div)
  have "drop ?q D = drop (WAL_FRAGMENT_HEADER_BYTES + n) (drop q D)" by (simp add: ac_simps)
  also have "\<dots> = after" using len by (simp only: b drop_append) simp
  finally have d: "drop ?q D = after" .
  have "within_record_limit r1 (length ((acc @ take n p) @ drop n p))" using lim same_config_limit [OF cfg] by simp
  with at1 cfg ev q0 d show thesis by (rule that)
qed

text \<open>A log that ends inside a record: nothing of the record, or a torn tail at its start.\<close>

lemma event_frame_loop_cut:
  assumes "reader_at rest D q r"
    and "drop q D = take k (frame_loop crc g p first bp)" "k < length (frame_loop crc g p first bp)"
    and "g = wr_generation r" "bp = q mod WAL_BLOCK_BYTES"
    and "bp + WAL_FRAGMENT_HEADER_BYTES \<le> WAL_BLOCK_BYTES"
    and "if first then wr_chain r = None \<and> st = WAL_BINARY_FILE_HEADER_BYTES + q \<and> acc = []
         else wr_chain r = Some (st, acc)"
    and "within_record_limit r (length (acc @ p))"
  shows "\<exists>r' ev. event_loop rd crc r = Some (Inr (ev, r')) \<and>
    (if first \<and> k = 0 then ev = Eof else \<exists>reason. ev = TornTail st reason)"
  using assms
proof (induction crc g p first bp arbitrary: q r acc k rule: frame_loop.induct)
  case (1 crc g p first bp)
  define n where "n = min (WAL_BLOCK_BYTES - bp - WAL_FRAGMENT_HEADER_BYTES) (length p)"
  define t where "t = fragment_type_of first (drop n p = [])"
  let ?frag = "fragment_bytes crc g t (take n p)"
  have fl: "frame_loop crc g p first bp =
      (if drop n p = [] then ?frag else ?frag @ frame_loop crc g (drop n p) False 0)"
    by (subst frame_loop.simps) (simp only: Let_def n_def t_def)
  have valid: "valid_fragment_type t" by (simp add: t_def)
  have fits: "q mod WAL_BLOCK_BYTES + WAL_FRAGMENT_HEADER_BYTES + length (take n p) \<le> WAL_BLOCK_BYTES"
    using "1.prems"(5,6) by (simp add: n_def)
  have st: "(case wr_chain r of None \<Rightarrow> WAL_BINARY_FILE_HEADER_BYTES + q | Some c \<Rightarrow> fst c) = st"
    using "1.prems"(7) by (auto split: if_splits)
  consider (none) "k = 0" | (cut) "0 < k" "k < length ?frag" | (more) "length ?frag \<le> k" "drop n p \<noteq> []"
  proof (cases "k = 0 \<or> k < length ?frag")
    case False
    then have "length ?frag \<le> k" by simp
    moreover from this "1.prems"(3) have "drop n p \<noteq> []" by (intro notI) (simp add: fl)
    ultimately show thesis by (rule that(3))
  qed (use that(1,2) in blast)
  then show ?case
  proof cases
    case none
    with "1.prems"(2) have "length D \<le> q" by simp
    from event_end [OF "1.prems"(1) this, of crc] "1.prems"(7) none show ?thesis
      by (auto split: if_splits)
  next
    case cut
    have b: "drop q D = take k ?frag" using "1.prems"(2) cut by (simp add: fl split: if_splits)
    have "\<exists>reason. parse_loaded crc r1 = (ParseTorn reason, r1)" if "reader_ready rest D q r1" for r1
      using parse_fragment_cut [OF that b valid cut(1) _ fits] cut(2) by simp
    from event_torn [OF "1.prems"(1) this] cut(1) show ?thesis unfolding st by auto
  next
    case more
    let ?q = "q + WAL_FRAGMENT_HEADER_BYTES + n"
    have n: "n = WAL_BLOCK_BYTES - bp - WAL_FRAGMENT_HEADER_BYTES" "n < length p" using more(2) by (auto simp: n_def)
    have b: "drop q D = fragment_bytes crc (wr_generation r) (fragment_type_of first False) (take n p) @
        take (k - length ?frag) (frame_loop crc g (drop n p) False 0)"
      using "1.prems"(2) more unfolding "1.prems"(4) [symmetric] by (simp add: fl t_def)
    obtain r1 where at1: "reader_at rest D ?q r1" and cfg: "same_config r r1"
      and ev: "wr_chain r1 = Some (st, acc @ take n p)" "event_loop rd crc r = event_loop rd crc r1"
      and q0: "0 = ?q mod WAL_BLOCK_BYTES" and d: "drop ?q D = take (k - length ?frag) (frame_loop crc g (drop n p) False 0)"
      and lim: "within_record_limit r1 (length ((acc @ take n p) @ drop n p))"
      by (rule event_frame_step [OF "1.prems"(1) n b "1.prems"(5-8)])
    have "\<exists>r' ev. event_loop rd crc r1 = Some (Inr (ev, r')) \<and>
        (if False \<and> k - length ?frag = 0 then ev = Eof else \<exists>reason. ev = TornTail st reason)"
    proof (rule "1.IH" [OF refl n_def refl refl refl, folded n_def, OF more(2) at1 d _ _ q0 _ _ lim])
      show "k - length ?frag < length (frame_loop crc g (drop n p) False 0)"
        using "1.prems"(3) more unfolding fl by (simp only: if_False length_append)
    qed (use cfg ev "1.prems"(4) in \<open>simp_all add: same_config_def\<close>)
    with ev(2) more(1) show ?thesis by (auto simp: wal_sizes)
  qed
qed

lemma event_padding:
  assumes "reader_at rest D q r" "drop q D = replicate (frame_padding (q mod WAL_BLOCK_BYTES)) 0 @ after"
  obtains r' where "reader_at rest D (q + frame_padding (q mod WAL_BLOCK_BYTES)) r'" "same_config r r'"
    "wr_chain r' = wr_chain r" "event_loop rd crc r = event_loop rd crc r'"
proof (cases "frame_padding (q mod WAL_BLOCK_BYTES) = 0")
  case True
  with assms(1) show thesis by (intro that [of r]) simp_all
next
  case False
  then have short: "WAL_BLOCK_BYTES < q mod WAL_BLOCK_BYTES + WAL_FRAGMENT_HEADER_BYTES"
    and pad: "frame_padding (q mod WAL_BLOCK_BYTES) = WAL_BLOCK_BYTES - q mod WAL_BLOCK_BYTES"
    by (auto simp: frame_padding_def split: if_splits)
  obtain r1 where p: "parse_fragment_at_cursor rd crc r = Inr (parse_loaded crc r1)"
    and ready: "reader_ready rest D q r1" and same: "same_session r r1"
    by (rule parse_ready [OF assms(1)])
  note tr = parse_trailer [OF ready short assms(2) [unfolded pad]]
  have "event_loop rd crc r = event_loop rd crc (r1\<lparr>wr_block_pos := length (wr_block r1)\<rparr>)"
    using p by (simp add: tr(1) event_loop_step)
  with tr(2) same show thesis
    by (intro that [of "r1\<lparr>wr_block_pos := length (wr_block r1)\<rparr>"])
      (simp_all add: pad same_config_def same_session_def)
qed

lemma event_record:
  assumes "reader_at rest D q r" "drop q D = frame_binary_wal_record crc (wr_generation r) p q @ after"
    and "wr_chain r = None" "within_record_limit r (length p)"
  shows "\<exists>r'. event_loop rd crc r =
      Some (Inr (Record p (WAL_BINARY_FILE_HEADER_BYTES + q + frame_padding (q mod WAL_BLOCK_BYTES))
        (WAL_BINARY_FILE_HEADER_BYTES + q + length (frame_binary_wal_record crc (wr_generation r) p q)), r')) \<and>
    reader_at rest D (q + length (frame_binary_wal_record crc (wr_generation r) p q)) r' \<and>
    same_config r r' \<and> wr_chain r' = None"
proof -
  let ?pad = "frame_padding (q mod WAL_BLOCK_BYTES)"
  let ?bp = "if ?pad \<noteq> 0 then 0 else q mod WAL_BLOCK_BYTES"
  have fr: "frame_binary_wal_record crc (wr_generation r) p q =
      replicate ?pad 0 @ frame_loop crc (wr_generation r) p True ?bp"
    by (simp add: frame_binary_wal_record_def Let_def)
  have d: "drop q D = replicate ?pad 0 @ frame_loop crc (wr_generation r) p True ?bp @ after"
    using assms(2) unfolding fr by simp
  obtain r1 where r1: "reader_at rest D (q + ?pad) r1" "same_config r r1" "wr_chain r1 = wr_chain r"
    "event_loop rd crc r = event_loop rd crc r1"
    by (rule event_padding [OF assms(1) d])
  have g: "wr_generation r = wr_generation r1" using r1(2) by (simp add: same_config_def)
  have d1: "drop (q + ?pad) D = frame_loop crc (wr_generation r) p True ?bp @ after"
    using arg_cong [OF d, of "drop ?pad"] by (simp add: add.commute)
  have lim: "within_record_limit r1 (length ([] @ p))"
    using assms(4) same_config_limit [OF r1(2)] by simp
  have "if True then wr_chain r1 = None \<and>
      WAL_BINARY_FILE_HEADER_BYTES + q + ?pad = WAL_BINARY_FILE_HEADER_BYTES + (q + ?pad) \<and> ([] :: bytes) = []
    else wr_chain r1 = Some (WAL_BINARY_FILE_HEADER_BYTES + q + ?pad, [])"
    using r1(3) assms(3) by simp
  from event_frame_loop [OF r1(1) d1 g frame_start [OF refl] this lim] r1(2,4) show ?thesis
    unfolding fr by (auto simp: add.assoc intro: same_config_trans)
qed

lemma event_record_cut:
  assumes "reader_at rest D q r" "drop q D = take k (frame_binary_wal_record crc (wr_generation r) p q)"
    and "k < length (frame_binary_wal_record crc (wr_generation r) p q)"
    and "wr_chain r = None" "within_record_limit r (length p)"
  shows "\<exists>r' ev. event_loop rd crc r = Some (Inr (ev, r')) \<and>
    (ev = Eof \<or> (\<exists>v reason. ev = TornTail v reason \<and>
       WAL_BINARY_FILE_HEADER_BYTES + q \<le> v \<and> v \<le> WAL_BINARY_FILE_HEADER_BYTES + q + k))"
proof -
  let ?pad = "frame_padding (q mod WAL_BLOCK_BYTES)"
  let ?bp = "if ?pad \<noteq> 0 then 0 else q mod WAL_BLOCK_BYTES"
  let ?fl = "frame_loop crc (wr_generation r) p True ?bp"
  have fr: "frame_binary_wal_record crc (wr_generation r) p q = replicate ?pad 0 @ ?fl"
    by (simp add: frame_binary_wal_record_def Let_def)
  show ?thesis
  proof (cases "k < ?pad")
    case True
    then have d: "drop q D = replicate k 0" using assms(2) unfolding fr by simp
    from True have short: "WAL_BLOCK_BYTES < q mod WAL_BLOCK_BYTES + WAL_FRAGMENT_HEADER_BYTES"
      "k < WAL_BLOCK_BYTES - q mod WAL_BLOCK_BYTES"
      by (auto simp: frame_padding_def split: if_splits)
    show ?thesis
    proof (cases "k = 0")
      case True
      then have "length D \<le> q" using d by simp
      from event_end [OF assms(1) this, of crc] assms(4) show ?thesis by auto
    next
      case False
      have "\<exists>reason. parse_loaded crc r1 = (ParseTorn reason, r1)" if "reader_ready rest D q r1" for r1
        using parse_trailer_cut [OF that short(1) d _ short(2)] False by blast
      then have "\<exists>r' reason. event_loop rd crc r =
          Some (Inr (TornTail (WAL_BINARY_FILE_HEADER_BYTES + q) reason, r'))"
        using event_torn [OF assms(1), of crc] assms(4) by simp
      then show ?thesis by fastforce
    qed
  next
    case False
    then have d: "drop q D = replicate ?pad 0 @ take (k - ?pad) ?fl"
      using assms(2) unfolding fr by simp
    obtain r1 where r1: "reader_at rest D (q + ?pad) r1" "same_config r r1" "wr_chain r1 = wr_chain r"
      "event_loop rd crc r = event_loop rd crc r1"
      by (rule event_padding [OF assms(1) d])
    have g: "wr_generation r = wr_generation r1" using r1(2) by (simp add: same_config_def)
    have d1: "drop (q + ?pad) D = take (k - ?pad) ?fl"
      using arg_cong [OF d, of "drop ?pad"] by (simp add: add.commute)
    have k: "k - ?pad < length ?fl" using assms(3) False unfolding fr by simp
    have lim: "within_record_limit r1 (length ([] @ p))"
      using assms(5) same_config_limit [OF r1(2)] by simp
    have "if True then wr_chain r1 = None \<and>
        WAL_BINARY_FILE_HEADER_BYTES + q + ?pad = WAL_BINARY_FILE_HEADER_BYTES + (q + ?pad) \<and> ([] :: bytes) = []
      else wr_chain r1 = Some (WAL_BINARY_FILE_HEADER_BYTES + q + ?pad, [])"
      using r1(3) assms(4) by simp
    from event_frame_loop_cut [OF r1(1) d1 k g frame_start [OF refl] this lim] r1(4) False show ?thesis
      by (fastforce split: if_splits)
  qed
qed

end

section \<open>Whole logs\<close>

text \<open>The bytes after the file header when the payloads are appended one after the other, the events
  these records should give, and the events of \<open>n\<close> calls of \<open>next_event\<close>.\<close>

primrec log_bytes :: "crc_append \<Rightarrow> u64 \<Rightarrow> nat \<Rightarrow> bytes list \<Rightarrow> bytes" where
  "log_bytes crc g pos [] = []"
| "log_bytes crc g pos (p # ps) =
     frame_binary_wal_record crc g p pos @
     log_bytes crc g (pos + length (frame_binary_wal_record crc g p pos)) ps"

primrec log_events :: "crc_append \<Rightarrow> u64 \<Rightarrow> nat \<Rightarrow> bytes list \<Rightarrow> wal_event list" where
  "log_events crc g pos [] = []"
| "log_events crc g pos (p # ps) =
     Record p (WAL_BINARY_FILE_HEADER_BYTES + pos + frame_padding (pos mod WAL_BLOCK_BYTES))
       (WAL_BINARY_FILE_HEADER_BYTES + pos + length (frame_binary_wal_record crc g p pos)) #
     log_events crc g (pos + length (frame_binary_wal_record crc g p pos)) ps"

definition prepend :: "wal_event list \<Rightarrow> (wal_read_error + wal_event list) option \<Rightarrow>
    (wal_read_error + wal_event list) option" where
  "prepend evs x =
     (case x of None \<Rightarrow> None | Some (Inl e) \<Rightarrow> Some (Inl e) | Some (Inr es) \<Rightarrow> Some (Inr (evs @ es)))"

primrec read_events ::
    "'s read_fn \<Rightarrow> crc_append \<Rightarrow> nat \<Rightarrow> 's wal_reader \<Rightarrow> (wal_read_error + wal_event list) option" where
  "read_events rd crc 0 r = Some (Inr [])"
| "read_events rd crc (Suc n) r =
     (case next_event rd crc r of
        None \<Rightarrow> None
      | Some (Inl e) \<Rightarrow> Some (Inl e)
      | Some (Inr (ev, r')) \<Rightarrow> prepend [ev] (read_events rd crc n r'))"

lemma prepend_simps [simp]:
  "prepend [] x = x" "prepend evs (prepend evs' x) = prepend (evs @ evs') x"
  "prepend evs (Some (Inr es)) = Some (Inr (evs @ es))"
  by (auto simp: prepend_def split: option.splits sum.splits)

primrec event_end_offset :: "wal_event \<Rightarrow> nat" where
  "event_end_offset (Record p s e) = e"
| "event_end_offset (TornTail v reason) = v"
| "event_end_offset (Corrupt v reason) = v"
| "event_end_offset Eof = 0"

lemma length_log_events [simp]: "length (log_events crc g pos ps) = length ps"
  by (induction ps arbitrary: pos) auto

lemma log_event_ends:
  "ev \<in> set (log_events crc g pos ps) \<Longrightarrow> WAL_BINARY_FILE_HEADER_BYTES + pos \<le> event_end_offset ev"
  by (induction ps arbitrary: pos) (auto, fastforce)

lemma reader_at_new:
  "rest s = D \<Longrightarrow> reader_at rest D 0 (wr_new s g limit)"
  by (simp add: reader_at_def wr_new_def wr_available_def)

lemma wr_new_simps [simp]:
  "wr_generation (wr_new s g limit) = g" "wr_chain (wr_new s g limit) = None"
  "wr_finished (wr_new s g limit) = False" "wr_max_record_bytes (wr_new s g limit) = limit"
  by (simp_all add: wr_new_def)

context reliable_reader begin

lemma read_events_log:
  assumes "reader_at rest D q r" "drop q D = log_bytes crc (wr_generation r) q ps @ after"
    and "wr_chain r = None" "\<not> wr_finished r" "\<forall>p \<in> set ps. within_record_limit r (length p)"
  shows "\<exists>r'. read_events rd crc (length ps + n) r =
      prepend (log_events crc (wr_generation r) q ps) (read_events rd crc n r') \<and>
    reader_at rest D (q + length (log_bytes crc (wr_generation r) q ps)) r' \<and>
    same_config r r' \<and> wr_chain r' = None"
  using assms
proof (induction ps arbitrary: q r)
  case Nil
  then show ?case by (intro exI [of _ r]) simp
next
  case (Cons p ps)
  let ?f = "frame_binary_wal_record crc (wr_generation r) p q"
  have d: "drop q D = ?f @ (log_bytes crc (wr_generation r) (q + length ?f) ps @ after)"
    using Cons.prems(2) by simp
  have "within_record_limit r (length p)" using Cons.prems(5) by simp
  from event_record [OF Cons.prems(1) d Cons.prems(3) this] obtain r1 where
    ev: "event_loop rd crc r = Some (Inr (Record p
        (WAL_BINARY_FILE_HEADER_BYTES + q + frame_padding (q mod WAL_BLOCK_BYTES))
        (WAL_BINARY_FILE_HEADER_BYTES + q + length ?f), r1))"
    and r1: "reader_at rest D (q + length ?f) r1" "same_config r r1" "wr_chain r1 = None" by blast
  have g: "wr_generation r1 = wr_generation r" "\<not> wr_finished r1"
    using r1(2) Cons.prems(4) by (simp_all add: same_config_def)
  have "drop (q + length ?f) D = log_bytes crc (wr_generation r1) (q + length ?f) ps @ after"
    using arg_cong [OF d, of "drop (length ?f)"] by (simp add: g add.commute)
  moreover have "\<forall>p \<in> set ps. within_record_limit r1 (length p)"
    using Cons.prems(5) same_config_limit [OF r1(2)] by simp
  ultimately obtain r' where
    "read_events rd crc (length ps + n) r1 =
      prepend (log_events crc (wr_generation r) (q + length ?f) ps) (read_events rd crc n r')"
    "reader_at rest D (q + length ?f + length (log_bytes crc (wr_generation r) (q + length ?f) ps)) r'"
    "same_config r1 r'" "wr_chain r' = None"
    using Cons.IH [OF r1(1) _ r1(3) g(2)] unfolding g(1) by blast
  with ev Cons.prems(4) r1(2) show ?case
    by (intro exI [of _ r']) (auto simp: next_event_def add.assoc intro: same_config_trans)
qed

end

lemma log_bytes_append:
  "log_bytes crc g pos (qs @ rs) =
     log_bytes crc g pos qs @ log_bytes crc g (pos + length (log_bytes crc g pos qs)) rs"
  by (induction qs arbitrary: pos) (simp_all add: add.assoc)

lemma log_events_append:
  "log_events crc g pos (qs @ rs) =
     log_events crc g pos qs @ log_events crc g (pos + length (log_bytes crc g pos qs)) rs"
  by (induction qs arbitrary: pos) (simp_all add: add.assoc)

lemma log_event_ends_le:
  "ev \<in> set (log_events crc g pos ps) \<Longrightarrow>
     event_end_offset ev \<le> WAL_BINARY_FILE_HEADER_BYTES + pos + length (log_bytes crc g pos ps)"
  by (induction ps arbitrary: pos) (auto, fastforce)

text \<open>Where a cut falls: inside the frame of one record, after all records before it.\<close>

lemma log_cut:
  assumes "k < length (log_bytes crc g pos ps)"
  obtains qs p rs where "ps = qs @ p # rs" "length (log_bytes crc g pos qs) \<le> k"
    "k < length (log_bytes crc g pos qs) +
       length (frame_binary_wal_record crc g p (pos + length (log_bytes crc g pos qs)))"
  using assms
proof (induction ps arbitrary: pos k thesis)
  case Nil
  then show ?case by simp
next
  case (Cons p ps)
  let ?f = "frame_binary_wal_record crc g p pos"
  show ?case
  proof (cases "k < length ?f")
    case True
    then show ?thesis by (intro Cons.prems(1) [of "[]" p ps]) simp_all
  next
    case False
    with Cons.prems(2) have "k - length ?f < length (log_bytes crc g (pos + length ?f) ps)" by simp
    from Cons.IH [OF _ this] obtain qs p' rs where "ps = qs @ p' # rs"
      "length (log_bytes crc g (pos + length ?f) qs) \<le> k - length ?f"
      "k - length ?f < length (log_bytes crc g (pos + length ?f) qs) +
        length (frame_binary_wal_record crc g p' (pos + length ?f + length (log_bytes crc g (pos + length ?f) qs)))"
      by metis
    with False show ?thesis
      by (intro Cons.prems(1) [of "p # qs" p' rs]) (simp_all add: add.assoc)
  qed
qed

context reliable_reader begin

lemma read_log:
  assumes "rest s = log_bytes crc g 0 ps" "\<forall>p \<in> set ps. within_record_limit (wr_new s g limit) (length p)"
  shows "read_events rd crc (length ps + 1) (wr_new s g limit) = Some (Inr (log_events crc g 0 ps @ [Eof]))"
proof -
  let ?D = "log_bytes crc g 0 ps"
  have "drop 0 ?D = log_bytes crc (wr_generation (wr_new s g limit)) 0 ps @ []" by simp
  from read_events_log [OF reader_at_new [of rest s, OF assms(1), of g limit] this _ _ assms(2), of 1]
  obtain r' where r': "read_events rd crc (length ps + 1) (wr_new s g limit) =
      prepend (log_events crc g 0 ps) (read_events rd crc 1 r')"
    "reader_at rest ?D (length ?D) r'" "same_config (wr_new s g limit) r'" "wr_chain r' = None"
    by auto
  from event_end [OF r'(2), of crc] r'(4) obtain r'' where "event_loop rd crc r' = Some (Inr (Eof, r''))"
    by auto
  with r'(1,3) show ?thesis by (simp add: next_event_def same_config_def)
qed

lemma read_cut_log:
  assumes "rest s = take k (log_bytes crc g 0 ps)"
    and "\<forall>p \<in> set ps. within_record_limit (wr_new s g limit) (length p)"
  shows "\<exists>n final. read_events rd crc (n + 1) (wr_new s g limit) =
      Some (Inr (take n (log_events crc g 0 ps) @ [final])) \<and>
    (\<forall>ev \<in> set (take n (log_events crc g 0 ps)). event_end_offset ev \<le> WAL_BINARY_FILE_HEADER_BYTES + k) \<and>
    (\<forall>ev \<in> set (drop n (log_events crc g 0 ps)). WAL_BINARY_FILE_HEADER_BYTES + k < event_end_offset ev) \<and>
    (final = Eof \<or> (\<exists>v reason. final = TornTail v reason \<and> v \<le> WAL_BINARY_FILE_HEADER_BYTES + k \<and>
      (\<forall>ev \<in> set (take n (log_events crc g 0 ps)). event_end_offset ev \<le> v)))"
proof (cases "k < length (log_bytes crc g 0 ps)")
  case False
  with assms(1) have "rest s = log_bytes crc g 0 ps" by simp
  from read_log [OF this assms(2)] False show ?thesis
    using log_event_ends_le [of _ crc g 0 ps] by (intro exI [of _ "length ps"] exI [of _ Eof]) fastforce
next
  case True
  then obtain qs p rs where ps: "ps = qs @ p # rs" and lo: "length (log_bytes crc g 0 qs) \<le> k"
    and hi: "k < length (log_bytes crc g 0 qs) +
       length (frame_binary_wal_record crc g p (0 + length (log_bytes crc g 0 qs)))"
    by (rule log_cut)
  let ?D = "take k (log_bytes crc g 0 ps)" and ?q = "length (log_bytes crc g 0 qs)"
  let ?f = "frame_binary_wal_record crc g p ?q"
  have D: "?D = log_bytes crc g 0 qs @ take (k - ?q) ?f"
    using lo hi by (simp add: ps log_bytes_append)
  have "drop 0 ?D = log_bytes crc (wr_generation (wr_new s g limit)) 0 qs @ take (k - ?q) ?f"
    by (simp only: D drop_0 wr_new_simps)
  from read_events_log [OF reader_at_new [of rest s, OF assms(1), of g limit] this, of 1] assms(2)
  obtain r' where r': "read_events rd crc (length qs + 1) (wr_new s g limit) =
      prepend (log_events crc g 0 qs) (read_events rd crc 1 r')"
    "reader_at rest ?D ?q r'" "same_config (wr_new s g limit) r'" "wr_chain r' = None"
    by (auto simp: ps)
  have gen: "wr_generation r' = g" "\<not> wr_finished r'" using r'(3) by (simp_all add: same_config_def)
  have d: "drop ?q ?D = take (k - ?q) (frame_binary_wal_record crc (wr_generation r') p ?q)"
    unfolding D gen by simp
  have "within_record_limit r' (length p)"
    using assms(2) same_config_limit [OF r'(3)] by (simp add: ps)
  from event_record_cut [OF r'(2) d _ r'(4) this] hi lo obtain r'' ev where
    ev: "event_loop rd crc r' = Some (Inr (ev, r''))"
      "ev = Eof \<or> (\<exists>v reason. ev = TornTail v reason \<and> WAL_BINARY_FILE_HEADER_BYTES + ?q \<le> v \<and>
        v \<le> WAL_BINARY_FILE_HEADER_BYTES + ?q + (k - ?q))"
    unfolding gen by force
  have tk: "take (length qs) (log_events crc g 0 ps) = log_events crc g 0 qs"
    and dr: "drop (length qs) (log_events crc g 0 ps) = log_events crc g ?q (p # rs)"
    by (simp_all add: ps log_events_append)
  have "read_events rd crc (length qs + 1) (wr_new s g limit) = Some (Inr (log_events crc g 0 qs @ [ev]))"
    using r'(1) ev(1) gen by (simp add: next_event_def)
  moreover have "event_end_offset e \<le> WAL_BINARY_FILE_HEADER_BYTES + ?q" if "e \<in> set (log_events crc g 0 qs)" for e
    using log_event_ends_le [OF that] by simp
  moreover have "WAL_BINARY_FILE_HEADER_BYTES + k < event_end_offset e" if "e \<in> set (log_events crc g ?q (p # rs))" for e
    using that hi log_event_ends [of e crc g "?q + length ?f" rs] by auto
  ultimately show ?thesis using ev(2) lo
    by (intro exI [of _ "length qs"] exI [of _ ev]) (fastforce simp: tk dr)
qed

end

section \<open>Arbitrary bytes\<close>

text \<open>A fragment the parser accepts is what the writer would have written for its payload.\<close>

lemma word_le_inverse:
  "length a = 4 \<Longrightarrow> u32_le (le_u32 a) = a" "length b = 2 \<Longrightarrow> u16_le (le_u16 b) = b"
  "length c = 8 \<Longrightarrow> u64_le (le_u64 c) = c"
  using le_nat_lt [of a] le_nat_lt [of b] le_nat_lt [of c]
  by (simp_all add: u32_le_def le_u32_def u16_le_def le_u16_def u64_le_def le_u64_def unat_of_nat le_bytes_le_nat_n)

lemma fragment_header_of_bytes:
  assumes "length h = WAL_FRAGMENT_HEADER_BYTES"
  shows "h = fragment_header (le_u32 (byte_range 0 4 h)) (le_u16 (byte_range 4 6 h)) (h ! 6)
    (le_u64 (byte_range 7 15 h))"
proof -
  have len: "length h = 15" using assms by (simp add: wal_sizes)
  have "h = take 4 h @ drop 4 h" by simp
  also have "drop 4 h = take 2 (drop 4 h) @ drop 6 h"
    using append_take_drop_id [of 2 "drop 4 h"] by simp
  also have "drop 6 h = h ! 6 # drop 7 h"
    using Cons_nth_drop_Suc [of 6 h] len by simp
  finally have "h = take 4 h @ take 2 (drop 4 h) @ h ! 6 # drop 7 h" .
  moreover have "fragment_header (le_u32 (byte_range 0 4 h)) (le_u16 (byte_range 4 6 h)) (h ! 6)
      (le_u64 (byte_range 7 15 h)) = take 4 h @ take 2 (drop 4 h) @ h ! 6 # drop 7 h"
    using len by (simp add: fragment_header_def byte_range_def word_le_inverse)
  ultimately show ?thesis by simp
qed

lemma parse_in_block_fragment:
  assumes "parse_in_block crc gen block pos ended = Fragment t pe"
    and "pos + WAL_FRAGMENT_HEADER_BYTES \<le> length block"
  shows "byte_range pos pe block =
      fragment_bytes crc gen t (byte_range (pos + WAL_FRAGMENT_HEADER_BYTES) pe block)"
    and "pos + WAL_FRAGMENT_HEADER_BYTES \<le> pe" "pe \<le> length block" "valid_fragment_type t"
proof -
  define h where "h = byte_range pos (pos + WAL_FRAGMENT_HEADER_BYTES) block"
  define n where "n = le_u16 (byte_range 4 6 h)"
  define body where "body = byte_range (pos + WAL_FRAGMENT_HEADER_BYTES) pe block"
  note eqs = assms(1) [unfolded parse_in_block_def Let_def, folded h_def, folded n_def]
  from eqs have pe: "pe = pos + WAL_FRAGMENT_HEADER_BYTES + unat n" and le: "pe \<le> length block"
    and t: "t = h ! 6" "valid_fragment_type t" and g: "gen = le_u64 (byte_range 7 15 h)"
    by (simp_all add: not_less split: if_splits)
  from eqs pe have c: "le_u32 (byte_range 0 4 h) = masked_fragment_crc crc t gen body"
    by (simp add: body_def t g split: if_splits)
  show "pos + WAL_FRAGMENT_HEADER_BYTES \<le> pe" "pe \<le> length block" "valid_fragment_type t"
    using pe le t by simp_all
  have lb: "length body = unat n" using pe le by (simp add: body_def byte_range_def)
  have "length h = WAL_FRAGMENT_HEADER_BYTES" using assms(2) by (simp add: h_def byte_range_def)
  from fragment_header_of_bytes [OF this]
  have "h = fragment_header (masked_fragment_crc crc t gen body) (of_nat (length body)) t gen"
    unfolding c g [symmetric] t(1) [symmetric] n_def [symmetric] by (simp add: lb)
  moreover have "byte_range pos pe block = h @ body"
    using pe by (simp add: h_def body_def byte_range_def take_add add.commute [of WAL_FRAGMENT_HEADER_BYTES pos])
  ultimately show "byte_range pos pe block =
      fragment_bytes crc gen t (byte_range (pos + WAL_FRAGMENT_HEADER_BYTES) pe block)"
    by (simp add: fragment_bytes_header body_def)
qed

text \<open>The payloads of fragments that stand in the data with their checksums.\<close>

definition checked_chunks :: "crc_append \<Rightarrow> u64 \<Rightarrow> bytes \<Rightarrow> bytes \<Rightarrow> bool" where
  "checked_chunks crc g D p \<longleftrightarrow>
     (\<exists>chunks. p = concat (map snd chunks) \<and>
        (\<forall>(t, chunk) \<in> set chunks. valid_fragment_type t \<and>
           (\<exists>q. take (length (fragment_bytes crc g t chunk)) (drop q D) = fragment_bytes crc g t chunk)))"

lemma checked_chunks_Nil [simp]: "checked_chunks crc g D []"
  by (auto simp: checked_chunks_def intro: exI [of _ "[]"])

lemma checked_chunks_snoc:
  assumes "checked_chunks crc g D p" "valid_fragment_type t"
    and "take (length (fragment_bytes crc g t chunk)) (drop q D) = fragment_bytes crc g t chunk"
  shows "checked_chunks crc g D (p @ chunk)"
proof -
  obtain chunks where "p = concat (map snd chunks)"
    "\<forall>(t, chunk) \<in> set chunks. valid_fragment_type t \<and>
       (\<exists>q. take (length (fragment_bytes crc g t chunk)) (drop q D) = fragment_bytes crc g t chunk)"
    using assms(1) by (auto simp: checked_chunks_def)
  with assms(2,3) show ?thesis
    unfolding checked_chunks_def by (intro exI [of _ "chunks @ [(t, chunk)]"]) auto
qed

definition chain_checked :: "crc_append \<Rightarrow> bytes \<Rightarrow> 's wal_reader \<Rightarrow> bool" where
  "chain_checked crc D r \<longleftrightarrow>
     (case wr_chain r of None \<Rightarrow> True | Some c \<Rightarrow> checked_chunks crc (wr_generation r) D (snd c))"

lemma fragment_arm_sound:
  assumes "chain_checked crc D r" "valid_fragment_type t"
    and "take (length (fragment_bytes crc (wr_generation r) t chunk)) (drop q D) =
      fragment_bytes crc (wr_generation r) t chunk"
    and "chunk = byte_range (wr_block_pos r + WAL_FRAGMENT_HEADER_BYTES) pe (wr_block r)"
  shows "fragment_arm r off t pe = Inl (Inr (ev, r')) \<Longrightarrow>
      (\<forall>p st e. ev = Record p st e \<longrightarrow> checked_chunks crc (wr_generation r) D p) \<and>
      (wr_finished r' \<or> r' = r\<lparr>wr_block_pos := pe, wr_chain := None\<rparr>)"
    and "fragment_arm r off t pe = Inr r'' \<Longrightarrow>
      chain_checked crc D r'' \<and> wr_generation r'' = wr_generation r \<and>
      (\<exists>c. r'' = r\<lparr>wr_block_pos := pe, wr_chain := c\<rparr>)"
proof -
  have nochain: "r\<lparr>wr_block_pos := pe\<rparr> = r\<lparr>wr_block_pos := pe, wr_chain := None\<rparr>" if "wr_chain r = None"
    using that by (cases r) simp
  have one: "checked_chunks crc (wr_generation r) D chunk"
    using checked_chunks_snoc [OF checked_chunks_Nil assms(2,3)] by simp
  have snoc: "checked_chunks crc (wr_generation r) D (acc @ chunk)" if "wr_chain r = Some (st, acc)" for st acc
    using assms(1) that checked_chunks_snoc [OF _ assms(2,3), of acc] by (simp add: chain_checked_def)
  show "fragment_arm r off t pe = Inl (Inr (ev, r')) \<Longrightarrow>
      (\<forall>p st e. ev = Record p st e \<longrightarrow> checked_chunks crc (wr_generation r) D p) \<and>
      (wr_finished r' \<or> r' = r\<lparr>wr_block_pos := pe, wr_chain := None\<rparr>)"
    using one snoc nochain assms(4)
    by (cases "wr_chain r")
      (auto simp: fragment_arm_def chain_violation_def Let_def split: if_splits option.splits)
  show "fragment_arm r off t pe = Inr r'' \<Longrightarrow>
      chain_checked crc D r'' \<and> wr_generation r'' = wr_generation r \<and>
      (\<exists>c. r'' = r\<lparr>wr_block_pos := pe, wr_chain := c\<rparr>)"
    using one snoc assms(4)
    by (auto simp: fragment_arm_def chain_checked_def Let_def split: if_splits option.splits)
qed

context byte_reader begin

lemma ready_fragment_bytes:
  assumes "reader_ready rest D q r" "parse_loaded crc r = (Fragment t pe, r')"
  shows "take (pe - wr_block_pos r) (drop q D) = fragment_bytes crc (wr_generation r) t
      (byte_range (wr_block_pos r + WAL_FRAGMENT_HEADER_BYTES) pe (wr_block r))"
    and "valid_fragment_type t"
proof -
  have pi: "parse_in_block crc (wr_generation r) (wr_block r) (wr_block_pos r) (wr_stream_ended r) = Fragment t pe"
    and h: "wr_block_pos r + WAL_FRAGMENT_HEADER_BYTES \<le> length (wr_block r)"
    using assms(2) by (auto simp: parse_loaded_def Let_def not_less split: if_splits)
  note pf = parse_in_block_fragment [OF pi h]
  then show "valid_fragment_type t" by simp
  have q: "q < length D" using parse_progress(3) [OF assms] by simp
  obtain pre where pre: "length pre = wr_block_pos r"
    and b: "wr_block r = pre @ take (WAL_BLOCK_BYTES - wr_block_pos r) (drop q D)"
    by (rule ready_block [OF assms(1) q])
  have "pe \<le> WAL_BLOCK_BYTES" using pi by (auto simp: parse_in_block_def Let_def split: if_splits)
  then have "byte_range (wr_block_pos r) pe (wr_block r) = take (pe - wr_block_pos r) (drop q D)"
    by (simp add: b byte_range_def flip: pre)
  with pf(1) show "take (pe - wr_block_pos r) (drop q D) = fragment_bytes crc (wr_generation r) t
      (byte_range (wr_block_pos r + WAL_FRAGMENT_HEADER_BYTES) pe (wr_block r))" by simp
qed

lemma live_fragment_after_session:
  assumes "live_fragment_after rd crc r = Some (Inr (b, r'))"
  shows "same_session r r'"
  using assms
proof (induction "length (wr_available rest r)" arbitrary: r rule: less_induct)
  case less
  obtain r1 where l: "load_next_block rd r = Inr r1"
    using less.prems by (cases "load_next_block rd r") (auto simp: live_fragment_after.simps [of rd crc r])
  note ld = load_next_block_loads [OF l]
  show ?case
  proof (cases "r' = r1")
    case True
    with ld(7) show ?thesis by simp
  next
    case False
    with less.prems l have ne: "wr_block r1 \<noteq> []" and again: "live_fragment_after rd crc r1 = Some (Inr (b, r'))"
      by (auto simp: live_fragment_after.simps [of rd crc r] split: if_splits)
    from ne ld(1,6) have "length (wr_available rest r1) < length (wr_available rest r)" by auto
    from less.hyps [OF this again] ld(7) show ?thesis by (simp add: same_session_def)
  qed
qed

lemma end_of_log_corrupt:
  assumes "end_of_log rd crc r off reason = Some (Inr (ev, r'))"
  shows "\<exists>v reason'. ev = Corrupt v reason' \<and> wr_finished r'"
proof -
  obtain b r1 where "live_fragment_after rd crc (r\<lparr>wr_finished := True\<rparr>) = Some (Inr (b, r1))"
    and "(ev, r') = (if b then (Corrupt off (FragmentsFollowMarker reason), r1)
         else (Corrupt (case wr_chain r1 of None \<Rightarrow> off | Some c \<Rightarrow> fst c) (StaleSuffix reason),
               r1\<lparr>wr_chain := None\<rparr>))"
    using assms by (auto simp: end_of_log_def map_sum_Inr_iff)
  with live_fragment_after_session [of crc "r\<lparr>wr_finished := True\<rparr>" b r1] show ?thesis
    by (auto simp: same_session_def split: if_splits)
qed

lemma event_loop_sound:
  assumes "reader_at rest D q r" "chain_checked crc D r" "event_loop rd crc r = Some (Inr (ev, r'))"
  shows "(\<forall>p st e. ev = Record p st e \<longrightarrow> checked_chunks crc (wr_generation r) D p) \<and>
    (wr_finished r' \<or> (\<exists>q'. reader_at rest D q' r') \<and> wr_chain r' = None \<and> wr_generation r' = wr_generation r)"
  using assms
proof (induction "length D - q" arbitrary: q r rule: less_induct)
  case less
  obtain y where y: "parse_fragment_at_cursor rd crc r = Inr y"
    using less.prems(3) by (cases "parse_fragment_at_cursor rd crc r") (auto simp: event_loop.simps [of rd crc r])
  obtain r1 where y1: "y = parse_loaded crc r1" and ready: "reader_ready rest D q r1" and same: "same_session r r1"
    by (rule parse_normalised [OF less.prems(1) y])
  obtain res r2 where p: "parse_loaded crc r1 = (res, r2)" by (cases "parse_loaded crc r1")
  with y y1 have pr: "parse_fragment_at_cursor rd crc r = Inr (res, r2)" by simp
  note step = event_loop_step [OF pr] and pp = parse_progress [OF ready p]
  have at: "reader_at rest D q r1" "wr_block_loaded r1" using ready by (simp_all add: reader_ready_def)
  have gen: "wr_generation r1 = wr_generation r" "wr_generation r2 = wr_generation r"
    and chk: "chain_checked crc D r1" "chain_checked crc D r2"
    using same pp(1) less.prems(2) by (auto simp: same_session_def chain_checked_def split: option.splits)
  show ?case
  proof (cases res)
    case NeedNextBlock
    from pp(2) [OF this] obtain q' where "q < q'" "reader_at rest D q' r2" "q < length D" by blast
    with less.hyps [of q' r2] chk(2) less.prems(3) gen step NeedNextBlock show ?thesis by simp
  next
    case (Fragment t pe)
    have r2: "r2 = r1" and pe: "wr_block_pos r1 < pe" "pe \<le> length (wr_block r1)" "q < length D"
      using pp(3) [OF Fragment] by auto
    let ?chunk = "byte_range (wr_block_pos r1 + WAL_FRAGMENT_HEADER_BYTES) pe (wr_block r1)"
    note fb = ready_fragment_bytes [OF ready p [unfolded Fragment]]
    have "length (fragment_bytes crc (wr_generation r1) t ?chunk) = length (take (pe - wr_block_pos r1) (drop q D))"
      by (simp only: fb(1))
    then have tk: "take (length (fragment_bytes crc (wr_generation r1) t ?chunk)) (drop q D) =
        fragment_bytes crc (wr_generation r1) t ?chunk"
      using fb(1) by (metis append_eq_conv_conj append_take_drop_id length_take)
    have adv: "reader_at rest D (q + (pe - wr_block_pos r1)) (r1\<lparr>wr_block_pos := pe, wr_chain := c\<rparr>)" for c
      using reader_at_advance [OF at pe(2)] pe(1) by (simp add: reader_at_chain)
    note snd = fragment_arm_sound [OF chk(1) fb(2) tk refl]
    show ?thesis
    proof (cases "fragment_arm r1 (wr_block_offset r + wr_block_pos r) t pe")
      case (Inl result)
      with less.prems(3) step Fragment r2 have "fragment_arm r1 (wr_block_offset r + wr_block_pos r) t pe = Inl (Inr (ev, r'))"
        by simp
      from snd(1) [OF this] show ?thesis using adv [of None] gen by auto
    next
      case (Inr r3)
      from snd(2) [OF Inr] adv have "reader_at rest D (q + (pe - wr_block_pos r1)) r3" "chain_checked crc D r3"
        "wr_generation r3 = wr_generation r"
        using gen by auto
      with less.hyps [of "q + (pe - wr_block_pos r1)" r3] pe less.prems(3) step Fragment r2 Inr
      show ?thesis by simp
    qed
  next
    case (EndOfLog reason)
    then have "end_of_log rd crc r2 (wr_block_offset r + wr_block_pos r) reason = Some (Inr (ev, r'))"
      using less.prems(3) step by simp
    from end_of_log_corrupt [OF this] show ?thesis by auto
  qed (use less.prems(3) step in \<open>auto split: option.splits\<close>)
qed

end

text \<open>Every reader that calls of \<open>next_event\<close> lead to is finished or stands in the data again.\<close>

context byte_reader begin

lemma read_events_arbitrary:
  assumes "wr_finished r \<or> (\<exists>q. reader_at rest D q r) \<and> wr_chain r = None \<and> wr_generation r = g"
  shows "\<exists>y. read_events rd crc n r = Some y \<and>
    (\<forall>evs p st e. y = Inr evs \<longrightarrow> Record p st e \<in> set evs \<longrightarrow> checked_chunks crc g D p)"
  using assms
proof (induction n arbitrary: r)
  case 0
  then show ?case by simp
next
  case (Suc n)
  show ?case
  proof (cases "wr_finished r")
    case True
    with Suc.IH [of r] show ?thesis by (auto simp: next_event_def prepend_def split: sum.splits)
  next
    case False
    then obtain q where at: "reader_at rest D q r" and c: "wr_chain r = None" "wr_generation r = g"
      using Suc.prems by auto
    obtain x where x: "event_loop rd crc r = Some x"
      using event_loop_returns [OF at, of crc] by auto
    show ?thesis
    proof (cases x)
      case (Inl e)
      then show ?thesis using False x by (simp add: next_event_def)
    next
      case (Inr y)
      obtain ev r' where y: "y = (ev, r')" by (cases y)
      have chk: "chain_checked crc D r" by (simp add: chain_checked_def c)
      note snd = event_loop_sound [OF at chk x [unfolded Inr y]]
      from snd c have "wr_finished r' \<or> (\<exists>q. reader_at rest D q r') \<and> wr_chain r' = None \<and> wr_generation r' = g"
        by simp
      from Suc.IH [OF this] obtain z where z: "read_events rd crc n r' = Some z"
        "\<forall>evs p st e. z = Inr evs \<longrightarrow> Record p st e \<in> set evs \<longrightarrow> checked_chunks crc g D p" by blast
      then show ?thesis
        using False x Inr y snd c(2) by (cases z) (auto simp: next_event_def prepend_def)
    qed
  qed
qed

end

section \<open>Broken fragments\<close>

text \<open>The fragments of a record one by one, and the record up to its \<open>k\<close>-th fragment.\<close>

function frame_fragments :: "crc_append \<Rightarrow> u64 \<Rightarrow> bytes \<Rightarrow> bool \<Rightarrow> nat \<Rightarrow> bytes list" where
  "frame_fragments crc generation remaining first block_pos =
     (let n = min (WAL_BLOCK_BYTES - block_pos - WAL_FRAGMENT_HEADER_BYTES) (length remaining);
          rest = drop n remaining
      in fragment_bytes crc generation (fragment_type_of first (rest = [])) (take n remaining) #
         (if rest = [] then [] else frame_fragments crc generation rest False 0))"
  by auto
termination
  by (relation "measures [\<lambda>(c, g, r, f, p). length r, \<lambda>(c, g, r, f, p). p]")
    (auto simp: wal_sizes min_def split: if_splits)

declare frame_fragments.simps [simp del]

lemma concat_frame_fragments: "concat (frame_fragments crc g p first bp) = frame_loop crc g p first bp"
  by (induction crc g p first bp rule: frame_fragments.induct)
    (simp add: frame_fragments.simps [of _ _ _ _ bp for bp] frame_loop.simps [of _ _ _ _ bp for bp] Let_def)

definition record_prefix :: "crc_append \<Rightarrow> u64 \<Rightarrow> bytes \<Rightarrow> nat \<Rightarrow> nat \<Rightarrow> bytes" where
  "record_prefix crc g p pos k =
     (let padding = frame_padding (pos mod WAL_BLOCK_BYTES) in
      replicate padding 0 @
      concat (take k (frame_fragments crc g p True (if padding \<noteq> 0 then 0 else pos mod WAL_BLOCK_BYTES))))"

definition record_fragments :: "crc_append \<Rightarrow> u64 \<Rightarrow> bytes \<Rightarrow> nat \<Rightarrow> nat" where
  "record_fragments crc g p pos =
     length (frame_fragments crc g p True
       (if frame_padding (pos mod WAL_BLOCK_BYTES) \<noteq> 0 then 0 else pos mod WAL_BLOCK_BYTES))"

lemma record_prefix_all: "record_prefix crc g p pos (record_fragments crc g p pos) = frame_binary_wal_record crc g p pos"
  by (simp add: record_prefix_def record_fragments_def frame_binary_wal_record_def Let_def concat_frame_fragments)

context reliable_reader begin

lemma event_frame_prefix:
  assumes "reader_at rest D q r"
    and "drop q D = concat (take k (frame_fragments crc g p first bp)) @ after"
    and "k < length (frame_fragments crc g p first bp)"
    and "g = wr_generation r" "bp = q mod WAL_BLOCK_BYTES"
    and "bp + WAL_FRAGMENT_HEADER_BYTES \<le> WAL_BLOCK_BYTES"
    and "if first then wr_chain r = None \<and> st = WAL_BINARY_FILE_HEADER_BYTES + q \<and> acc = []
         else wr_chain r = Some (st, acc)"
    and "within_record_limit r (length (acc @ p))"
  shows "\<exists>r'. event_loop rd crc r = event_loop rd crc r' \<and> same_config r r' \<and>
    reader_at rest D (q + length (concat (take k (frame_fragments crc g p first bp)))) r'"
  using assms
proof (induction crc g p first bp arbitrary: q r acc k rule: frame_fragments.induct)
  case (1 crc g p first bp)
  define n where "n = min (WAL_BLOCK_BYTES - bp - WAL_FRAGMENT_HEADER_BYTES) (length p)"
  let ?frag = "fragment_bytes crc g (fragment_type_of first (drop n p = [])) (take n p)"
  have ff: "frame_fragments crc g p first bp =
      ?frag # (if drop n p = [] then [] else frame_fragments crc g (drop n p) False 0)"
    by (subst frame_fragments.simps) (simp only: Let_def n_def)
  show ?case
  proof (cases k)
    case 0
    with "1.prems"(1) show ?thesis by (intro exI [of _ r]) simp
  next
    case (Suc j)
    let ?q = "q + WAL_FRAGMENT_HEADER_BYTES + n"
    have more: "drop n p \<noteq> []" using "1.prems"(3) Suc by (intro notI) (simp add: ff)
    then have n: "n = WAL_BLOCK_BYTES - bp - WAL_FRAGMENT_HEADER_BYTES" "n < length p" by (auto simp: n_def)
    have b: "drop q D = fragment_bytes crc (wr_generation r) (fragment_type_of first False) (take n p) @
        concat (take j (frame_fragments crc g (drop n p) False 0)) @ after"
      using "1.prems"(2) more Suc unfolding "1.prems"(4) [symmetric] by (simp add: ff)
    obtain r1 where at1: "reader_at rest D ?q r1" and cfg: "same_config r r1"
      and ev: "wr_chain r1 = Some (st, acc @ take n p)" "event_loop rd crc r = event_loop rd crc r1"
      and q0: "0 = ?q mod WAL_BLOCK_BYTES"
      and d: "drop ?q D = concat (take j (frame_fragments crc g (drop n p) False 0)) @ after"
      and lim: "within_record_limit r1 (length ((acc @ take n p) @ drop n p))"
      by (rule event_frame_step [OF "1.prems"(1) n b "1.prems"(5-8)])
    have "\<exists>r'. event_loop rd crc r1 = event_loop rd crc r' \<and> same_config r1 r' \<and>
        reader_at rest D (?q + length (concat (take j (frame_fragments crc g (drop n p) False 0)))) r'"
    proof (rule "1.IH" [OF n_def refl, folded n_def, OF more at1 d _ _ q0 _ _ lim])
      show "j < length (frame_fragments crc g (drop n p) False 0)" using "1.prems"(3) more Suc by (simp add: ff)
    qed (use cfg ev "1.prems"(4) in \<open>simp_all add: same_config_def\<close>)
    with ev(2) cfg more Suc n(2) show ?thesis by (auto simp: ff add.assoc intro: same_config_trans)
  qed
qed

lemma event_record_prefix:
  assumes "reader_at rest D q r" "drop q D = record_prefix crc (wr_generation r) p q k @ after"
    and "k < record_fragments crc (wr_generation r) p q" "wr_chain r = None" "within_record_limit r (length p)"
  shows "\<exists>r'. event_loop rd crc r = event_loop rd crc r' \<and> same_config r r' \<and>
    reader_at rest D (q + length (record_prefix crc (wr_generation r) p q k)) r'"
proof -
  let ?pad = "frame_padding (q mod WAL_BLOCK_BYTES)"
  let ?bp = "if ?pad \<noteq> 0 then 0 else q mod WAL_BLOCK_BYTES"
  let ?ff = "concat (take k (frame_fragments crc (wr_generation r) p True ?bp))"
  have d: "drop q D = replicate ?pad 0 @ ?ff @ after" using assms(2) by (simp add: record_prefix_def Let_def)
  obtain r1 where r1: "reader_at rest D (q + ?pad) r1" "same_config r r1" "wr_chain r1 = wr_chain r"
    "event_loop rd crc r = event_loop rd crc r1"
    by (rule event_padding [OF assms(1) d])
  have g: "wr_generation r = wr_generation r1" using r1(2) by (simp add: same_config_def)
  have d1: "drop (q + ?pad) D = ?ff @ after" using arg_cong [OF d, of "drop ?pad"] by (simp add: add.commute)
  have lim: "within_record_limit r1 (length ([] @ p))" using assms(5) same_config_limit [OF r1(2)] by simp
  have "if True then wr_chain r1 = None \<and>
      WAL_BINARY_FILE_HEADER_BYTES + q + ?pad = WAL_BINARY_FILE_HEADER_BYTES + (q + ?pad) \<and> ([] :: bytes) = []
    else wr_chain r1 = Some (WAL_BINARY_FILE_HEADER_BYTES + q + ?pad, [])"
    using r1(3) assms(4) by simp
  from event_frame_prefix [OF r1(1) d1 assms(3) [unfolded record_fragments_def] g frame_start [OF refl] this lim] r1(2,4)
  show ?thesis by (auto simp: record_prefix_def Let_def add.assoc intro: same_config_trans)
qed

text \<open>Wherever the reader stands, with a chain open or not, a complete fragment with a wrong checksum
  ends the log.\<close>

lemma event_bad_checksum:
  assumes "reader_at rest D q r" "drop q D = fragment_header c n t g' @ body"
    and "valid_fragment_type t" "unat n \<le> length body"
    and "c \<noteq> masked_fragment_crc crc t g' (take (unat n) body)"
    and "q mod WAL_BLOCK_BYTES + WAL_FRAGMENT_HEADER_BYTES + unat n \<le> WAL_BLOCK_BYTES"
  shows "\<exists>r1. event_loop rd crc r = Some (Inr (Corrupt (WAL_BINARY_FILE_HEADER_BYTES + q)
    (ChecksumMismatch (masked_fragment_crc crc t g' (take (unat n) body)) c), r1\<lparr>wr_finished := True\<rparr>))"
proof -
  let ?x = "masked_fragment_crc crc t g' (take (unat n) body)"
  obtain r1 where p: "parse_fragment_at_cursor rd crc r = Inr (parse_loaded crc r1)"
    and ready: "reader_ready rest D q r1"
    by (rule parse_ready [OF assms(1)])
  have "q < length D" using arg_cong [OF assms(2), of length] by (simp add: wal_sizes)
  then obtain pre where pre: "length pre = wr_block_pos r1"
    and b: "wr_block r1 = pre @ take (WAL_BLOCK_BYTES - wr_block_pos r1) (drop q D)"
    and m: "wr_block_pos r1 = q mod WAL_BLOCK_BYTES"
    by (rule ready_block [OF ready])
  let ?w = "WAL_BLOCK_BYTES - wr_block_pos r1 - WAL_FRAGMENT_HEADER_BYTES"
  have fit: "wr_block_pos r1 + WAL_FRAGMENT_HEADER_BYTES + unat n \<le> WAL_BLOCK_BYTES" using assms(6) m by simp
  have b2: "wr_block r1 = pre @ fragment_header c n t g' @ take ?w body" using b fit by (simp add: assms(2))
  have w: "unat n \<le> ?w" using fit by linarith
  have tk: "take (unat n) (take ?w body) = take (unat n) body" by (simp only: take_take min_absorb1 [OF w])
  have ln: "\<not> length (take ?w body) < unat n" "\<not> WAL_BLOCK_BYTES < length pre + WAL_FRAGMENT_HEADER_BYTES + unat n"
    using fit assms(4) pre w by (simp_all only: length_take not_less min.bounded_iff simp_thms)
  have "parse_in_block crc (wr_generation r1) (wr_block r1) (wr_block_pos r1) (wr_stream_ended r1) =
      ParseCorrupt (ChecksumMismatch ?x c)"
    unfolding b2 pre [symmetric] parse_in_block_header [OF assms(3)] Let_def tk [folded pre]
    using ln [folded pre] assms(5) by (simp only: if_False not_True_eq_False simp_thms if_True)
  then have "parse_loaded crc r1 = (ParseCorrupt (ChecksumMismatch ?x c), r1)"
    by (rule parse_loaded_header) (use fit pre in \<open>simp_all add: b2\<close>)
  with p have "parse_fragment_at_cursor rd crc r = Inr (ParseCorrupt (ChecksumMismatch ?x c), r1)" by simp
  from event_loop_step [OF this] show ?thesis by (intro exI [of _ r1]) (simp add: reader_at_offset [OF assms(1)])
qed

lemma read_bad_checksum:
  assumes bytes: "rest s = log_bytes crc g 0 ps @ record_prefix crc g p (length (log_bytes crc g 0 ps)) k @
      fragment_header c n t g' @ body"
    and k: "k < record_fragments crc g p (length (log_bytes crc g 0 ps))"
    and limits: "\<forall>x \<in> set (p # ps). within_record_limit (wr_new s g limit) (length x)"
    and bad: "valid_fragment_type t" "unat n \<le> length body" "c \<noteq> masked_fragment_crc crc t g' (take (unat n) body)"
    and q: "q = length (log_bytes crc g 0 ps) + length (record_prefix crc g p (length (log_bytes crc g 0 ps)) k)"
      "q mod WAL_BLOCK_BYTES + WAL_FRAGMENT_HEADER_BYTES + unat n \<le> WAL_BLOCK_BYTES"
  shows "read_events rd crc (length ps + 2) (wr_new s g limit) = Some (Inr (log_events crc g 0 ps @
    [Corrupt (WAL_BINARY_FILE_HEADER_BYTES + q)
       (ChecksumMismatch (masked_fragment_crc crc t g' (take (unat n) body)) c), Eof]))"
proof -
  let ?L = "log_bytes crc g 0 ps"
  let ?after = "fragment_header c n t g' @ body" and ?p = "record_prefix crc g p (length ?L) k"
  let ?D = "?L @ ?p @ ?after"
  have "drop 0 ?D = log_bytes crc (wr_generation (wr_new s g limit)) 0 ps @ ?p @ ?after" by simp
  from read_events_log [OF reader_at_new [of rest s, OF bytes, of g limit] this, of 2] limits
  obtain r where r: "read_events rd crc (length ps + 2) (wr_new s g limit) =
      prepend (log_events crc g 0 ps) (read_events rd crc 2 r)"
    "reader_at rest ?D (length ?L) r" "same_config (wr_new s g limit) r" "wr_chain r = None"
    by auto
  have g: "wr_generation r = g" "\<not> wr_finished r" using r(3) by (simp_all add: same_config_def)
  have "within_record_limit r (length p)" using limits same_config_limit [OF r(3)] by simp
  from event_record_prefix [OF r(2), of crc p k ?after] k r(4) this
  obtain r2 where r2: "event_loop rd crc r = event_loop rd crc r2" "reader_at rest ?D q r2"
    unfolding g(1) q(1) by auto
  have "drop q ?D = ?after" by (simp add: q(1))
  from event_bad_checksum [OF r2(2) this bad q(2)] r2(1) r(1) g(2) show ?thesis
    by (auto simp: next_event_def numeral_2_eq_2)
qed

end

section \<open>Properties of the log\<close>

definition record_limit_ok :: "nat option \<Rightarrow> bytes \<Rightarrow> bool" where
  "record_limit_ok limit p \<longleftrightarrow> (case limit of None \<Rightarrow> True | Some n \<Rightarrow> length p \<le> n)"

lemma within_record_limit_new: "within_record_limit (wr_new s g limit) (length p) = record_limit_ok limit p"
  by (simp add: within_record_limit_def record_limit_ok_def)

text \<open>The decoder of the file header accepts a file with generation \<open>g\<close> and start LSN \<open>l\<close>
  precisely when the file starts with the 28 bytes that the encoder writes for them.\<close>

lemma wal_header_exact:
  "decode_binary_wal_header crc bs = Inr (g, l) \<longleftrightarrow>
     take WAL_BINARY_FILE_HEADER_BYTES bs = encode_binary_wal_header crc g l"
proof -
  let ?h = "take WAL_BINARY_FILE_HEADER_BYTES bs"
  let ?e = "WAL_BINARY_MAGIC @ u64_le g @ u64_le l"
  have len: "length ?e = 24" by (simp add: WAL_BINARY_MAGIC_def)
  have enc: "encode_binary_wal_header crc g l = ?e @ u32_le (crc 0 ?e)"
    by (simp add: encode_binary_wal_header_def Let_def)
  have parts: "h = take 8 h @ byte_range 8 16 h @ byte_range 16 24 h @ byte_range 24 28 h"
    if "length h = 28" for h :: bytes
    using append_take_drop_id [of 8 h] append_take_drop_id [of 8 "drop 8 h"] append_take_drop_id [of 8 "drop 16 h"] that
    by (simp add: byte_range_def)
  show ?thesis
  proof
    assume d: "decode_binary_wal_header crc bs = Inr (g, l)"
    then have "\<not> length bs < WAL_BINARY_FILE_HEADER_BYTES"
      by (auto simp: decode_binary_wal_header_def)
    then have l28: "length ?h = 28" by (simp add: wal_sizes)
    from d have m: "take 8 ?h = WAL_BINARY_MAGIC" "le_u32 (byte_range 24 28 ?h) = crc 0 (take 24 ?h)"
      "g = le_u64 (byte_range 8 16 ?h)" "l = le_u64 (byte_range 16 24 ?h)"
      by (auto simp: decode_binary_wal_header_def Let_def split: if_splits)
    have w: "u64_le g = byte_range 8 16 ?h" "u64_le l = byte_range 16 24 ?h"
      "u32_le (crc 0 (take 24 ?h)) = byte_range 24 28 ?h"
      unfolding m(3,4) m(2) [symmetric] using l28 by (simp_all add: word_le_inverse byte_range_def)
    have h: "?h = ?e @ byte_range 24 28 ?h"
      using parts [OF l28] by (simp only: m(1) w(1,2) append_assoc)
    then have "take 24 ?h = ?e" using len by (metis append_eq_conv_conj)
    with h w(3) show "?h = encode_binary_wal_header crc g l" by (simp only: enc)
  next
    assume h: "?h = encode_binary_wal_header crc g l"
    have "length (encode_binary_wal_header crc g l) = 28" using len by (simp add: enc)
    then have nl: "\<not> length bs < WAL_BINARY_FILE_HEADER_BYTES"
      using arg_cong [OF h, of length] by (simp add: wal_sizes)
    have "take 8 ?h = WAL_BINARY_MAGIC" "byte_range 8 16 ?h = u64_le g" "byte_range 16 24 ?h = u64_le l"
      "byte_range 24 28 ?h = u32_le (crc 0 (take 24 ?h))"
      unfolding h enc by (simp_all add: byte_range_def WAL_BINARY_MAGIC_def)
    then show "decode_binary_wal_header crc bs = Inr (g, l)"
      using nl unfolding decode_binary_wal_header_def Let_def by simp
  qed
qed

text \<open>C3. Whatever payloads are appended to a log one after the other, a reader over any source that
  meets the contract of \<open>Read\<close> gives exactly these payloads, in order, each with the byte range of its
  frame, and then the end of the file.\<close>

theorem wal_roundtrip:
  assumes "reliable_reader rd rest" "rest s = log_bytes crc g 0 ps" "\<forall>p \<in> set ps. record_limit_ok limit p"
  shows "read_events rd crc (length ps + 1) (wr_new s g limit) = Some (Inr (log_events crc g 0 ps @ [Eof]))"
  by (rule reliable_reader.read_log [OF assms(1,2)]) (use assms(3) in \<open>simp add: within_record_limit_new\<close>)

theorem wal_roundtrip_witness:
  "read_events slice_read (\<lambda>c bs. c + of_nat (length bs)) 3
      (wr_new (log_bytes (\<lambda>c bs. c + of_nat (length bs)) 7 0 [[1, 2], []]) 7 (Some 5)) =
    Some (Inr (log_events (\<lambda>c bs. c + of_nat (length bs)) 7 0 [[1, 2], []] @ [Eof]))"
  using wal_roundtrip [OF slice_reader.reliable_reader_axioms, of _ "\<lambda>c bs. c + of_nat (length bs)" 7
      "[[1, 2], []]" "Some 5"]
  by (simp add: record_limit_ok_def eval_nat_numeral)

text \<open>C9. A log cut at an arbitrary byte, as a crash during an append leaves it, is never taken for
  corrupt: the reader gives exactly the records whose frames end before the cut and then either the
  end of the file or a torn tail that starts after all of them and not beyond the cut.\<close>

theorem wal_torn_tail:
  assumes "reliable_reader rd rest" "rest s = take k (log_bytes crc g 0 ps)"
    and "\<forall>p \<in> set ps. record_limit_ok limit p"
  shows "\<exists>n final. read_events rd crc (n + 1) (wr_new s g limit) =
      Some (Inr (take n (log_events crc g 0 ps) @ [final])) \<and>
    (\<forall>ev \<in> set (take n (log_events crc g 0 ps)). event_end_offset ev \<le> WAL_BINARY_FILE_HEADER_BYTES + k) \<and>
    (\<forall>ev \<in> set (drop n (log_events crc g 0 ps)). WAL_BINARY_FILE_HEADER_BYTES + k < event_end_offset ev) \<and>
    (final = Eof \<or> (\<exists>v reason. final = TornTail v reason \<and> v \<le> WAL_BINARY_FILE_HEADER_BYTES + k \<and>
      (\<forall>ev \<in> set (take n (log_events crc g 0 ps)). event_end_offset ev \<le> v)))"
  by (rule reliable_reader.read_cut_log [OF assms(1,2)]) (use assms(3) in \<open>simp add: within_record_limit_new\<close>)

theorem wal_torn_tail_witness:
  "\<exists>n final. read_events slice_read (\<lambda>c bs. c) (n + 1) (wr_new (take 20 (log_bytes (\<lambda>c bs. c) 7 0 [[1], [2]])) 7 None) =
      Some (Inr (take n (log_events (\<lambda>c bs. c) 7 0 [[1], [2]]) @ [final])) \<and>
    (\<forall>ev \<in> set (take n (log_events (\<lambda>c bs. c) 7 0 [[1], [2]])). event_end_offset ev \<le> WAL_BINARY_FILE_HEADER_BYTES + 20) \<and>
    (\<forall>ev \<in> set (drop n (log_events (\<lambda>c bs. c) 7 0 [[1], [2]])). WAL_BINARY_FILE_HEADER_BYTES + 20 < event_end_offset ev) \<and>
    (final = Eof \<or> (\<exists>v reason. final = TornTail v reason \<and> v \<le> WAL_BINARY_FILE_HEADER_BYTES + 20 \<and>
      (\<forall>ev \<in> set (take n (log_events (\<lambda>c bs. c) 7 0 [[1], [2]])). event_end_offset ev \<le> v)))"
  by (rule wal_torn_tail [OF slice_reader.reliable_reader_axioms]) (simp_all add: record_limit_ok_def)

text \<open>C20. Over any bytes whatsoever and a source that may fail at any time, every call of
  \<open>next_event\<close> returns, and the payload of every record it ever reports is a concatenation of
  payloads of fragments that stand in the log with a valid type, the generation of the reader and a
  matching checksum.\<close>

theorem wal_reader_sound:
  assumes "byte_reader rd rest"
  shows "\<exists>y. read_events rd crc n (wr_new s g limit) = Some y \<and>
    (\<forall>evs p st e. y = Inr evs \<longrightarrow> Record p st e \<in> set evs \<longrightarrow> checked_chunks crc g (rest s) p)"
  by (rule byte_reader.read_events_arbitrary [OF assms])
    (use reader_at_new [of rest s "rest s" g limit] in auto)

theorem wal_reader_sound_witness:
  "\<exists>y. read_events slice_read (\<lambda>c bs. c) 4 (wr_new [1, 2, 3] 7 None) = Some y \<and>
    (\<forall>evs p st e. y = Inr evs \<longrightarrow> Record p st e \<in> set evs \<longrightarrow> checked_chunks (\<lambda>c bs. c) 7 [1, 2, 3] p)"
  using wal_reader_sound [OF slice_reader.byte_reader_axioms, of "\<lambda>c bs. c" 4 "[1, 2, 3]" 7 None] by simp

text \<open>C24. A complete fragment whose checksum does not match its type, generation and payload fails
  closed, wherever it stands: after any complete records, and after any of the fragments a further
  record is made of, so with a chain open as well as at the start of a record. The reader reports the
  complete records before it, then corruption at the offset of the fragment, and stops: nothing of
  the open record and nothing that follows the fragment is reported. The source does not fail and
  the records before are within the record limit.\<close>

theorem wal_checksum_fails_closed:
  assumes "reliable_reader rd rest"
    and "rest s = log_bytes crc g 0 ps @ record_prefix crc g p (length (log_bytes crc g 0 ps)) k @
      fragment_header c n t g' @ body"
    and "k < record_fragments crc g p (length (log_bytes crc g 0 ps))"
    and "\<forall>x \<in> set (p # ps). record_limit_ok limit x"
    and "valid_fragment_type t" "unat n \<le> length body"
    and "c \<noteq> masked_fragment_crc crc t g' (take (unat n) body)"
    and "q = length (log_bytes crc g 0 ps) + length (record_prefix crc g p (length (log_bytes crc g 0 ps)) k)"
    and "q mod WAL_BLOCK_BYTES + WAL_FRAGMENT_HEADER_BYTES + unat n \<le> WAL_BLOCK_BYTES"
  shows "read_events rd crc (length ps + 2) (wr_new s g limit) = Some (Inr (log_events crc g 0 ps @
    [Corrupt (WAL_BINARY_FILE_HEADER_BYTES + q)
       (ChecksumMismatch (masked_fragment_crc crc t g' (take (unat n) body)) c), Eof]))"
  by (rule reliable_reader.read_bad_checksum [OF assms(1-3) _ assms(5-9)])
    (use assms(4) in \<open>simp add: within_record_limit_new\<close>)

text \<open>The last fragment of a record of 40000 bytes, broken: its first fragment fills the first block.\<close>

theorem wal_checksum_fails_closed_witness:
  "read_events slice_read (\<lambda>c bs. 0) 2
      (wr_new (fragment_bytes (\<lambda>c bs. 0) 7 2 (replicate 32753 1) @ fragment_header 5 1 4 7 @ [9, 8]) 7 None) =
    Some (Inr [Corrupt (28 + 32768) (ChecksumMismatch CRC_MASK_DELTA 5), Eof])"
proof -
  let ?p = "replicate 40000 (1 :: u8)" and ?crc = "\<lambda>(c :: u32) (bs :: bytes). 0 :: u32"
  have pre: "record_prefix ?crc 7 ?p 0 1 = fragment_bytes ?crc 7 2 (replicate 32753 1)" "1 < record_fragments ?crc 7 ?p 0"
    by (simp_all add: record_prefix_def record_fragments_def frame_padding_def frame_fragments.simps [of _ _ _ _ 0]
        fragment_type_of_def fragment_types wal_sizes)
  have "length (fragment_bytes ?crc 7 2 (replicate 32753 1)) = 32768" by (simp add: wal_sizes)
  then have "read_events slice_read ?crc (length ([] :: bytes list) + 2)
      (wr_new (fragment_bytes ?crc 7 2 (replicate 32753 1) @ fragment_header 5 1 4 7 @ [9, 8]) 7 None) =
    Some (Inr (log_events ?crc 7 0 [] @ [Corrupt (WAL_BINARY_FILE_HEADER_BYTES + 32768)
      (ChecksumMismatch (masked_fragment_crc ?crc 4 7 (take (unat (1 :: u16)) [9, 8])) 5), Eof]))"
    by (intro wal_checksum_fails_closed [OF slice_reader.reliable_reader_axioms, where p = ?p and k = 1])
      (use pre in \<open>simp_all add: record_limit_ok_def valid_fragment_type_def fragment_types masked_fragment_crc_def
        CRC_MASK_DELTA_def wal_sizes\<close>)
  then show ?thesis by (simp add: masked_fragment_crc_def wal_sizes numeral_2_eq_2)
qed

end
