(* ===== verification/Wal_Checkpoint.thy ===== *)
theory Wal_Checkpoint
  imports Wal_Log
begin

text \<open>
  The reframing of a captured record during a checkpoint
  (\<open>crates/storage/src/wal/frame/checkpoint.rs\<close>): \<open>CheckpointWalFrameStream\<close> yields the fragments of a
  record one at a time, under a work context that may refuse to go on, instead of building the frame
  as one buffer. It is equivalent to \<open>frame_binary_wal_record\<close>.

  The work context (budget and cancellation of background work) is a parameter: \<open>checkpoint\<close> and
  \<open>start_unit\<close> take its state to a failure or to the next state.
\<close>

definition checked_mul :: "nat \<Rightarrow> nat \<Rightarrow> nat option" where
  "checked_mul a b = (if a * b \<le> usize_max then Some (a * b) else None)"

record frame_stream =
  fs_generation :: u64
  fs_remaining :: bytes
  fs_first_capacity :: nat
  fs_padding :: nat
  fs_first :: bool
  fs_finished :: bool
  fs_encoded_len :: nat

record wal_fragment =
  wf_header :: bytes
  wf_body :: bytes
  wf_padding :: nat

definition wf_parts :: "wal_fragment \<Rightarrow> bytes list" where
  "wf_parts f = [replicate (wf_padding f) 0, wf_header f, wf_body f]"

definition wf_encoded_len :: "wal_fragment \<Rightarrow> nat" where
  "wf_encoded_len f = wf_padding f + length (wf_header f) + length (wf_body f)"

definition more_fragments :: "nat \<Rightarrow> nat" where
  "more_fragments remainder =
     (if remainder = 0 then 0
      else (remainder - 1) div (WAL_BLOCK_BYTES - WAL_FRAGMENT_HEADER_BYTES) + 1)"

definition fs_new :: "'e \<Rightarrow> u64 \<Rightarrow> bytes \<Rightarrow> nat \<Rightarrow> 'e + frame_stream" where
  "fs_new overflow generation payload position =
     (let remaining_block = WAL_BLOCK_BYTES - position mod WAL_BLOCK_BYTES;
          padding = if remaining_block < WAL_FRAGMENT_HEADER_BYTES then remaining_block else 0;
          first_capacity = if padding \<noteq> 0 then WAL_BLOCK_BYTES - WAL_FRAGMENT_HEADER_BYTES
                           else remaining_block - WAL_FRAGMENT_HEADER_BYTES;
          remainder = length payload - first_capacity
      in case Option.bind (checked_add (more_fragments remainder) 1) (\<lambda>fragments.
              Option.bind (checked_mul fragments WAL_FRAGMENT_HEADER_BYTES) (\<lambda>headers.
              Option.bind (checked_add headers (length payload)) (\<lambda>bytes.
              checked_add bytes padding))) of
           None \<Rightarrow> Inl overflow
         | Some encoded_len \<Rightarrow>
             Inr \<lparr> fs_generation = generation, fs_remaining = payload,
                   fs_first_capacity = first_capacity, fs_padding = padding, fs_first = True,
                   fs_finished = False, fs_encoded_len = encoded_len \<rparr>)"

definition fs_next ::
    "crc_append \<Rightarrow> ('w \<Rightarrow> 'e + 'w) \<Rightarrow> ('w \<Rightarrow> 'e + 'w) \<Rightarrow> 'w \<Rightarrow> frame_stream \<Rightarrow>
     'e + wal_fragment option \<times> frame_stream \<times> 'w" where
  "fs_next crc checkpoint start_unit w s =
     (case checkpoint w of
        Inl e \<Rightarrow> Inl e
      | Inr w1 \<Rightarrow>
          if fs_finished s then Inr (None, s, w1)
          else let capacity = if fs_first s then fs_first_capacity s
                              else WAL_BLOCK_BYTES - WAL_FRAGMENT_HEADER_BYTES;
                   n = min capacity (length (fs_remaining s));
                   chunk = take n (fs_remaining s);
                   rest = drop n (fs_remaining s);
                   fragment_type = fragment_type_of (fs_first s) (rest = [])
               in case start_unit w1 of
                    Inl e \<Rightarrow> Inl e
                  | Inr w2 \<Rightarrow>
                      let header = u32_le (masked_fragment_crc crc fragment_type (fs_generation s) chunk) @
                            u16_le (of_nat (length chunk)) @ [fragment_type] @ u64_le (fs_generation s)
                      in case checkpoint w2 of
                           Inl e \<Rightarrow> Inl e
                         | Inr w3 \<Rightarrow>
                             Inr (Some \<lparr> wf_header = header, wf_body = chunk,
                                         wf_padding = if fs_first s then fs_padding s else 0 \<rparr>,
                                  s\<lparr>fs_first := False, fs_finished := (rest = []), fs_remaining := rest\<rparr>,
                                  w3))"

section \<open>Equivalence with the one-buffer framing\<close>

text \<open>The bytes that the first \<open>n\<close> fragments of a stream put into the file, with the state of the
  stream after them.\<close>

primrec fs_drain ::
    "crc_append \<Rightarrow> ('w \<Rightarrow> 'e + 'w) \<Rightarrow> ('w \<Rightarrow> 'e + 'w) \<Rightarrow> nat \<Rightarrow> 'w \<Rightarrow> frame_stream \<Rightarrow>
     'e + bytes \<times> frame_stream \<times> 'w" where
  "fs_drain crc checkpoint start_unit 0 w s = Inr ([], s, w)"
| "fs_drain crc checkpoint start_unit (Suc n) w s =
     (case fs_next crc checkpoint start_unit w s of
        Inl e \<Rightarrow> Inl e
      | Inr (None, s', w') \<Rightarrow> Inr ([], s', w')
      | Inr (Some f, s', w') \<Rightarrow>
          (case fs_drain crc checkpoint start_unit n w' s' of
             Inl e \<Rightarrow> Inl e
           | Inr (out, s'', w'') \<Rightarrow> Inr (concat (wf_parts f) @ out, s'', w'')))"

definition grants :: "('w \<Rightarrow> 'e + 'w) \<Rightarrow> bool" where
  "grants f \<longleftrightarrow> (\<forall>w. \<exists>w'. f w = Inr w')"

definition fs_pad :: "frame_stream \<Rightarrow> bytes" where
  "fs_pad s = (if fs_first s then replicate (fs_padding s) 0 else [])"

definition fs_block_pos :: "frame_stream \<Rightarrow> nat" where
  "fs_block_pos s =
     (if fs_first s then WAL_BLOCK_BYTES - WAL_FRAGMENT_HEADER_BYTES - fs_first_capacity s else 0)"

lemma frame_loop_unfold:
  "frame_loop crc g p first bp =
     (let n = min (WAL_BLOCK_BYTES - bp - WAL_FRAGMENT_HEADER_BYTES) (length p);
          out = fragment_bytes crc g (fragment_type_of first (drop n p = [])) (take n p)
      in if drop n p = [] then out else out @ frame_loop crc g (drop n p) False 0)"
  by (subst frame_loop.simps) (simp only: Let_def)

lemma fs_drain_frame:
  assumes "grants checkpoint" "grants start_unit" "\<not> fs_finished s"
    and "length (fs_remaining s) + (if fs_first s then 2 else 1) \<le> n"
    and "fs_first_capacity s \<le> WAL_BLOCK_BYTES - WAL_FRAGMENT_HEADER_BYTES"
  shows "\<exists>s' w'. fs_drain crc checkpoint start_unit n w s =
      Inr (fs_pad s @ frame_loop crc (fs_generation s) (fs_remaining s) (fs_first s) (fs_block_pos s), s', w') \<and>
    fs_finished s'"
  using assms(3-5)
proof (induction n arbitrary: w s)
  case 0
  then show ?case by (simp split: if_splits)
next
  case (Suc n)
  define cap where "cap = WAL_BLOCK_BYTES - fs_block_pos s - WAL_FRAGMENT_HEADER_BYTES"
  have cap: "cap = (if fs_first s then fs_first_capacity s else WAL_BLOCK_BYTES - WAL_FRAGMENT_HEADER_BYTES)"
    using Suc.prems(3) wal_size_bounds(5) unfolding cap_def fs_block_pos_def by (cases "fs_first s") simp_all
  define m where "m = min cap (length (fs_remaining s))"
  define t where "t = fragment_type_of (fs_first s) (drop m (fs_remaining s) = [])"
  let ?frag = "fragment_bytes crc (fs_generation s) t (take m (fs_remaining s))"
  let ?s = "s\<lparr>fs_first := False, fs_finished := (drop m (fs_remaining s) = []), fs_remaining := drop m (fs_remaining s)\<rparr>"
  obtain w1 w2 w3 where w: "checkpoint w = Inr w1" "start_unit w1 = Inr w2" "checkpoint w2 = Inr w3"
    using assms(1,2) by (metis grants_def)
  have nx: "\<exists>f. fs_next crc checkpoint start_unit w s = Inr (Some f, ?s, w3) \<and>
      concat (wf_parts f) = fs_pad s @ ?frag"
    using Suc.prems(1)
    unfolding fs_next_def w sum.case Let_def cap [symmetric] m_def [symmetric] t_def [symmetric]
    by (simp add: wf_parts_def fs_pad_def fragment_bytes_def)
  have fl: "frame_loop crc (fs_generation s) (fs_remaining s) (fs_first s) (fs_block_pos s) =
      (if drop m (fs_remaining s) = [] then ?frag
       else ?frag @ frame_loop crc (fs_generation s) (drop m (fs_remaining s)) False 0)"
    by (subst frame_loop_unfold) (simp only: Let_def cap_def [symmetric] m_def [symmetric] t_def [symmetric])
  show ?case
  proof (cases "drop m (fs_remaining s) = []")
    case True
    obtain w4 where "checkpoint w3 = Inr w4" using assms(1) by (auto simp: grants_def)
    with True have "\<exists>w4. fs_drain crc checkpoint start_unit n w3 ?s = Inr ([], ?s, w4)"
      by (cases n) (auto simp: fs_next_def)
    with nx fl True show ?thesis by auto
  next
    case False
    have "cap \<noteq> 0 \<or> fs_first s" using cap wal_size_bounds(4) by auto
    then have "length (drop m (fs_remaining s)) + 1 \<le> n"
      using Suc.prems(2) False by (auto simp: m_def split: if_splits)
    with False Suc.prems(3) Suc.IH [of ?s w3] nx fl show ?thesis
      by (auto simp: fs_pad_def fs_block_pos_def)
  qed
qed

lemma more_fragments_step:
  assumes "WAL_BLOCK_BYTES - WAL_FRAGMENT_HEADER_BYTES = C" "0 < r"
  shows "more_fragments r = Suc (more_fragments (r - C))"
proof -
  have C: "0 < C" using assms(1) by (simp add: wal_sizes)
  show ?thesis
  proof (cases "r \<le> C")
    case True
    then show ?thesis using assms C by (simp add: more_fragments_def)
  next
    case False
    then have "(r - 1) div C = Suc ((r - C - 1) div C)"
      using C div_add_self1 [of C "r - C - 1"] by simp
    with False assms show ?thesis by (simp add: more_fragments_def)
  qed
qed

lemma length_frame_loop:
  "length (frame_loop crc g p first bp) = length p + WAL_FRAGMENT_HEADER_BYTES *
     (1 + more_fragments (length p - (WAL_BLOCK_BYTES - bp - WAL_FRAGMENT_HEADER_BYTES)))"
proof (induction crc g p first bp rule: frame_loop.induct)
  case (1 crc g p first bp)
  define cap where "cap = WAL_BLOCK_BYTES - bp - WAL_FRAGMENT_HEADER_BYTES"
  define n where "n = min cap (length p)"
  note fl = frame_loop_unfold [of crc g p first bp, unfolded Let_def, folded cap_def, folded n_def]
  show ?case
  proof (cases "drop n p = []")
    case True
    then have "length p \<le> cap" by (auto simp: n_def)
    then show ?thesis using fl True unfolding cap_def [symmetric] by (simp add: more_fragments_def n_def)
  next
    case False
    then have lt: "cap < length p" "n = cap" by (auto simp: n_def)
    have "length (frame_loop crc g (drop n p) False 0) = length (drop n p) + WAL_FRAGMENT_HEADER_BYTES *
        (1 + more_fragments (length (drop n p) - (WAL_BLOCK_BYTES - 0 - WAL_FRAGMENT_HEADER_BYTES)))"
      by (rule "1.IH" [OF refl _ refl refl refl]) (use False in \<open>simp_all add: n_def cap_def\<close>)
    moreover have "more_fragments (length p - cap) =
        Suc (more_fragments (length p - cap - (WAL_BLOCK_BYTES - WAL_FRAGMENT_HEADER_BYTES)))"
      by (rule more_fragments_step [OF refl]) (use lt in simp)
    ultimately show ?thesis
      using fl False lt unfolding cap_def [symmetric] by (simp add: algebra_simps)
  qed
qed


text \<open>C27. Whatever the record and the position it is written to, when the size of the frame fits
  \<open>usize\<close> and the work context grants every unit, the fragment stream ends and its fragments put
  into the file exactly the bytes of \<open>frame_binary_wal_record\<close>, as many as \<open>encoded_len\<close> announces.\<close>

theorem checkpoint_stream_equals_frame:
  assumes "grants checkpoint" "grants start_unit" "fs_new overflow g payload position = Inr s"
  shows "\<exists>s' w'. fs_drain crc checkpoint start_unit (length payload + 2) w s =
      Inr (frame_binary_wal_record crc g payload position, s', w') \<and> fs_finished s' \<and>
    fs_encoded_len s = length (frame_binary_wal_record crc g payload position)"
proof -
  let ?bp = "position mod WAL_BLOCK_BYTES"
  let ?pad = "frame_padding ?bp"
  let ?pos = "if ?pad \<noteq> 0 then 0 else ?bp"
  let ?cap = "WAL_BLOCK_BYTES - ?pos - WAL_FRAGMENT_HEADER_BYTES"
  have fr: "frame_binary_wal_record crc g payload position =
      replicate ?pad 0 @ frame_loop crc g payload True ?pos"
    by (simp add: frame_binary_wal_record_def Let_def)
  have pad: "(if WAL_BLOCK_BYTES - ?bp < WAL_FRAGMENT_HEADER_BYTES then WAL_BLOCK_BYTES - ?bp else 0) = ?pad"
    by (simp add: frame_padding_def)
  have cap: "(if ?pad \<noteq> 0 then WAL_BLOCK_BYTES - WAL_FRAGMENT_HEADER_BYTES
      else WAL_BLOCK_BYTES - ?bp - WAL_FRAGMENT_HEADER_BYTES) = ?cap" by simp
  have s: "\<not> fs_finished s" "fs_remaining s = payload" "fs_first s" "fs_generation s = g" "fs_padding s = ?pad"
    "fs_first_capacity s = ?cap"
    "fs_encoded_len s = (more_fragments (length payload - ?cap) + 1) * WAL_FRAGMENT_HEADER_BYTES + length payload + ?pad"
    using assms(3) unfolding fs_new_def Let_def pad cap
    by (auto simp: checked_mul_def checked_add_Some_iff bind_eq_Some_conv split: option.splits if_splits)
  have "?pos + WAL_FRAGMENT_HEADER_BYTES \<le> WAL_BLOCK_BYTES"
    by (rule frame_start(2) [OF refl])
  then have "fs_block_pos s = ?pos" by (simp add: fs_block_pos_def s)
  moreover have "fs_encoded_len s = length (frame_binary_wal_record crc g payload position)"
    unfolding fr s(7) length_append length_frame_loop by simp
  ultimately show ?thesis
    using fs_drain_frame [OF assms(1,2) s(1), of "length payload + 2" crc w] s(2-6)
    unfolding fr fs_pad_def by simp
qed

theorem checkpoint_stream_equals_frame_witness:
  "\<exists>s. fs_new () 7 [1, 2, 3] 0 = Inr s \<and> (\<exists>s' w'.
    fs_drain (\<lambda>c bs. c) (\<lambda>w. Inr w :: unit + nat) (\<lambda>w. Inr w) (length [1, 2, 3 :: u8] + 2) 0 s =
      Inr (frame_binary_wal_record (\<lambda>c bs. c) 7 [1, 2, 3] 0, s', w') \<and> fs_finished s' \<and>
    fs_encoded_len s = length (frame_binary_wal_record (\<lambda>c bs. c) 7 [1, 2, 3] 0))"
proof -
  have g: "grants (\<lambda>w :: nat. Inr w :: unit + nat)" by (simp add: grants_def)
  obtain s where s: "fs_new () 7 [1, 2, 3] 0 = Inr s"
    by (simp add: fs_new_def more_fragments_def checked_mul_def checked_add_def usize_max_def wal_sizes)
  note stream = checkpoint_stream_equals_frame [OF g g s, of "\<lambda>c bs. c" 0]
  show ?thesis
    by (rule exI) (rule conjI [OF s stream])
qed

end
