(* ===== verification/Decimal_Laws.thy ===== *)
theory Decimal_Laws
  imports Decimal
begin

text \<open>
  Laws of the decimals of \<open>crates/core/src/decimal.rs\<close> beyond their order: the ordered encoding is
  read back to an equal decimal, equality is equality of the denoted numbers, and addition, subtraction
  and multiplication give the exact number or fail precisely when no decimal denotes it.
\<close>

section \<open>Truncating division by ten\<close>

lemma smod_10_iff [simp]: "c smod 10 = 0 \<longleftrightarrow> 10 dvd c" for c :: int
proof (cases "10 dvd c")
  case True
  then show ?thesis by (simp add: signed_modulo_int_eq_modulo_int)
next
  case False
  moreover have "c mod 10 - 10 * of_bool b \<noteq> 0" for b
    using False pos_mod_bound [of 10 c] by (cases b) (auto simp: dvd_eq_mod_eq_0)
  ultimately show ?thesis by (simp add: signed_modulo_int_eq_modulo_int)
qed

lemma sdiv_10_exact: "10 dvd c \<Longrightarrow> c sdiv 10 = c div 10" for c :: int
  by (simp add: signed_divide_int_eq_divide_int)

section \<open>The ordered encoding is read back\<close>

lemma strip_loop_done: "s \<le> 38 \<Longrightarrow> strip_loop c s = (c, s)"
  by (subst strip_loop.simps) simp

lemma strip_loop_exact: "strip_loop (c * 10 ^ k) (38 + k) = (c, 38)"
proof (induction k)
  case 0
  then show ?case by (simp add: strip_loop_done)
next
  case (Suc k)
  have "strip_loop (c * 10 ^ Suc k) (38 + Suc k) = strip_loop (c * 10 ^ k) (38 + k)"
    by (subst strip_loop.simps) (simp add: sdiv_10_exact)
  with Suc show ?case by simp
qed

text \<open>The coefficient and scale that \<open>from_ordered_bytes\<close> reads for a magnitude \<open>v\<close> at scale \<open>s\<close>
  denote the same number.\<close>

lemma strip_digits:
  fixes v :: nat
  assumes "v < 10 ^ 38" "v \<noteq> 0" "s \<le> 38" "n = length (digits_loop v [])"
  shows "\<exists>c' s'. strip_loop (\<sigma> * int (v * 10 ^ (38 - n))) (38 - n + s) = (\<sigma> * c', s') \<and> s' \<le> 38 \<and>
    0 \<le> c' \<and> c' < 10 ^ 38 \<and> c' * 10 ^ (38 - s') = int v * 10 ^ (38 - s)"
proof -
  note V = nat_body_tl [OF assms(2,1), folded assms(4)]
  have n: "1 \<le> n" "n \<le> 38" using V(8,9) by simp_all
  have lt: "v * 10 ^ (38 - n) < 10 ^ 38" using V(3,5) by simp
  then have lti: "int (v * 10 ^ (38 - n)) < 10 ^ 38"
    by (metis of_nat_less_iff of_nat_numeral of_nat_power)
  show ?thesis
  proof (cases "38 - n + s \<le> 38")
    case True
    have "int (v * 10 ^ (38 - n)) * 10 ^ (38 - (38 - n + s)) = int v * 10 ^ (38 - s)"
    proof -
      have "38 - n + (38 - (38 - n + s)) = 38 - s" using True n by linarith
      then have "(10 :: int) ^ (38 - n) * 10 ^ (38 - (38 - n + s)) = 10 ^ (38 - s)"
        by (simp only: power_add [symmetric])
      then show ?thesis by (simp only: of_nat_mult of_nat_power of_nat_numeral mult.assoc)
    qed
    then show ?thesis
      by (intro exI conjI) (rule strip_loop_done [OF True], rule True, rule of_nat_0_le_iff, rule lti, assumption)
  next
    case False
    define k where "k = s - n"
    have k: "38 - n + s = 38 + k" "38 - n = 38 - s + k" using False n assms(3) by (simp_all add: k_def)
    let ?c = "int v * 10 ^ (38 - s)"
    have eq: "int (v * 10 ^ (38 - n)) = ?c * 10 ^ k"
      by (simp add: k(2) power_add mult.assoc)
    have "strip_loop (\<sigma> * int (v * 10 ^ (38 - n))) (38 - n + s) = (\<sigma> * ?c, 38)"
      using strip_loop_exact [of "\<sigma> * ?c" k] unfolding eq k(1) by (simp only: mult.assoc)
    moreover have "?c < 10 ^ 38"
    proof -
      have "?c \<le> ?c * 10 ^ k" using mult_left_mono [of 1 "10 ^ k" ?c] by simp
      also have "\<dots> = int (v * 10 ^ (38 - n))" by (simp only: eq)
      also have "\<dots> < 10 ^ 38" by (rule lti)
      finally show ?thesis .
    qed
    ultimately show ?thesis by (intro exI [of _ ?c] exI [of _ 38]) simp
  qed
qed

lemma ordered_body_digits:
  assumes "v < 10 ^ 38" "v \<noteq> 0" "s \<le> 38"
  shows "\<exists>d. ordered_body negative (map of_nat (nat_body v s)) = Inr d \<and> decimal_ok d \<and>
    units38 d = (if negative then - 1 else 1) * int v * 10 ^ (38 - s)"
proof -
  define n where "n = length (digits_loop v [])"
  define r where "r = digits_loop v [] @ replicate (38 - n) 0"
  define e where "e = n + 38 - s"
  note V = nat_body_tl [OF assms(2,1), folded n_def, folded r_def]
  have body: "(map of_nat (nat_body v s) :: bytes) = of_nat e # map of_nat r"
    by (simp add: nat_body_def Let_def e_def r_def n_def)
  have e: "1 \<le> e" "e \<le> 76" "76 - e = 38 - n + s" using V(8,9) assms(3) by (simp_all add: e_def)
  then have ue: "unat (of_nat e :: u8) = e" by (simp add: unat_of_nat)
  have ur: "unat (of_nat x :: u8) = x" if "x \<in> set r" for x
    using V(2) that by (simp add: unat_of_nat) fastforce
  have fold: "foldl (\<lambda>c d. c * 10 + int (unat d)) (int a) (map of_nat xs :: bytes) =
      int (foldl (\<lambda>c d. c * 10 + d) a xs)" if "set xs \<subseteq> set r" for xs a
    using that
  proof (induction xs arbitrary: a)
    case (Cons x xs)
    then have "uint (of_nat x :: u8) = int x" using ur [of x] by (metis list.set_intros(1) of_nat_unat subsetD)
    with Cons show ?case using Cons.IH [of "a * 10 + x"] by simp
  qed simp
  have c: "foldl (\<lambda>c d. c * 10 + int (unat d)) 0 (map of_nat r :: bytes) = int (v * 10 ^ (38 - n))"
    using fold [OF subset_refl, of 0] unfolding int_ops(1) V(3) [symmetric] digits_val_def .
  have ok: "\<not> (\<not> (1 \<le> (of_nat e :: u8) \<and> (of_nat e :: u8) \<le> 76) \<or> hd (map of_nat r) = (0 :: u8) \<or>
      (\<exists>b \<in> set (map of_nat r :: bytes). 9 < b))"
  proof -
    have "1 \<le> (of_nat e :: u8)" "(of_nat e :: u8) \<le> 76" using e ue by (simp_all add: word_le_nat_alt)
    moreover have "unat (hd (map of_nat r) :: u8) \<noteq> 0" using V(6,7) ur [of "hd r"] by (simp add: hd_map)
    moreover have "\<not> 9 < (of_nat x :: u8)" if "x \<in> set r" for x
      using V(2) ur [OF that] that by (auto simp: word_less_nat_alt)
    ultimately show ?thesis by (auto simp: unat_eq_0)
  qed
  let ?\<sigma> = "if negative then - 1 else 1 :: int"
  obtain c' s' where st: "strip_loop (?\<sigma> * int (v * 10 ^ (38 - n))) (38 - n + s) = (?\<sigma> * c', s')"
    and s': "s' \<le> 38" "0 \<le> c'" "c' < 10 ^ 38" "c' * 10 ^ (38 - s') = int v * 10 ^ (38 - s)"
    using strip_digits [OF assms n_def, of ?\<sigma>] by blast
  have "decimal_new (?\<sigma> * c') s' = Inr \<lparr>coefficient = ?\<sigma> * c', dscale = s'\<rparr>"
    using s' by (simp add: decimal_new_def max_coefficient_def)
  then have "ordered_body negative (map of_nat (nat_body v s)) = Inr \<lparr>coefficient = ?\<sigma> * c', dscale = s'\<rparr>"
    using st ok unfolding body ordered_body_def Let_def list.sel c ue e(3)
    by (simp split: if_splits)
  then show ?thesis
    using s' by (simp add: decimal_ok_def units38_def max_coefficient_def mult.assoc)
qed

lemma from_ordered_bytes_to:
  assumes "decimal_ok d"
  shows "\<exists>d'. from_ordered_bytes (to_ordered_bytes d) = Inr d' \<and> decimal_ok d' \<and> units38 d' = units38 d"
proof (cases "coefficient d = 0")
  case True
  then show ?thesis
    by (simp add: to_ordered_bytes_alt from_ordered_bytes_def decimal_zero_def decimal_ok_def units38_def
        max_coefficient_def)
next
  case False
  have m: "magnitude d < 10 ^ 38" "magnitude d \<noteq> 0" "dscale d \<le> 38"
    using decimal_ok_nat [OF assms] False by simp_all
  show ?thesis
  proof (cases "coefficient d < 0")
    case True
    with ordered_body_digits [OF m, of True] show ?thesis
      by (simp add: to_ordered_bytes_alt from_ordered_bytes_def comp_def False Let_def units38_def magnitude_def)
  next
    case ge: False
    with False ordered_body_digits [OF m, of False] show ?thesis
      by (simp add: to_ordered_bytes_alt from_ordered_bytes_def Let_def units38_def magnitude_def)
  qed
qed

lemma ordered_bytes_units: "decimal_ok a \<Longrightarrow> decimal_ok b \<Longrightarrow> to_ordered_bytes a = to_ordered_bytes b \<longleftrightarrow> units38 a = units38 b"
  using decimal_cmp_units [of a b] lin_ord.cmp_Equal_iff [of "to_ordered_bytes a" "to_ordered_bytes b"]
    lin_ord.cmp_Equal_iff [of "units38 a" "units38 b"]
  by (simp add: decimal_cmp_def lex_cmp_lin)

section \<open>Equality\<close>

text \<open>A canonical pair: no trailing zero can move from the coefficient into the scale.\<close>

lemma normalized_loop_value:
  "normalized_loop c s = (c', s') \<Longrightarrow> s' \<le> s \<and> c = c' * 10 ^ (s - s') \<and> (s' = 0 \<or> \<not> 10 dvd c')"
proof (induction c s rule: normalized_loop.induct)
  case (1 c s)
  show ?case
  proof (cases "s > 0 \<and> 10 dvd c")
    case True
    then have "normalized_loop (c div 10) (s - 1) = (c', s')"
      using "1.prems" by (simp add: normalized_loop.simps [of c s] sdiv_10_exact)
    with 1 True have IH: "s' \<le> s - 1" "c div 10 = c' * 10 ^ (s - 1 - s')" "s' = 0 \<or> \<not> 10 dvd c'"
      by (simp_all add: sdiv_10_exact)
    have "c = c div 10 * 10" using True by simp
    also have "\<dots> = c' * 10 ^ Suc (s - 1 - s')" by (simp add: IH(2))
    also have "Suc (s - 1 - s') = s - s'" using IH(1) True by linarith
    finally show ?thesis using IH(1,3) by simp
  next
    case False
    then have "normalized_loop c s = (c, s)" by (subst normalized_loop.simps) auto
    with "1.prems" False show ?thesis by auto
  qed
qed

lemma canonical_unique:
  fixes c d :: int
  assumes "c * 10 ^ j = d * 10 ^ i" "i = 0 \<or> \<not> 10 dvd c" "j = 0 \<or> \<not> 10 dvd d"
  shows "c = d \<and> i = j"
  using assms
proof (induction i arbitrary: j)
  case 0
  show ?case
  proof (cases j)
    case (Suc k)
    with "0.prems" have "d = 10 * (c * 10 ^ k)" by simp
    then have "10 dvd d" by simp
    with "0.prems" Suc show ?thesis by simp
  qed (use "0.prems" in simp)
next
  case (Suc i)
  show ?case
  proof (cases j)
    case 0
    with Suc.prems have "c = 10 * (d * 10 ^ i)" by simp
    then have "10 dvd c" by simp
    with Suc.prems show ?thesis by simp
  next
    case (Suc k)
    with Suc.prems have "c * 10 ^ k = d * 10 ^ i" by simp
    then show ?thesis using Suc.IH [of k] Suc.prems(2,3) Suc by auto
  qed
qed

lemma decimal_eq_units:
  assumes "decimal_ok a" "decimal_ok b"
  shows "decimal_eq a b \<longleftrightarrow> units38 a = units38 b"
proof -
  obtain c s where a: "normalized a = (c, s)" by (cases "normalized a")
  obtain d t where b: "normalized b = (d, t)" by (cases "normalized b")
  note A = normalized_loop_value [OF a [unfolded normalized_def]]
  note B = normalized_loop_value [OF b [unfolded normalized_def]]
  have ok: "dscale a \<le> 38" "dscale b \<le> 38" using assms by (simp_all add: decimal_ok_def)
  have ua: "units38 a = c * 10 ^ (38 - s)"
  proof -
    have "dscale a - s + (38 - dscale a) = 38 - s" using A ok by simp
    then show ?thesis using A unfolding units38_def by (metis mult.assoc power_add)
  qed
  have ub: "units38 b = d * 10 ^ (38 - t)"
  proof -
    have "dscale b - t + (38 - dscale b) = 38 - t" using B ok by simp
    then show ?thesis using B unfolding units38_def by (metis mult.assoc power_add)
  qed
  have "c = d \<and> s = t" if "units38 a = units38 b"
  proof (rule canonical_unique)
    have "c * 10 ^ (38 - s) * 10 ^ (s + t) = d * 10 ^ (38 - t) * 10 ^ (s + t)"
      using that ua ub by simp
    moreover have "38 - s + (s + t) = 38 + t" "38 - t + (s + t) = 38 + s" using A B ok by simp_all
    ultimately have "c * 10 ^ (38 + t) = d * 10 ^ (38 + s)"
      by (metis mult.assoc power_add)
    then show "c * 10 ^ t = d * 10 ^ s" by (simp add: power_add)
  qed (use A B in auto)
  then show ?thesis using a b ua ub by (auto simp: decimal_eq_def)
qed

text \<open>C35. Two decimals are equal by \<open>PartialEq\<close> precisely when they compare equal by \<open>Ord\<close>, and both
  mean that they denote the same number, whatever their scales.\<close>

theorem decimal_eq_agrees:
  assumes "decimal_ok a" "decimal_ok b"
  shows "(decimal_eq a b \<longleftrightarrow> decimal_cmp a b = Equal) \<and>
    (decimal_eq a b \<longleftrightarrow> decimal_value a = decimal_value b)"
proof -
  have "decimal_eq a b \<longleftrightarrow> decimal_cmp a b = Equal"
    using decimal_cmp_units [OF assms] lin_ord.cmp_Equal_iff [of "units38 a" "units38 b"]
    by (simp add: decimal_eq_units [OF assms])
  moreover have "cmp_lin (units38 a) (units38 b) = cmp_lin (decimal_value a) (decimal_value b)"
    using assms by (intro cmp_units_value) (simp_all add: decimal_ok_def)
  then have "units38 a = units38 b \<longleftrightarrow> decimal_value a = decimal_value b"
    by (metis lin_ord.cmp_Equal_iff)
  ultimately show ?thesis by (simp add: decimal_eq_units [OF assms])
qed

theorem decimal_eq_agrees_witness:
  "decimal_eq \<lparr>coefficient = 15, dscale = 1\<rparr> \<lparr>coefficient = 150, dscale = 2\<rparr>"
  by (rule decimal_eq_agrees [THEN conjunct2, THEN iffD2])
    (simp_all add: decimal_ok_def max_coefficient_def decimal_value_def)

section \<open>Exact arithmetic\<close>

lemma exact_loop_cases:
  "case exact_loop c s of
     Inr (c', s') \<Rightarrow> s' \<le> s \<and> c = c' * 10 ^ (s - s') \<and> (s' = 0 \<or> s' \<le> 38 \<and> \<bar>c'\<bar> \<le> max_coefficient)
   | Inl e \<Rightarrow> e = DecimalOverflow \<and>
       (\<exists>c' s'. s' \<le> s \<and> c = c' * 10 ^ (s - s') \<and> \<not> 10 dvd c' \<and> (38 < s' \<or> max_coefficient < \<bar>c'\<bar>))"
proof (induction c s rule: exact_loop.induct)
  case (1 c s)
  consider (out) "\<not> ((s > 38 \<or> \<bar>c\<bar> > max_coefficient) \<and> s > 0)"
    | (stuck) "(s > 38 \<or> \<bar>c\<bar> > max_coefficient) \<and> s > 0" "\<not> 10 dvd c"
    | (step) "(s > 38 \<or> \<bar>c\<bar> > max_coefficient) \<and> s > 0" "10 dvd c"
    by blast
  then show ?case
  proof cases
    case out
    then have "exact_loop c s = Inr (c, s)" by (subst exact_loop.simps) auto
    with out show ?thesis by auto
  next
    case stuck
    then have "exact_loop c s = Inl DecimalOverflow" by (subst exact_loop.simps) auto
    with stuck show ?thesis by (auto intro!: exI [of _ c] exI [of _ s])
  next
    case step
    have e: "exact_loop c s = exact_loop (c div 10) (s - 1)"
      using step by (simp add: exact_loop.simps [of c s] sdiv_10_exact)
    have shift: "s' \<le> s \<and> c = c' * 10 ^ (s - s')" if "s' \<le> s - 1" "c div 10 = c' * 10 ^ (s - 1 - s')" for c' s'
    proof -
      have "c = c' * 10 ^ Suc (s - 1 - s')" using step(2) that(2) by (metis dvd_div_mult_self mult.assoc power_Suc2)
      moreover have "Suc (s - 1 - s') = s - s'" using that(1) step(1) by linarith
      ultimately have "c = c' * 10 ^ (s - s')" by (simp only:)
      with that(1) show ?thesis by simp
    qed
    have "case exact_loop (c div 10) (s - 1) of
       Inr (c', s') \<Rightarrow> s' \<le> s - 1 \<and> c div 10 = c' * 10 ^ (s - 1 - s') \<and> (s' = 0 \<or> s' \<le> 38 \<and> \<bar>c'\<bar> \<le> max_coefficient)
     | Inl e \<Rightarrow> e = DecimalOverflow \<and>
         (\<exists>c' s'. s' \<le> s - 1 \<and> c div 10 = c' * 10 ^ (s - 1 - s') \<and> \<not> 10 dvd c' \<and> (38 < s' \<or> max_coefficient < \<bar>c'\<bar>))"
      using "1.IH" [unfolded sdiv_10_exact [OF step(2)]] step by simp
    then show ?thesis unfolding e using shift by (auto split: sum.splits; blast)
  qed
qed

lemma not_representable:
  assumes "s' = 0 \<or> \<not> 10 dvd c'" "38 < s' \<or> max_coefficient < \<bar>c'\<bar>" "decimal_ok d"
  shows "decimal_value d \<noteq> of_int c' / 10 ^ s'"
proof
  assume "decimal_value d = of_int c' / 10 ^ s'"
  then have "(of_int (coefficient d * 10 ^ s') :: rat) = of_int (c' * 10 ^ dscale d)"
    by (simp add: decimal_value_def field_simps)
  then have eq: "coefficient d * 10 ^ s' = c' * 10 ^ dscale d" by (simp only: of_int_eq_iff)
  have ok: "\<bar>coefficient d\<bar> \<le> max_coefficient" "dscale d \<le> 38" using assms(3) by (simp_all add: decimal_ok_def)
  show False
  proof (cases "dscale d < s'")
    case True
    then have "s' = Suc (s' - dscale d - 1) + dscale d" by simp
    then have "c' * 10 ^ dscale d = coefficient d * 10 ^ Suc (s' - dscale d - 1) * 10 ^ dscale d"
      using eq by (metis mult.assoc power_add)
    then have "c' = 10 * (coefficient d * 10 ^ (s' - dscale d - 1))" by simp
    then have "10 dvd c'" by simp
    with assms(1) True show False by simp
  next
    case False
    then have "dscale d = (dscale d - s') + s'" by simp
    then have "coefficient d * 10 ^ s' = c' * 10 ^ (dscale d - s') * 10 ^ s'"
      using eq by (metis mult.assoc power_add)
    then have "\<bar>coefficient d\<bar> = \<bar>c'\<bar> * 10 ^ (dscale d - s')" by (simp add: abs_mult)
    then have "\<bar>c'\<bar> \<le> \<bar>coefficient d\<bar>" using mult_left_mono [of 1 "10 ^ (dscale d - s')" "\<bar>c'\<bar>"] by simp
    with assms(2) ok False show False by linarith
  qed
qed

lemma scaled_value: "s' \<le> s \<Longrightarrow> (of_int (c * 10 ^ (s - s')) :: rat) / 10 ^ s = of_int c / 10 ^ s'"
proof -
  assume "s' \<le> s"
  then have "(10 :: rat) ^ s = 10 ^ (s - s') * 10 ^ s'" by (simp flip: power_add)
  then show ?thesis by simp
qed

definition exact_result :: "decimal_error + decimal \<Rightarrow> rat \<Rightarrow> bool" where
  "exact_result r q \<longleftrightarrow>
     (case r of
        Inr d \<Rightarrow> decimal_ok d \<and> decimal_value d = q
      | Inl e \<Rightarrow> e = DecimalOverflow \<and> (\<forall>d. decimal_ok d \<longrightarrow> decimal_value d \<noteq> q))"

lemma new_of_big_ok: "\<bar>c\<bar> \<le> max_coefficient \<Longrightarrow> s \<le> 38 \<Longrightarrow> new_of_big c s = Inr \<lparr>coefficient = c, dscale = s\<rparr>"
  by (auto simp: new_of_big_def to_i128_def decimal_new_def max_coefficient_def abs_le_iff)

lemma new_of_big_overflow: "max_coefficient < \<bar>c\<bar> \<Longrightarrow> new_of_big c s = Inl DecimalOverflow"
  by (simp add: new_of_big_def to_i128_def decimal_new_def)

lemma exact_exact: "exact_result (exact c s) (of_int c / 10 ^ s)"
proof (cases "exact_loop c s")
  case (Inl e)
  then obtain c' s' where "e = DecimalOverflow" "s' \<le> s" "c = c' * 10 ^ (s - s')" "\<not> 10 dvd c'"
    "38 < s' \<or> max_coefficient < \<bar>c'\<bar>"
    using exact_loop_cases [where c = c and s = s] by auto
  then show ?thesis
    using not_representable [of s' c'] Inl by (simp add: exact_result_def exact_def scaled_value del: of_int_mult of_int_power)
next
  case (Inr p)
  obtain c' s' where p: "p = (c', s')" by (cases p)
  with Inr have l: "s' \<le> s" "c = c' * 10 ^ (s - s')" "s' = 0 \<or> s' \<le> 38 \<and> \<bar>c'\<bar> \<le> max_coefficient"
    using exact_loop_cases [where c = c and s = s] by auto
  have q: "of_int c / 10 ^ s = (of_int c' / 10 ^ s' :: rat)" unfolding l(2) by (rule scaled_value [OF l(1)])
  show ?thesis
  proof (cases "\<bar>c'\<bar> \<le> max_coefficient")
    case True
    with l(3) have "s' \<le> 38" by auto
    with True show ?thesis
      unfolding q by (simp add: exact_def Inr p new_of_big_ok exact_result_def decimal_ok_def decimal_value_def)
  next
    case False
    with l(3) show ?thesis
      unfolding q using not_representable [of s' c']
      by (auto simp: exact_def Inr p new_of_big_overflow exact_result_def)
  qed
qed

lemma aligned_value:
  assumes "aligned a b = (l, r, s)"
  shows "decimal_value a = of_int l / 10 ^ s" "decimal_value b = of_int r / 10 ^ s"
  using assms scaled_value [of "dscale a" s "coefficient a"] scaled_value [of "dscale b" s "coefficient b"]
  by (auto simp: aligned_def Let_def decimal_value_def)

text \<open>C34. Addition, subtraction and multiplication give a decimal that denotes exactly the sum, the
  difference or the product; they fail, with an overflow, only when no decimal denotes it.\<close>

theorem decimal_arithmetic_exact:
  "exact_result (decimal_checked_add a b) (decimal_value a + decimal_value b) \<and>
   exact_result (decimal_checked_sub a b) (decimal_value a - decimal_value b) \<and>
   exact_result (decimal_checked_mul a b) (decimal_value a * decimal_value b)"
proof -
  have add: "exact_result (decimal_checked_add a b) (decimal_value a + decimal_value b)" for a b
  proof -
    obtain l r s where al: "aligned a b = (l, r, s)" by (rule prod_cases3)
    show ?thesis
      using exact_exact [of "l + r" s] aligned_value [OF al]
      by (simp add: decimal_checked_add_def al add_divide_distrib)
  qed
  moreover have "exact_result (decimal_checked_sub a b) (decimal_value a - decimal_value b)"
    using add [of a "checked_neg b"] by (simp add: decimal_checked_sub_def checked_neg_def decimal_value_def)
  moreover have "exact_result (decimal_checked_mul a b) (decimal_value a * decimal_value b)"
    using exact_exact [of "coefficient a * coefficient b" "dscale a + dscale b"]
    by (simp add: decimal_checked_mul_def decimal_value_def power_add)
  ultimately show ?thesis by blast
qed

end
