(* ===== verification/Graph_Value.thy ===== *)
theory Graph_Value
  imports Relational_Value Decimal_Laws
begin

text \<open>
  Graph property values (\<open>crates/core/src/value.rs\<close>): the owned \<open>Value\<close> and the borrowed \<open>ValueRef\<close>,
  their hand-written orders, and the logical types of \<open>logical_type.rs\<close>. Theorems: the order of
  values satisfies the contract of \<open>Ord\<close>, the borrowed view preserves order, equality, type and
  contents, and equal values have the same logical type.

  \<^item> A map is the ascending association list of a \<open>BTreeMap\<close>; \<open>f64\<close> is its bits.
  \<^item> The types of chrono are third-party. A date is its day number, a time the seconds and the
    fraction, a zoned datetime its UTC datetime and offset, a time delta its seconds and
    nanoseconds: the components by which chrono orders them.
\<close>

type_synonym time_of_day = "nat \<times> nat"
type_synonym local_datetime = "int \<times> time_of_day"

record duration =
  months :: i64
  days :: i64
  delta :: "int \<times> int"

datatype gvalue =
    GNull
  | GBool bool
  | GInt i64
  | GFloat u64
  | GDecimal decimal
  | GString bytes
  | GBinary bytes
  | GVector bytes
  | GUuid bytes
  | GList "gvalue list"
  | GMap "(bytes \<times> gvalue) list"
  | GDate int
  | GLocalTime time_of_day
  | GLocalDateTime local_datetime
  | GDateTime local_datetime int
  | GDuration duration

fun gkind_rank :: "gvalue \<Rightarrow> nat" where
  "gkind_rank GNull = 0"
| "gkind_rank (GBool _) = 1"
| "gkind_rank (GInt _) = 2"
| "gkind_rank (GDecimal _) = 15"
| "gkind_rank (GFloat _) = 3"
| "gkind_rank (GString _) = 4"
| "gkind_rank (GBinary _) = 5"
| "gkind_rank (GVector _) = 9"
| "gkind_rank (GUuid _) = 6"
| "gkind_rank (GList _) = 7"
| "gkind_rank (GMap _) = 8"
| "gkind_rank (GDate _) = 10"
| "gkind_rank (GLocalTime _) = 11"
| "gkind_rank (GLocalDateTime _) = 12"
| "gkind_rank (GDateTime _ _) = 13"
| "gkind_rank (GDuration _) = 14"

definition datetime_cmp :: "local_datetime \<times> int \<Rightarrow> local_datetime \<times> int \<Rightarrow> ordering" where
  "datetime_cmp l r = ord_then (cmp_lin (fst l) (fst r)) (cmp_lin (snd l) (snd r))"

definition duration_cmp :: "duration \<Rightarrow> duration \<Rightarrow> ordering" where
  "duration_cmp l r =
     ord_then (cmp_lin (sint (months l)) (sint (months r)))
       (ord_then (cmp_lin (sint (days l)) (sint (days r))) (cmp_lin (delta l) (delta r)))"

text \<open>The derived \<open>Ord\<close> of a pair.\<close>

definition pair_cmp ::
    "('a \<Rightarrow> 'a \<Rightarrow> ordering) \<Rightarrow> ('b \<Rightarrow> 'b \<Rightarrow> ordering) \<Rightarrow> 'a \<times> 'b \<Rightarrow> 'a \<times> 'b \<Rightarrow> ordering" where
  "pair_cmp c d x y = ord_then (c (fst x) (fst y)) (d (snd x) (snd y))"

lemma lex_cmp_cong [fundef_cong]:
  "xs = xs' \<Longrightarrow> ys = ys' \<Longrightarrow> (\<And>x y. x \<in> set xs' \<Longrightarrow> y \<in> set ys' \<Longrightarrow> c x y = c' x y) \<Longrightarrow>
   lex_cmp c xs ys = lex_cmp c' xs' ys'"
proof (induction xs' arbitrary: xs ys ys')
  case Nil
  then show ?case by (cases ys') auto
next
  case (Cons x xs')
  then show ?case by (cases ys') auto
qed

lemma pair_cmp_cong [fundef_cong]:
  "x = x' \<Longrightarrow> y = y' \<Longrightarrow> (\<And>a b. a = fst x' \<Longrightarrow> b = fst y' \<Longrightarrow> c a b = c' a b) \<Longrightarrow>
   (\<And>a b. a = snd x' \<Longrightarrow> b = snd y' \<Longrightarrow> d a b = d' a b) \<Longrightarrow> pair_cmp c d x y = pair_cmp c' d' x' y'"
  by (simp add: pair_cmp_def)

lemma size_map_value: "(k, v) \<in> set m \<Longrightarrow> size v < size_list (size_prod (\<lambda>_. 0) size) m"
  by (induction m) auto

function gvalue_cmp :: "gvalue \<Rightarrow> gvalue \<Rightarrow> ordering" where
  "gvalue_cmp l r =
     ord_then (cmp_lin (gkind_rank l) (gkind_rank r))
       (case (l, r) of
          (GNull, GNull) \<Rightarrow> Equal
        | (GBool a, GBool b) \<Rightarrow> cmp_lin a b
        | (GInt a, GInt b) \<Rightarrow> cmp_lin (sint a) (sint b)
        | (GDecimal a, GDecimal b) \<Rightarrow> decimal_cmp a b
        | (GFloat a, GFloat b) \<Rightarrow> f64_total_cmp a b
        | (GString a, GString b) \<Rightarrow> lex_cmp cmp_lin a b
        | (GBinary a, GBinary b) \<Rightarrow> lex_cmp cmp_lin a b
        | (GVector a, GVector b) \<Rightarrow> lex_cmp cmp_lin a b
        | (GUuid a, GUuid b) \<Rightarrow> lex_cmp cmp_lin a b
        | (GList a, GList b) \<Rightarrow> lex_cmp gvalue_cmp a b
        | (GMap a, GMap b) \<Rightarrow> lex_cmp (pair_cmp (lex_cmp cmp_lin) gvalue_cmp) a b
        | (GDate a, GDate b) \<Rightarrow> cmp_lin a b
        | (GLocalTime a, GLocalTime b) \<Rightarrow> cmp_lin a b
        | (GLocalDateTime a, GLocalDateTime b) \<Rightarrow> cmp_lin a b
        | (GDateTime a i, GDateTime b j) \<Rightarrow> datetime_cmp (a, i) (b, j)
        | (GDuration a, GDuration b) \<Rightarrow> duration_cmp a b
        | _ \<Rightarrow> Equal)"
  by auto
termination
  by (relation "measure (size \<circ> fst)") (auto dest: size_map_value simp: less_Suc_eq_le size_list_estimation')

declare gvalue_cmp.simps [simp del]

section \<open>The contract of Ord for nested values\<close>

text \<open>What the comparisons of x with y and of y with z say about that of x with z; unlike transitivity, it
  passes through \<open>then\<close>.\<close>

definition trans3 :: "ordering \<Rightarrow> ordering \<Rightarrow> ordering \<Rightarrow> bool" where
  "trans3 a b r \<longleftrightarrow> (a = Equal \<longrightarrow> r = b) \<and> (b = Equal \<longrightarrow> r = a) \<and> (a = b \<longrightarrow> r = a)"

lemma trans3_then: "trans3 a b r \<Longrightarrow> trans3 a' b' r' \<Longrightarrow> trans3 (ord_then a a') (ord_then b b') (ord_then r r')"
  by (cases a; cases b; cases r) (auto simp: trans3_def)

lemma trans3_lin: "trans3 (cmp_lin x y) (cmp_lin y z) (cmp_lin x z)"
  by (auto simp: trans3_def cmp_lin_def)

lemma trans3_Equal [simp]: "trans3 Equal b b" "trans3 a Equal a" "trans3 a a a" "trans3 Less Greater r" "trans3 Greater Less r"
  "trans3 Less b Less" "trans3 a Greater Greater" "trans3 a Less Less" "trans3 Greater b Greater"
  by (auto simp: trans3_def)

lemma trans3_lex:
  assumes "\<And>x y z. x \<in> set xs \<Longrightarrow> trans3 (c x y) (c y z) (c x z)"
  shows "trans3 (lex_cmp c xs ys) (lex_cmp c ys zs) (lex_cmp c xs zs)"
  using assms
proof (induction xs arbitrary: ys zs)
  case Nil
  show ?case by (cases ys; cases zs) simp_all
next
  case (Cons x xs)
  have "trans3 (lex_cmp c xs as) (lex_cmp c as bs) (lex_cmp c xs bs)" for as bs
    using Cons by simp
  then show ?case using Cons.prems [of x] by (cases ys; cases zs) (simp_all add: trans3_then)
qed

lemma rev_lex:
  assumes "\<And>x y. x \<in> set xs \<Longrightarrow> c y x = ord_reverse (c x y)"
  shows "lex_cmp c ys xs = ord_reverse (lex_cmp c xs ys)"
  using assms
proof (induction xs arbitrary: ys)
  case Nil
  then show ?case by (cases ys) auto
next
  case (Cons x xs)
  then show ?case by (cases ys) (auto simp: ord_reverse_then)
qed

lemma refl_lex: "(\<And>x. x \<in> set xs \<Longrightarrow> c x x = Equal) \<Longrightarrow> lex_cmp c xs xs = Equal"
  by (induction xs) auto

lemma rust_ord_trans3:
  assumes "\<And>x. c x x = Equal" "\<And>x y. c y x = ord_reverse (c x y)" "\<And>x y z. trans3 (c x y) (c y z) (c x z)"
  shows "rust_ord c"
proof
  fix x y z
  show "c x x = Equal" "c y x = ord_reverse (c x y)" by (fact assms)+
  assume "c x y \<noteq> Greater" "c y z \<noteq> Greater"
  with assms(3) [of x y z] show "c x z \<noteq> Greater"
    by (cases "c x y"; cases "c y z") (auto simp: trans3_def)
qed

lemma rev_lin: "cmp_lin y x = ord_reverse (cmp_lin x y)"
  by (rule lin_ord.cmp_rev)

lemmas payload_cmps = datetime_cmp_def duration_cmp_def decimal_cmp_def f64_total_cmp_def

lemma gvalue_cmp_refl: "gvalue_cmp v v = Equal"
proof (induction v)
  case (GList vs)
  then show ?case by (simp add: gvalue_cmp.simps lin_ord.cmp_refl refl_lex)
next
  case (GMap m)
  then have "lex_cmp (pair_cmp (lex_cmp cmp_lin) gvalue_cmp) m m = Equal"
    by (intro refl_lex) (force simp: pair_cmp_def refl_lex lin_ord.cmp_refl)
  then show ?case by (simp add: gvalue_cmp.simps lin_ord.cmp_refl)
qed (simp_all add: gvalue_cmp.simps payload_cmps lin_ord.cmp_refl refl_lex)

lemma gkind_cases:
  assumes "gkind_rank a = gkind_rank b"
  obtains "a = GNull" "b = GNull" | x y where "a = GBool x" "b = GBool y" | x y where "a = GInt x" "b = GInt y"
    | x y where "a = GFloat x" "b = GFloat y" | x y where "a = GDecimal x" "b = GDecimal y"
    | x y where "a = GString x" "b = GString y" | x y where "a = GBinary x" "b = GBinary y"
    | x y where "a = GVector x" "b = GVector y" | x y where "a = GUuid x" "b = GUuid y"
    | x y where "a = GList x" "b = GList y" | x y where "a = GMap x" "b = GMap y"
    | x y where "a = GDate x" "b = GDate y" | x y where "a = GLocalTime x" "b = GLocalTime y"
    | x y where "a = GLocalDateTime x" "b = GLocalDateTime y"
    | x i y j where "a = GDateTime x i" "b = GDateTime y j" | x y where "a = GDuration x" "b = GDuration y"
  using assms by (cases a; cases b; simp)

lemma gvalue_cmp_ranks: "gkind_rank a \<noteq> gkind_rank b \<Longrightarrow> gvalue_cmp a b = cmp_lin (gkind_rank a) (gkind_rank b)"
  by (subst gvalue_cmp.simps) (simp add: cmp_lin_def)

lemma gvalue_cmp_same:
  "gvalue_cmp GNull GNull = Equal"
  "gvalue_cmp (GBool a) (GBool b) = cmp_lin a b"
  "gvalue_cmp (GInt i) (GInt j) = cmp_lin (sint i) (sint j)"
  "gvalue_cmp (GDecimal d) (GDecimal e) = lex_cmp cmp_lin (to_ordered_bytes d) (to_ordered_bytes e)"
  "gvalue_cmp (GFloat f) (GFloat g) = cmp_lin (sint (total_bits f)) (sint (total_bits g))"
  "gvalue_cmp (GString s) (GString t) = lex_cmp cmp_lin s t"
  "gvalue_cmp (GBinary s) (GBinary t) = lex_cmp cmp_lin s t"
  "gvalue_cmp (GVector s) (GVector t) = lex_cmp cmp_lin s t"
  "gvalue_cmp (GUuid s) (GUuid t) = lex_cmp cmp_lin s t"
  "gvalue_cmp (GList vs) (GList ws) = lex_cmp gvalue_cmp vs ws"
  "gvalue_cmp (GMap m) (GMap n) = lex_cmp (pair_cmp (lex_cmp cmp_lin) gvalue_cmp) m n"
  "gvalue_cmp (GDate x) (GDate y) = cmp_lin x y"
  "gvalue_cmp (GLocalTime p) (GLocalTime q) = cmp_lin p q"
  "gvalue_cmp (GLocalDateTime l) (GLocalDateTime r) = cmp_lin l r"
  "gvalue_cmp (GDateTime l x) (GDateTime r y) = ord_then (cmp_lin l r) (cmp_lin x y)"
  "gvalue_cmp (GDuration u) (GDuration w) =
     ord_then (cmp_lin (sint (months u)) (sint (months w)))
       (ord_then (cmp_lin (sint (days u)) (sint (days w))) (cmp_lin (delta u) (delta w)))"
  by (simp_all add: gvalue_cmp.simps lin_ord.cmp_refl payload_cmps)

lemma rev_lex_lin: "lex_cmp cmp_lin ys xs = ord_reverse (lex_cmp cmp_lin xs ys)"
  by (rule rev_lex) (rule rev_lin)

lemma rev_ranks: "gkind_rank v \<noteq> gkind_rank w \<Longrightarrow> gvalue_cmp w v = ord_reverse (gvalue_cmp v w)"
  by (metis gvalue_cmp_ranks rev_lin)

lemma rev_scalar:
  assumes "gkind_rank v \<notin> {7, 8}"
  shows "gvalue_cmp w v = ord_reverse (gvalue_cmp v w)"
proof (cases "gkind_rank v = gkind_rank w")
  case True
  show ?thesis
    by (insert assms True, cases v; cases w; ((simp; fail) |
        (simp only: gvalue_cmp_same, rule rev_lex_lin) | (auto simp: gvalue_cmp_same ord_reverse_then cmp_lin_def; fail)))
qed (rule rev_ranks)

lemma gvalue_cmp_rev: "gvalue_cmp w v = ord_reverse (gvalue_cmp v w)"
proof (induction v arbitrary: w)
  case (GList vs)
  show ?case
  proof (cases w)
    case w: (GList ws)
    show ?thesis unfolding w gvalue_cmp_same by (rule rev_lex) (rule GList.IH)
  qed (rule rev_ranks, simp)+
next
  case (GMap m)
  show ?case
  proof (cases w)
    case w: (GMap n)
    have "pair_cmp (lex_cmp cmp_lin) gvalue_cmp y x = ord_reverse (pair_cmp (lex_cmp cmp_lin) gvalue_cmp x y)"
      if "x \<in> set m" for x y
      using GMap.IH [OF that, of "snd x" "snd y"] rev_lex_lin [of "fst y" "fst x"]
      by (cases x) (simp add: pair_cmp_def ord_reverse_then)
    then show ?thesis unfolding w gvalue_cmp_same by (rule rev_lex)
  qed (rule rev_ranks, simp)+
qed (rule rev_scalar, simp)+

lemma trans_ranks:
  assumes "gkind_rank u \<noteq> gkind_rank v \<or> gkind_rank v \<noteq> gkind_rank w"
  shows "trans3 (gvalue_cmp u v) (gvalue_cmp v w) (gvalue_cmp u w)"
proof -
  consider "gkind_rank u = gkind_rank v" "gkind_rank v \<noteq> gkind_rank w"
    | "gkind_rank u \<noteq> gkind_rank v" "gkind_rank v = gkind_rank w"
    | "gkind_rank u \<noteq> gkind_rank v" "gkind_rank v \<noteq> gkind_rank w" using assms by blast
  then show ?thesis
  proof cases
    case 3
    show ?thesis
    proof (cases "gkind_rank u = gkind_rank w")
      case True
      with 3 show ?thesis by (auto simp: gvalue_cmp_ranks cmp_lin_def)
    next
      case False
      with 3 trans3_lin [of "gkind_rank u" "gkind_rank v" "gkind_rank w"] show ?thesis by (simp add: gvalue_cmp_ranks)
    qed
  qed (auto simp: gvalue_cmp_ranks cmp_lin_def)
qed

lemma trans3_lex_lin: "trans3 (lex_cmp cmp_lin x y) (lex_cmp cmp_lin y z) (lex_cmp cmp_lin x z)"
  by (rule trans3_lex) (rule trans3_lin)

lemmas trans3_intros = trans3_lin trans3_lex_lin trans3_then

lemma trans_scalar:
  assumes "gkind_rank u \<notin> {7, 8}"
  shows "trans3 (gvalue_cmp u v) (gvalue_cmp v w) (gvalue_cmp u w)"
proof (cases "gkind_rank u = gkind_rank v \<and> gkind_rank v = gkind_rank w")
  case True
  show ?thesis
    by (insert assms True, cases u; cases v; (simp; fail)?; cases w;
        ((simp; fail) | (simp only: gvalue_cmp_same, intro trans3_intros) | (simp add: gvalue_cmp_same; fail)))
qed (rule trans_ranks, blast)

lemma gvalue_cmp_trans: "trans3 (gvalue_cmp u v) (gvalue_cmp v w) (gvalue_cmp u w)"
proof (induction u arbitrary: v w)
  case (GList us)
  show ?case
  proof (cases "gkind_rank v = 7 \<and> gkind_rank w = 7")
    case True
    then obtain vs ws where "v = GList vs" "w = GList ws" by (cases v; cases w; simp)
    then show ?thesis by (simp only: gvalue_cmp_same) (rule trans3_lex, rule GList.IH)
  qed (rule trans_ranks, auto)
next
  case (GMap us)
  show ?case
  proof (cases "gkind_rank v = 8 \<and> gkind_rank w = 8")
    case True
    then obtain vs ws where vw: "v = GMap vs" "w = GMap ws" by (cases v; cases w; simp)
    let ?c = "pair_cmp (lex_cmp cmp_lin) gvalue_cmp"
    have "trans3 (?c x y) (?c y z) (?c x z)" if "x \<in> set us" for x y z
      using GMap.IH [OF that, of "snd x" "snd y" "snd z"] unfolding pair_cmp_def
      by (intro trans3_then trans3_lex_lin) (cases x; simp)
    then show ?thesis unfolding vw gvalue_cmp_same by (rule trans3_lex)
  qed (rule trans_ranks, auto)
qed (rule trans_scalar, simp)+

interpretation gvalue_ord: rust_ord gvalue_cmp
  by (rule rust_ord_trans3) (rule gvalue_cmp_refl gvalue_cmp_rev gvalue_cmp_trans)+

section \<open>Equality and Hash\<close>

definition gvalue_eq :: "gvalue \<Rightarrow> gvalue \<Rightarrow> bool" where
  "gvalue_eq a b \<longleftrightarrow> gvalue_cmp a b = Equal"

text \<open>What a value feeds to the hasher: integers, byte strings and the length prefixes of collections.\<close>

datatype hash_token = HInt int | HBytes bytes | HLen nat

fun gvalue_hash :: "gvalue \<Rightarrow> hash_token list" where
  "gvalue_hash GNull = [HInt 0]"
| "gvalue_hash (GBool b) = [HInt 1, HInt (of_bool b)]"
| "gvalue_hash (GInt i) = [HInt 2, HInt (sint i)]"
| "gvalue_hash (GDecimal d) = [HInt 15, HInt (fst (normalized d)), HInt (int (snd (normalized d)))]"
| "gvalue_hash (GFloat f) = [HInt 3, HInt (uint f)]"
| "gvalue_hash (GString s) = [HInt 4, HBytes s]"
| "gvalue_hash (GBinary s) = [HInt 5, HLen (length s), HBytes s]"
| "gvalue_hash (GVector s) = [HInt 9, HLen (length s), HBytes s]"
| "gvalue_hash (GUuid s) = [HInt 6, HBytes s]"
| "gvalue_hash (GList vs) = HInt 7 # HLen (length vs) # concat (map gvalue_hash vs)"
| "gvalue_hash (GMap m) = HInt 8 # HLen (length m) # concat (map (\<lambda>(k, v). HBytes k # gvalue_hash v) m)"
| "gvalue_hash (GDate d) = [HInt 10, HInt d]"
| "gvalue_hash (GLocalTime t) = [HInt 11, HInt (int (fst t)), HInt (int (snd t))]"
| "gvalue_hash (GLocalDateTime t) =
     [HInt 12, HInt (fst t), HInt (int (fst (snd t))), HInt (int (snd (snd t)))]"
| "gvalue_hash (GDateTime t offset) =
     [HInt 13, HInt (fst t), HInt (int (fst (snd t))), HInt (int (snd (snd t))), HInt offset]"
| "gvalue_hash (GDuration d) =
     [HInt 14, HInt (sint (months d)), HInt (sint (days d)), HInt (fst (delta d)), HInt (snd (delta d))]"

text \<open>The decimals inside a value are within the bounds that their constructors enforce.\<close>

fun gvalue_ok :: "gvalue \<Rightarrow> bool" where
  "gvalue_ok (GDecimal d) \<longleftrightarrow> decimal_ok d"
| "gvalue_ok (GList vs) \<longleftrightarrow> list_all gvalue_ok vs"
| "gvalue_ok (GMap m) \<longleftrightarrow> list_all (\<lambda>(k, v). gvalue_ok v) m"
| "gvalue_ok _ \<longleftrightarrow> True"

lemma lex_Equal_all2:
  "lex_cmp c xs ys = Equal \<longleftrightarrow> list_all2 (\<lambda>x y. c x y = Equal) xs ys"
proof (induction xs arbitrary: ys)
  case Nil
  then show ?case by (cases ys) simp_all
next
  case (Cons x xs)
  then show ?case by (cases ys) (simp_all add: cmp_simps)
qed

lemma lex_lin_Equal: "lex_cmp cmp_lin xs ys = Equal \<longleftrightarrow> xs = ys"
  by (simp add: lex_cmp_lin cmp_simps)

lemma gvalue_Equal_rank: "gvalue_cmp a b = Equal \<Longrightarrow> gkind_rank a = gkind_rank b"
  by (metis gvalue_cmp_ranks cmp_lin_simps(2))

lemma total_bits_inj: "total_bits f = total_bits g \<Longrightarrow> f = g"
proof -
  have "total_bits (total_bits b) = b" for b
    by (simp add: total_bits_def bit_xor_iff bit_mask_iff xor.assoc)
  then show "total_bits f = total_bits g \<Longrightarrow> f = g" by metis
qed

lemma normalized_Equal:
  assumes "decimal_ok d" "decimal_ok e" "lex_cmp cmp_lin (to_ordered_bytes d) (to_ordered_bytes e) = Equal"
  shows "normalized d = normalized e"
proof -
  have "units38 d = units38 e"
    using assms ordered_bytes_units [OF assms(1,2)] by (simp add: lex_lin_Equal)
  then show ?thesis using decimal_eq_units [OF assms(1,2)] by (simp add: decimal_eq_def)
qed

lemma map_eq_all2:
  "list_all2 P xs ys \<Longrightarrow> (\<And>x y. x \<in> set xs \<Longrightarrow> y \<in> set ys \<Longrightarrow> P x y \<Longrightarrow> f x = f y) \<Longrightarrow> map f xs = map f ys"
  by (induction rule: list_all2_induct) auto

lemma hash_scalar:
  assumes "gkind_rank a \<notin> {7, 8}" "gvalue_cmp a b = Equal" "gvalue_ok a" "gvalue_ok b"
  shows "gvalue_hash a = gvalue_hash b"
proof -
  have f: "sint (total_bits f) = sint (total_bits g) \<longleftrightarrow> f = g" for f g
    using total_bits_inj signed_word_eqI by blast
  have d: "normalized x = normalized y" if "a = GDecimal x" "b = GDecimal y" for x y
    using that assms normalized_Equal [of x y] by (simp add: gvalue_cmp_same)
  show ?thesis
    by (rule gkind_cases [OF gvalue_Equal_rank [OF assms(2)]])
      (use assms(1,2) d in \<open>simp_all add: gvalue_cmp_same cmp_simps lex_lin_Equal f\<close>)
qed

lemma hash_Equal: "gvalue_cmp a b = Equal \<Longrightarrow> gvalue_ok a \<Longrightarrow> gvalue_ok b \<Longrightarrow> gvalue_hash a = gvalue_hash b"
proof (induction a arbitrary: b)
  case (GList vs)
  then obtain ws where b: "b = GList ws" using gvalue_Equal_rank [of "GList vs" b] by (cases b) auto
  have "list_all2 (\<lambda>x y. gvalue_cmp x y = Equal) vs ws" using GList.prems(1) by (simp add: b gvalue_cmp_same lex_Equal_all2)
  moreover have "gvalue_hash x = gvalue_hash y" if "x \<in> set vs" "y \<in> set ws" "gvalue_cmp x y = Equal" for x y
    using that GList by (simp add: b list_all_iff)
  ultimately have "map gvalue_hash vs = map gvalue_hash ws" by (rule map_eq_all2)
  with \<open>list_all2 _ vs ws\<close> show ?case by (simp add: b list_all2_lengthD)
next
  case (GMap m)
  then obtain n where b: "b = GMap n" using gvalue_Equal_rank [of "GMap m" b] by (cases b) auto
  have l: "list_all2 (\<lambda>x y. fst x = fst y \<and> gvalue_cmp (snd x) (snd y) = Equal) m n"
    using GMap.prems(1) by (simp add: b gvalue_cmp_same lex_Equal_all2 pair_cmp_def cmp_simps list.rel_eq)
  moreover have "gvalue_hash (snd x) = gvalue_hash (snd y)"
    if "x \<in> set m" "y \<in> set n" "gvalue_cmp (snd x) (snd y) = Equal" for x y
  proof -
    obtain k v k' v' where xy: "x = (k, v)" "y = (k', v')" by (cases x; cases y)
    have "gvalue_ok v" "gvalue_ok v'" using GMap.prems(2,3) that(1,2) xy by (auto simp: b list_all_iff)
    with GMap.IH [of "(k, v)" v v'] that xy show ?thesis by simp
  qed
  ultimately have "map (\<lambda>(k, v). HBytes k # gvalue_hash v) m = map (\<lambda>(k, v). HBytes k # gvalue_hash v) n"
    by (elim map_eq_all2) (auto simp: case_prod_beta)
  with l show ?case by (simp add: b list_all2_lengthD)
qed (rule hash_scalar, simp, assumption+)+

section \<open>Borrowed values and logical types\<close>

datatype vref =
    RNull
  | RBool bool
  | RInt i64
  | RFloat u64
  | RDecimal decimal
  | RString bytes
  | RBinary bytes
  | RVector bytes nat
  | RUuid bytes
  | RList "gvalue list"
  | RMap "(bytes \<times> gvalue) list"
  | RDate int
  | RLocalTime time_of_day
  | RLocalDateTime local_datetime
  | RDateTime local_datetime int
  | RDuration duration

fun as_ref :: "gvalue \<Rightarrow> vref" where
  "as_ref GNull = RNull"
| "as_ref (GBool b) = RBool b"
| "as_ref (GInt i) = RInt i"
| "as_ref (GDecimal d) = RDecimal d"
| "as_ref (GFloat f) = RFloat f"
| "as_ref (GString s) = RString s"
| "as_ref (GBinary s) = RBinary s"
| "as_ref (GVector v) = RVector v (vector_dimension v)"
| "as_ref (GUuid u) = RUuid u"
| "as_ref (GList vs) = RList vs"
| "as_ref (GMap m) = RMap m"
| "as_ref (GDate d) = RDate d"
| "as_ref (GLocalTime t) = RLocalTime t"
| "as_ref (GLocalDateTime t) = RLocalDateTime t"
| "as_ref (GDateTime t offset) = RDateTime t offset"
| "as_ref (GDuration d) = RDuration d"

fun to_owned_value :: "vref \<Rightarrow> gvalue" where
  "to_owned_value RNull = GNull"
| "to_owned_value (RBool b) = GBool b"
| "to_owned_value (RInt i) = GInt i"
| "to_owned_value (RDecimal d) = GDecimal d"
| "to_owned_value (RFloat f) = GFloat f"
| "to_owned_value (RString s) = GString s"
| "to_owned_value (RBinary s) = GBinary s"
| "to_owned_value (RVector v _) = GVector v"
| "to_owned_value (RUuid u) = GUuid u"
| "to_owned_value (RList vs) = GList vs"
| "to_owned_value (RMap m) = GMap m"
| "to_owned_value (RDate d) = GDate d"
| "to_owned_value (RLocalTime t) = GLocalTime t"
| "to_owned_value (RLocalDateTime t) = GLocalDateTime t"
| "to_owned_value (RDateTime t offset) = GDateTime t offset"
| "to_owned_value (RDuration d) = GDuration d"

fun rkind_rank :: "vref \<Rightarrow> nat" where
  "rkind_rank RNull = 0"
| "rkind_rank (RBool _) = 1"
| "rkind_rank (RInt _) = 2"
| "rkind_rank (RDecimal _) = 15"
| "rkind_rank (RFloat _) = 3"
| "rkind_rank (RString _) = 4"
| "rkind_rank (RBinary _) = 5"
| "rkind_rank (RVector _ _) = 9"
| "rkind_rank (RUuid _) = 6"
| "rkind_rank (RList _) = 7"
| "rkind_rank (RMap _) = 8"
| "rkind_rank (RDate _) = 10"
| "rkind_rank (RLocalTime _) = 11"
| "rkind_rank (RLocalDateTime _) = 12"
| "rkind_rank (RDateTime _ _) = 13"
| "rkind_rank (RDuration _) = 14"

text \<open>\<open>Ord\<close> of \<open>ValueRef\<close>; that of \<open>VectorRef\<close> is derived from its encoding and its dimension.\<close>

definition vref_cmp :: "vref \<Rightarrow> vref \<Rightarrow> ordering" where
  "vref_cmp l r =
     ord_then (cmp_lin (rkind_rank l) (rkind_rank r))
       (case (l, r) of
          (RNull, RNull) \<Rightarrow> Equal
        | (RBool a, RBool b) \<Rightarrow> cmp_lin a b
        | (RInt a, RInt b) \<Rightarrow> cmp_lin (sint a) (sint b)
        | (RDecimal a, RDecimal b) \<Rightarrow> decimal_cmp a b
        | (RFloat a, RFloat b) \<Rightarrow> f64_total_cmp a b
        | (RString a, RString b) \<Rightarrow> lex_cmp cmp_lin a b
        | (RBinary a, RBinary b) \<Rightarrow> lex_cmp cmp_lin a b
        | (RVector a m, RVector b n) \<Rightarrow> ord_then (lex_cmp cmp_lin a b) (cmp_lin m n)
        | (RUuid a, RUuid b) \<Rightarrow> lex_cmp cmp_lin a b
        | (RList a, RList b) \<Rightarrow> lex_cmp gvalue_cmp a b
        | (RMap a, RMap b) \<Rightarrow> lex_cmp (pair_cmp (lex_cmp cmp_lin) gvalue_cmp) a b
        | (RDate a, RDate b) \<Rightarrow> cmp_lin a b
        | (RLocalTime a, RLocalTime b) \<Rightarrow> cmp_lin a b
        | (RLocalDateTime a, RLocalDateTime b) \<Rightarrow> cmp_lin a b
        | (RDateTime a i, RDateTime b j) \<Rightarrow> datetime_cmp (a, i) (b, j)
        | (RDuration a, RDuration b) \<Rightarrow> duration_cmp a b
        | _ \<Rightarrow> Equal)"

datatype logical_type =
    LAny | LBoolean | LInt64 | LFloat64 | LDecimal | LString | LText | LBinary | LUuid
  | LVector nat | LList | LMap | LDate | LLocalTime | LLocalDateTime | LDateTime | LDuration

fun vref_logical_type :: "vref \<Rightarrow> logical_type option" where
  "vref_logical_type RNull = None"
| "vref_logical_type (RBool _) = Some LBoolean"
| "vref_logical_type (RInt _) = Some LInt64"
| "vref_logical_type (RDecimal _) = Some LDecimal"
| "vref_logical_type (RFloat _) = Some LFloat64"
| "vref_logical_type (RString _) = Some LString"
| "vref_logical_type (RBinary _) = Some LBinary"
| "vref_logical_type (RVector _ d) = Some (LVector d)"
| "vref_logical_type (RUuid _) = Some LUuid"
| "vref_logical_type (RList _) = Some LList"
| "vref_logical_type (RMap _) = Some LMap"
| "vref_logical_type (RDate _) = Some LDate"
| "vref_logical_type (RLocalTime _) = Some LLocalTime"
| "vref_logical_type (RLocalDateTime _) = Some LLocalDateTime"
| "vref_logical_type (RDateTime _ _) = Some LDateTime"
| "vref_logical_type (RDuration _) = Some LDuration"

definition logical_type_of :: "gvalue \<Rightarrow> logical_type option" where
  "logical_type_of v = vref_logical_type (as_ref v)"

definition logical_accepts :: "logical_type \<Rightarrow> vref \<Rightarrow> bool" where
  "logical_accepts t v \<longleftrightarrow>
     (if v = RNull \<or> t = LAny then True
      else case (t, vref_logical_type v) of
             (LText, Some LString) \<Rightarrow> True
           | (_, Some actual) \<Rightarrow> t = actual
           | (_, None) \<Rightarrow> True)"

lemma vref_cmp_as_ref: "vref_cmp (as_ref a) (as_ref b) = gvalue_cmp a b"
proof (cases "gkind_rank a = gkind_rank b")
  case True
  have v: "ord_then (lex_cmp cmp_lin x y) (cmp_lin (vector_dimension x) (vector_dimension y)) = lex_cmp cmp_lin x y" for x y
    by (cases "x = y") (auto simp: lin_ord.cmp_refl refl_lex lex_lin_Equal cmp_lin_def lex_cmp_lin)
  show ?thesis
    by (rule gkind_cases [OF True]) (simp_all add: vref_cmp_def gvalue_cmp_same lin_ord.cmp_refl payload_cmps v)
next
  case False
  have "rkind_rank (as_ref v) = gkind_rank v" for v by (cases v) simp_all
  with False show ?thesis by (simp add: vref_cmp_def gvalue_cmp_ranks) (simp add: cmp_lin_def)
qed

text \<open>
  C28. The borrowed view of a value is faithful: comparing the views gives the order of the values, and
  copying a view back gives the value. The order itself is a total order up to \<open>Equal\<close> (it satisfies
  the contract of \<open>Ord\<close> on nested lists and maps), and \<open>Hash\<close> agrees with \<open>Eq\<close>: equal values feed
  the hasher the same input, decimals of different scales, signed zeros and NaNs included.
\<close>

theorem value_ref_agrees:
  "vref_cmp (as_ref a) (as_ref b) = gvalue_cmp a b \<and> to_owned_value (as_ref a) = a \<and> rust_ord gvalue_cmp \<and>
   (gvalue_ok a \<and> gvalue_ok b \<and> gvalue_eq a b \<longrightarrow> gvalue_hash a = gvalue_hash b)"
proof -
  have "to_owned_value (as_ref a) = a" by (cases a) simp_all
  then show ?thesis
    using vref_cmp_as_ref gvalue_ord.rust_ord_axioms hash_Equal by (auto simp: gvalue_eq_def)
qed

theorem value_ref_agrees_witness:
  "gvalue_hash (GList [GDecimal \<lparr>coefficient = 15, dscale = 1\<rparr>]) = gvalue_hash (GList [GDecimal \<lparr>coefficient = 150, dscale = 2\<rparr>])"
proof -
  let ?d = "\<lparr>coefficient = 15, dscale = 1\<rparr>" and ?e = "\<lparr>coefficient = 150, dscale = 2\<rparr>"
  have ok: "decimal_ok ?d" "decimal_ok ?e" by (simp_all add: decimal_ok_def max_coefficient_def)
  have "units38 ?d = units38 ?e" by (simp add: units38_def)
  then have "gvalue_eq (GList [GDecimal ?d]) (GList [GDecimal ?e])"
    using ordered_bytes_units [OF ok] by (simp add: gvalue_eq_def gvalue_cmp_same lex_lin_Equal)
  with value_ref_agrees [of "GList [GDecimal ?d]" "GList [GDecimal ?e]"] ok show ?thesis by simp
qed

text \<open>
  C29. Logical types are sound: values that are equal have the same logical type, every value is accepted
  by its own type and by \<open>ANY\<close>, \<open>TEXT\<close> accepts exactly the strings and NULL, and any other type
  accepts exactly NULL and the values of that type.
\<close>

theorem value_types_sound:
  "(gvalue_eq a b \<longrightarrow> logical_type_of a = logical_type_of b) \<and>
   logical_accepts LAny (as_ref a) \<and>
   (\<forall>t. t \<noteq> LAny \<longrightarrow>
      (logical_accepts t (as_ref a) \<longleftrightarrow>
         a = GNull \<or> logical_type_of a = Some (if t = LText then LString else t)))"
proof -
  have "logical_type_of a = logical_type_of b" if "gvalue_cmp a b = Equal"
    by (rule gkind_cases [OF gvalue_Equal_rank [OF that]])
      (use that in \<open>auto simp: logical_type_of_def gvalue_cmp_same lex_lin_Equal\<close>)
  moreover have "logical_accepts t (as_ref a) \<longleftrightarrow>
      a = GNull \<or> logical_type_of a = Some (if t = LText then LString else t)" if "t \<noteq> LAny" for t
    using that by (cases a; cases t) (auto simp: logical_accepts_def logical_type_of_def)
  ultimately show ?thesis by (auto simp: gvalue_eq_def logical_accepts_def)
qed

theorem value_types_sound_witness:
  "logical_accepts LText (as_ref (GString [65])) \<and> \<not> logical_accepts LText (as_ref (GInt 1))"
  using value_types_sound [of "GString [65]"] value_types_sound [of "GInt 1"] by (simp add: logical_type_of_def)

section \<open>Weights\<close>

fun estimated_value_bytes :: "gvalue \<Rightarrow> nat" where
  "estimated_value_bytes GNull = 1"
| "estimated_value_bytes (GBool _) = 1"
| "estimated_value_bytes (GInt _) = 8"
| "estimated_value_bytes (GFloat _) = 8"
| "estimated_value_bytes (GDecimal _) = 17"
| "estimated_value_bytes (GString s) = length s"
| "estimated_value_bytes (GBinary s) = length s"
| "estimated_value_bytes (GVector v) = length v"
| "estimated_value_bytes (GUuid _) = 16"
| "estimated_value_bytes (GDate _) = 28"
| "estimated_value_bytes (GLocalTime _) = 28"
| "estimated_value_bytes (GLocalDateTime _) = 28"
| "estimated_value_bytes (GDateTime _ _) = 28"
| "estimated_value_bytes (GDuration _) = 28"
| "estimated_value_bytes (GList vs) = foldl sat_add 16 (map estimated_value_bytes vs)"
| "estimated_value_bytes (GMap m) =
     foldl (\<lambda>bytes (k, b). sat_add (sat_add (sat_add bytes (length k)) b) 16) 0
       (map (\<lambda>(k, v). (k, estimated_value_bytes v)) m)"

end
