(* ===== verification/Ordered_Key.thy ===== *)
theory Ordered_Key
  imports Relational_Value Decimal_Laws Wire
begin

text \<open>
  The order-preserving encoder of index keys (\<open>crates/storage/src/relational/ordered_key.rs\<close> and
  \<open>ordered_key/encode.rs\<close>): one grammar, written once over the trait \<open>Output\<close>, and its five sinks
  (\<open>Vec<u8>\<close>, \<open>Cooperative\<close>, \<open>Count\<close>, \<open>Admitted\<close>, \<open>InventoryOutput\<close>).

  \<^item> A sink is the record \<open>output\<close> of the trait's operations on the sink's state. The state of the
    checkpoint work context (admission and cancellation of background work) is part of the state of
    the sinks that carry one; the context itself is the parameter \<open>work\<close>.
  \<^item> A message of \<open>Corrupt\<close> is kept as its text; \<open>KeyFailure\<close> keeps the error whose printed form the
    source stores.
\<close>

datatype ordered_key_error = UnsupportedOverflow | UnsupportedVector | CorruptKey string

section \<open>The grammar\<close>

record ('s, 'e) key_output =
  raw :: "bytes \<Rightarrow> 's \<Rightarrow> 'e + 's"
  start_unit :: "'s \<Rightarrow> 'e + 's"
  finish_unit :: "'s \<Rightarrow> 's"
  from_key_error :: "ordered_key_error \<Rightarrow> 'e"

text \<open>The operator \<open>?\<close> of the source.\<close>

fun try_then :: "'e + 'a \<Rightarrow> ('a \<Rightarrow> 'e + 'b) \<Rightarrow> 'e + 'b" where
  "try_then (Inl e) f = Inl e"
| "try_then (Inr x) f = f x"

definition output_unit :: "('s, 'e) key_output \<Rightarrow> ('s \<Rightarrow> 'e + 's) \<Rightarrow> 's \<Rightarrow> 'e + 's" where
  "output_unit out write s =
     try_then (start_unit out s) (\<lambda>s. try_then (write s) (\<lambda>s. Inr (finish_unit out s)))"

text \<open>\<open>slice::chunks\<close>.\<close>

function chunks :: "nat \<Rightarrow> 'a list \<Rightarrow> 'a list list" where
  "chunks n xs = (if xs = [] \<or> n = 0 then [] else take n xs # chunks n (drop n xs))"
  by auto
termination
  by (relation "measure (\<lambda>(n, xs). length xs)") auto

declare chunks.simps [simp del]

text \<open>A loop \<open>for x in xs { f(x)?; }\<close>.\<close>

fun try_for :: "('x \<Rightarrow> 's \<Rightarrow> 'e + 's) \<Rightarrow> 'x list \<Rightarrow> 's \<Rightarrow> 'e + 's" where
  "try_for f [] s = Inr s"
| "try_for f (x # xs) s = try_then (f x s) (try_for f xs)"

text \<open>The loop over a chunk; \<open>pending\<close> is \<open>chunk[start..index]\<close>.\<close>

fun escape_loop :: "('s, 'e) key_output \<Rightarrow> bytes \<Rightarrow> bytes \<Rightarrow> 's \<Rightarrow> 'e + 's" where
  "escape_loop out pending [] s = raw out pending s"
| "escape_loop out pending (b # bs) s =
     (if b = 0 then
        try_then (raw out pending s) (\<lambda>s. try_then (raw out [0, 255] s) (escape_loop out [] bs))
      else escape_loop out (pending @ [b]) bs s)"

definition escaped :: "('s, 'e) key_output \<Rightarrow> u8 \<Rightarrow> bytes \<Rightarrow> 's \<Rightarrow> 'e + 's" where
  "escaped out tag bs s =
     try_then (output_unit out (raw out [tag]) s) (\<lambda>s.
     try_then (try_for (\<lambda>chunk. output_unit out (escape_loop out [] chunk)) (chunks (64 * 1024) bs) s) (\<lambda>s.
     output_unit out (raw out [0, 0]) s))"

definition sign_bit :: u64 where "sign_bit = push_bit 63 1"

definition ordered_i64 :: "i64 \<Rightarrow> bytes" where
  "ordered_i64 v = u64_be (v XOR sign_bit)"

definition ordered_f64 :: "u64 \<Rightarrow> bytes" where
  "ordered_f64 bits = u64_be (if drop_bit 63 bits = 0 then bits XOR sign_bit else NOT bits)"

definition raw2 :: "('s, 'e) key_output \<Rightarrow> bytes \<Rightarrow> bytes \<Rightarrow> 's \<Rightarrow> 'e + 's" where
  "raw2 out xs ys s = try_then (raw out xs s) (raw out ys)"

definition encode_value :: "('s, 'e) key_output \<Rightarrow> rvalue \<Rightarrow> 's \<Rightarrow> 'e + 's" where
  "encode_value out v s =
     (case v of
        Text t \<Rightarrow> escaped out 4 t s
      | Bytea b \<Rightarrow> escaped out 5 b s
      | Null \<Rightarrow> output_unit out (raw out [0]) s
      | Boolean b \<Rightarrow> output_unit out (raw out [1, of_bool b]) s
      | BigInt i \<Rightarrow> output_unit out (raw2 out [2] (ordered_i64 i)) s
      | DoublePrecision d \<Rightarrow> output_unit out (raw2 out [3] (ordered_f64 d)) s
      | DecimalV d \<Rightarrow> output_unit out (raw2 out [9] (to_ordered_bytes d)) s
      | Uuid u \<Rightarrow> output_unit out (raw2 out [6] u) s
      | Timestamp t \<Rightarrow> output_unit out (raw2 out [10] (ordered_i64 t)) s
      | TimestampTz t \<Rightarrow> output_unit out (raw2 out [11] (ordered_i64 t)) s
      | VectorV _ \<Rightarrow> output_unit out (\<lambda>_. Inl (from_key_error out UnsupportedVector)) s
      | Overflow _ \<Rightarrow> output_unit out (\<lambda>_. Inl (from_key_error out UnsupportedOverflow)) s)"

section \<open>Sinks\<close>

text \<open>\<open>Vec<u8>\<close>, which has no work context.\<close>

definition vec_output :: "(bytes, ordered_key_error) key_output" where
  "vec_output = \<lparr> raw = \<lambda>bs s. Inr (s @ bs), start_unit = Inr, finish_unit = id, from_key_error = id \<rparr>"

definition encode_ordered_relational_value :: "bytes \<Rightarrow> rvalue \<Rightarrow> ordered_key_error + bytes" where
  "encode_ordered_relational_value encoded v = encode_value vec_output v encoded"

definition encode_ordered_relational_key :: "rkey \<Rightarrow> ordered_key_error + bytes" where
  "encode_ordered_relational_key key =
     (if key = [] then Inl (CorruptKey ''key contains no values'')
      else try_for (\<lambda>v encoded. encode_ordered_relational_value encoded v) key [])"

text \<open>
  The work context: \<open>checkpoint\<close>, \<open>start_unit\<close> and \<open>finish\<close> of a unit, the failure that
  \<open>record_failure\<close> returns for an \<open>Allocation\<close> error, and the two admitted allocations
  (\<open>CheckpointBytes::zeroed\<close> and \<open>vector_capacity\<close>, which answers with the capacity of the vector).
\<close>

record ('w, 'x) work =
  work_checkpoint :: "'w \<Rightarrow> 'x + 'w"
  work_start_unit :: "'w \<Rightarrow> 'x + 'w"
  work_finish :: "'w \<Rightarrow> 'w"
  work_allocation_failure :: "u64 \<Rightarrow> string \<Rightarrow> 'x"
  work_zeroed :: "nat \<Rightarrow> 'w \<Rightarrow> 'x + 'w"
  work_vector_capacity :: "nat \<Rightarrow> 'w \<Rightarrow> 'x + nat \<times> 'w"

datatype 'x key_encode_error = KeyFailure ordered_key_error | KeyAdmission 'x | WorkFailure 'x

fun work_step :: "('w \<Rightarrow> 'x + 'w) \<Rightarrow> 'a \<times> 'w \<Rightarrow> 'x key_encode_error + 'a \<times> 'w" where
  "work_step f (a, w) = (case f w of Inl e \<Rightarrow> Inl (WorkFailure e) | Inr w' \<Rightarrow> Inr (a, w'))"

definition work_output ::
    "('w, 'x) work \<Rightarrow> (bytes \<Rightarrow> 'a \<Rightarrow> 'x key_encode_error + 'a) \<Rightarrow> ('a \<times> 'w, 'x key_encode_error) key_output" where
  "work_output W write =
     \<lparr> raw = \<lambda>bs (a, w). try_then (write bs a) (\<lambda>a. Inr (a, w)),
       start_unit = work_step (work_start_unit W),
       finish_unit = \<lambda>(a, w). (a, work_finish W w),
       from_key_error = KeyFailure \<rparr>"

definition cooperative :: "('w, 'x) work \<Rightarrow> (bytes \<times> 'w, 'x key_encode_error) key_output" where
  "cooperative W = work_output W (\<lambda>bs out. Inr (out @ bs))"

definition with_work_context ::
    "('w, 'x) work \<Rightarrow> rkey \<Rightarrow> 'w \<Rightarrow> 'x key_encode_error + bytes \<times> 'w" where
  "with_work_context W key w =
     try_then (work_step (work_checkpoint W) ([], w)) (\<lambda>s.
     if key = [] then Inl (KeyFailure (CorruptKey ''key contains no values''))
     else try_then (try_for (encode_value (cooperative W)) key s) (work_step (work_checkpoint W)))"

definition count_output :: "('w, 'x) work \<Rightarrow> (nat \<times> 'w, 'x key_encode_error) key_output" where
  "count_output W = work_output W (\<lambda>bs n.
     case checked_add n (length bs) of
       None \<Rightarrow> Inl (WorkFailure (work_allocation_failure W (- 1) ''ordered key length overflows usize''))
     | Some n' \<Rightarrow> Inr n')"

text \<open>\<open>Admitted\<close>: the buffer and the offset of the next write.\<close>

definition admitted :: "('w, 'x) work \<Rightarrow> ((bytes \<times> nat) \<times> 'w, 'x key_encode_error) key_output" where
  "admitted W = work_output W (\<lambda>bs (buf, offset).
     let invalid = WorkFailure (work_allocation_failure W (of_nat (length bs))
                     ''ordered key exceeded its admitted output'')
     in case checked_add offset (length bs) of
          None \<Rightarrow> Inl invalid
        | Some e \<Rightarrow>
            if e \<le> length buf then Inr (take offset buf @ bs @ drop e buf, e) else Inl invalid)"

text \<open>\<open>InventoryOutput\<close>: the bytes written and the vector's capacity.\<close>

definition inventory_output :: "('w, 'x) work \<Rightarrow> ((bytes \<times> nat) \<times> 'w, 'x key_encode_error) key_output" where
  "inventory_output W = work_output W (\<lambda>bs (out, capacity).
     if capacity - length out < length bs then
       Inl (WorkFailure (work_allocation_failure W (of_nat (length bs))
              ''ordered key exceeded its admitted output''))
     else Inr (out @ bs, capacity))"

record key_encoding =
  ke_key :: rkey
  ke_prefix :: bytes
  ke_encoded_len :: nat

definition key_encoding_new ::
    "('w, 'x) work \<Rightarrow> rkey \<Rightarrow> bytes \<Rightarrow> 'w \<Rightarrow> 'x key_encode_error + key_encoding \<times> 'w" where
  "key_encoding_new W key prefix w =
     try_then (work_step (work_checkpoint W) (length prefix, w)) (\<lambda>s.
     if key = [] then Inl (KeyFailure (CorruptKey ''key contains no values''))
     else try_then (try_for (encode_value (count_output W)) key s) (\<lambda>s.
          try_then (work_step (work_checkpoint W) s) (\<lambda>(n, w).
          Inr (\<lparr> ke_key = key, ke_prefix = prefix, ke_encoded_len = n \<rparr>, w))))"

text \<open>The part the two \<open>encode\<close> methods share: the prefix in chunks, the values, a last checkpoint.\<close>

definition encode_parts ::
    "('w, 'x) work \<Rightarrow> ('a \<times> 'w, 'x key_encode_error) key_output \<Rightarrow> key_encoding \<Rightarrow> 'a \<times> 'w \<Rightarrow>
     'x key_encode_error + 'a \<times> 'w" where
  "encode_parts W out k s =
     try_then (try_for (\<lambda>chunk. output_unit out (raw out chunk)) (chunks (64 * 1024) (ke_prefix k)) s) (\<lambda>s.
     try_then (try_for (encode_value out) (ke_key k) s) (work_step (work_checkpoint W)))"

definition size_changed :: "'x key_encode_error" where
  "size_changed = KeyFailure (CorruptKey ''ordered key size changed during encoding'')"

definition key_encode_owned ::
    "('w, 'x) work \<Rightarrow> key_encoding \<Rightarrow> 'w \<Rightarrow> 'x key_encode_error + bytes \<times> 'w" where
  "key_encode_owned W k w =
     (case work_vector_capacity W (ke_encoded_len k) w of
        Inl e \<Rightarrow> Inl (KeyAdmission e)
      | Inr (capacity, w) \<Rightarrow>
          try_then (encode_parts W (inventory_output W) k (([], capacity), w)) (\<lambda>((out, _), w).
          if length out \<noteq> ke_encoded_len k then Inl size_changed else Inr (out, w)))"

definition key_encode ::
    "('w, 'x) work \<Rightarrow> key_encoding \<Rightarrow> 'w \<Rightarrow> 'x key_encode_error + bytes \<times> 'w" where
  "key_encode W k w =
     (case work_zeroed W (ke_encoded_len k) w of
        Inl e \<Rightarrow> Inl (WorkFailure e)
      | Inr w \<Rightarrow>
          try_then (encode_parts W (admitted W) k ((replicate (ke_encoded_len k) 0, 0), w)) (\<lambda>((buf, offset), w).
          if offset \<noteq> ke_encoded_len k then Inl size_changed else Inr (buf, w)))"

section \<open>What the grammar writes\<close>

definition escape :: "bytes \<Rightarrow> bytes" where
  "escape bs = concat (map (\<lambda>b. if b = 0 then [0, 255] else [b]) bs)"

fun value_bytes :: "rvalue \<Rightarrow> ordered_key_error + bytes" where
  "value_bytes (Text t) = Inr (4 # escape t @ [0, 0])"
| "value_bytes (Bytea b) = Inr (5 # escape b @ [0, 0])"
| "value_bytes Null = Inr [0]"
| "value_bytes (Boolean b) = Inr [1, of_bool b]"
| "value_bytes (BigInt v) = Inr (2 # ordered_i64 v)"
| "value_bytes (DoublePrecision bits) = Inr (3 # ordered_f64 bits)"
| "value_bytes (DecimalV d) = Inr (9 # to_ordered_bytes d)"
| "value_bytes (Uuid u) = Inr (6 # u)"
| "value_bytes (Timestamp v) = Inr (10 # ordered_i64 v)"
| "value_bytes (TimestampTz v) = Inr (11 # ordered_i64 v)"
| "value_bytes (VectorV v) = Inl UnsupportedVector"
| "value_bytes (Overflow r) = Inl UnsupportedOverflow"

fun values_bytes :: "rvalue list \<Rightarrow> ordered_key_error + bytes" where
  "values_bytes [] = Inr []"
| "values_bytes (v # vs) =
     try_then (value_bytes v) (\<lambda>x. try_then (values_bytes vs) (\<lambda>y. Inr (x @ y)))"

lemma escape_simps [simp]:
  "escape [] = []" "escape (b # bs) = (if b = 0 then [0, 255] else [b]) @ escape bs"
  "escape (xs @ ys) = escape xs @ escape ys"
  by (simp_all add: escape_def)

lemma concat_chunks [simp]: "0 < n \<Longrightarrow> concat (chunks n xs) = xs"
proof (induction n xs rule: chunks.induct)
  case (1 n xs)
  then show ?case by (subst chunks.simps) (simp del: concat_eq_Nil_conv)
qed

lemma try_then_Inr_iff: "try_then r f = Inr y \<longleftrightarrow> (\<exists>x. r = Inr x \<and> f x = Inr y)"
  by (cases r) simp_all

text \<open>
  The contract of a sink: \<open>holds w s\<close> says that \<open>w\<close> has been written into the state \<open>s\<close>, \<open>fits\<close>
  which contents the sink has room for.
\<close>

locale key_sink =
  fixes out :: "('s, 'e) key_output"
    and holds :: "bytes \<Rightarrow> 's \<Rightarrow> bool"
    and fits :: "bytes \<Rightarrow> bool"
  assumes raw_appends:
      "holds w s \<Longrightarrow> fits (w @ bs) \<Longrightarrow> \<exists>s'. raw out bs s = Inr s' \<and> holds (w @ bs) s'"
    and unit_starts: "holds w s \<Longrightarrow> \<exists>s'. start_unit out s = Inr s' \<and> holds w s'"
    and unit_finishes: "holds w s \<Longrightarrow> holds w (finish_unit out s)"
    and fits_prefix: "fits (w @ bs) \<Longrightarrow> fits w"
begin

definition emits :: "('s \<Rightarrow> 'e + 's) \<Rightarrow> bytes \<Rightarrow> bool" where
  "emits f bs \<longleftrightarrow> (\<forall>w s. holds w s \<longrightarrow> fits (w @ bs) \<longrightarrow> (\<exists>s'. f s = Inr s' \<and> holds (w @ bs) s'))"

lemma emits_raw: "emits (raw out bs) bs"
  by (simp add: emits_def raw_appends)

lemma emits_then:
  assumes "emits f xs" "emits g ys"
  shows "emits (\<lambda>s. try_then (f s) g) (xs @ ys)"
  unfolding emits_def
proof (intro allI impI)
  fix w s
  assume h: "holds w s" and fit: "fits (w @ xs @ ys)"
  from fit have "fits (w @ xs)" by (metis append_assoc fits_prefix)
  with assms(1) h obtain s' where "f s = Inr s'" "holds (w @ xs) s'" by (auto simp: emits_def)
  moreover have "fits ((w @ xs) @ ys)" using fit by simp
  ultimately obtain s'' where "f s = Inr s'" "g s' = Inr s''" "holds ((w @ xs) @ ys) s''"
    using assms(2) unfolding emits_def by blast
  then show "\<exists>s'. try_then (f s) g = Inr s' \<and> holds (w @ xs @ ys) s'" by simp
qed

lemma emits_unit:
  assumes "emits f bs"
  shows "emits (output_unit out f) bs"
  unfolding emits_def
proof (intro allI impI)
  fix w s
  assume "holds w s" and fit: "fits (w @ bs)"
  then obtain s1 where "start_unit out s = Inr s1" "holds w s1" using unit_starts by blast
  with assms fit obtain s2 where "start_unit out s = Inr s1" "f s1 = Inr s2" "holds (w @ bs) s2"
    by (auto simp: emits_def)
  then show "\<exists>s'. output_unit out f s = Inr s' \<and> holds (w @ bs) s'"
    by (auto simp: output_unit_def intro: unit_finishes)
qed

lemma emits_for:
  "(\<And>x. x \<in> set xs \<Longrightarrow> emits (f x) (g x)) \<Longrightarrow> emits (try_for f xs) (concat (map g xs))"
proof (induction xs)
  case Nil
  then show ?case by (simp add: emits_def)
next
  case (Cons x xs)
  then have "emits (\<lambda>s. try_then (f x s) (try_for f xs)) (g x @ concat (map g xs))"
    by (intro emits_then) simp_all
  moreover have "try_for f (x # xs) = (\<lambda>s. try_then (f x s) (try_for f xs))" by (rule ext) simp
  ultimately show ?case by simp
qed

lemma emits_escape_loop: "emits (escape_loop out pending bs) (pending @ escape bs)"
proof (induction bs arbitrary: pending)
  case Nil
  have "escape_loop out pending [] = raw out pending" by (rule ext) simp
  then show ?case by (simp add: emits_raw)
next
  case (Cons b bs)
  show ?case
  proof (cases "b = 0")
    case True
    have "emits (\<lambda>s. try_then (raw out [0, 255] s) (escape_loop out [] bs)) ([0, 255] @ [] @ escape bs)"
      by (intro emits_then emits_raw Cons.IH)
    then have "emits (\<lambda>s. try_then (raw out pending s)
        (\<lambda>s. try_then (raw out [0, 255] s) (escape_loop out [] bs))) (pending @ [0, 255] @ [] @ escape bs)"
      by (rule emits_then [OF emits_raw])
    moreover have "escape_loop out pending (b # bs) = (\<lambda>s. try_then (raw out pending s)
        (\<lambda>s. try_then (raw out [0, 255] s) (escape_loop out [] bs)))"
      using True by (intro ext) simp
    ultimately show ?thesis using True by simp
  next
    case False
    then have "escape_loop out pending (b # bs) = escape_loop out (pending @ [b]) bs" by (intro ext) simp
    with Cons.IH [of "pending @ [b]"] False show ?thesis by simp
  qed
qed

lemma emits_chunks:
  assumes "\<And>c. emits (f c) (g c)" "\<And>xs ys. g (xs @ ys) = g xs @ g ys" "g [] = []"
  shows "emits (try_for f (chunks (64 * 1024) bs)) (g bs)"
proof -
  have "g (concat cs) = concat (map g cs)" for cs by (induction cs) (simp_all add: assms)
  from this [of "chunks (64 * 1024) bs"] emits_for [of "chunks (64 * 1024) bs" f g, OF assms(1)]
  show ?thesis by simp
qed

lemma emits_escaped: "emits (escaped out tag bs) (tag # escape bs @ [0, 0])"
proof -
  have loop: "emits (try_for (\<lambda>c. output_unit out (escape_loop out [] c)) (chunks (64 * 1024) bs)) (escape bs)"
    using emits_escape_loop [of "[]"] by (intro emits_chunks emits_unit) simp_all
  have "emits (\<lambda>s. try_then (output_unit out (raw out [tag]) s) (\<lambda>s.
     try_then (try_for (\<lambda>chunk. output_unit out (escape_loop out [] chunk)) (chunks (64 * 1024) bs) s) (\<lambda>s.
     output_unit out (raw out [0, 0]) s))) ([tag] @ escape bs @ [0, 0])"
    by (intro emits_then emits_unit emits_raw loop)
  then show ?thesis by (simp add: escaped_def [abs_def])
qed

lemma emits_raw2: "emits (output_unit out (raw2 out [tag] bs)) (tag # bs)"
  using emits_then [OF emits_raw emits_raw, of "[tag]" bs]
  by (intro emits_unit) (simp add: raw2_def [abs_def])

lemma emits_value: "value_bytes v = Inr bs \<Longrightarrow> emits (encode_value out v) bs"
  by (cases v) (auto simp: encode_value_def [abs_def] intro: emits_escaped emits_raw2 emits_unit emits_raw)

lemma value_error:
  assumes "value_bytes v = Inl e" "holds w s"
  shows "encode_value out v s = Inl (from_key_error out e)"
  using assms(1) unit_starts [OF assms(2)]
  by (cases v) (auto simp: encode_value_def output_unit_def)

lemma emits_values: "values_bytes vs = Inr bs \<Longrightarrow> emits (try_for (encode_value out) vs) bs"
proof (induction vs arbitrary: bs)
  case Nil
  then show ?case by (simp add: emits_def)
next
  case (Cons v vs)
  then obtain x y where "value_bytes v = Inr x" "values_bytes vs = Inr y" "bs = x @ y"
    by (auto simp: try_then_Inr_iff)
  with Cons.IH have "emits (\<lambda>s. try_then (encode_value out v s) (try_for (encode_value out) vs)) bs"
    by (simp add: emits_then emits_value)
  moreover have "try_for (encode_value out) (v # vs) =
      (\<lambda>s. try_then (encode_value out v s) (try_for (encode_value out) vs))"
    by (rule ext) simp
  ultimately show ?case by simp
qed

lemma values_error:
  assumes "\<And>bs. fits bs"
  shows "values_bytes vs = Inl e \<Longrightarrow> holds w s \<Longrightarrow>
    try_for (encode_value out) vs s = Inl (from_key_error out e)"
proof (induction vs arbitrary: w s)
  case Nil
  then show ?case by simp
next
  case (Cons v vs)
  show ?case
  proof (cases "value_bytes v")
    case (Inl e')
    with Cons.prems value_error [OF Inl Cons.prems(2)] show ?thesis by simp
  next
    case (Inr x)
    with emits_value [OF Inr] assms Cons.prems(2) obtain s' where s: "encode_value out v s = Inr s'" "holds (w @ x) s'"
      unfolding emits_def by blast
    from Inr Cons.prems(1) have "values_bytes vs = Inl e" by (cases "values_bytes vs") simp_all
    with Cons.IH s show ?thesis by simp
  qed
qed

end

interpretation vec_sink: key_sink vec_output "\<lambda>w s. s = w" "\<lambda>_. True"
  by unfold_locales (simp_all add: vec_output_def)

text \<open>The key encoder is the grammar, errors included.\<close>

lemma encode_key_bytes:
  "encode_ordered_relational_key key =
     (if key = [] then Inl (CorruptKey ''key contains no values'') else values_bytes key)"
proof (cases "values_bytes key")
  case (Inl e)
  with vec_sink.values_error [of key e "[]" "[]"] show ?thesis
    by (simp add: encode_ordered_relational_key_def encode_ordered_relational_value_def [abs_def] vec_output_def)
next
  case (Inr bs)
  with vec_sink.emits_values [OF Inr] show ?thesis
    by (auto simp: encode_ordered_relational_key_def encode_ordered_relational_value_def [abs_def] vec_sink.emits_def)
qed

section \<open>The admitted sinks agree with the vector\<close>

text \<open>
  A work context that refuses nothing; a vector it hands out has at least the capacity asked for
  (the contract of \<open>Vec::try_reserve_exact\<close>).
\<close>

definition work_grants :: "('w, 'x) work \<Rightarrow> bool" where
  "work_grants W \<longleftrightarrow>
     (\<forall>w. \<exists>w'. work_checkpoint W w = Inr w') \<and> (\<forall>w. \<exists>w'. work_start_unit W w = Inr w') \<and>
     (\<forall>n w. \<exists>w'. work_zeroed W n w = Inr w') \<and>
     (\<forall>n w. \<exists>capacity w'. work_vector_capacity W n w = Inr (capacity, w') \<and> n \<le> capacity)"

lemma work_step_grants: "(\<And>w. \<exists>w'. f w = Inr w') \<Longrightarrow> \<exists>w'. work_step f (a, w) = Inr (a, w')"
  by (metis sum.simps(6) work_step.simps)

lemma work_sink:
  assumes "work_grants W"
    and "\<And>w a bs. holds w a \<Longrightarrow> fits (w @ bs) \<Longrightarrow> \<exists>a'. write bs a = Inr a' \<and> holds (w @ bs) a'"
    and "\<And>w bs. fits (w @ bs) \<Longrightarrow> fits w"
  shows "key_sink (work_output W write) (\<lambda>w s. holds w (fst s)) fits"
proof
  show "\<exists>s'. raw (work_output W write) bs s = Inr s' \<and> holds (w @ bs) (fst s')"
    if "holds w (fst s)" "fits (w @ bs)" for w s bs
    using assms(2) [OF that] by (cases s) (auto simp: work_output_def)
  show "\<exists>s'. start_unit (work_output W write) s = Inr s' \<and> holds w (fst s')"
    if "holds w (fst s)" for w s
    using that assms(1) work_step_grants [of "work_start_unit W" "fst s" "snd s"]
    by (auto simp: work_output_def work_grants_def)
  show "holds w (fst (finish_unit (work_output W write) s))" if "holds w (fst s)" for w s
    using that by (cases s) (simp add: work_output_def)
qed (rule assms(3))

lemma cooperative_sink:
  "work_grants W \<Longrightarrow> key_sink (cooperative W) (\<lambda>w s. fst s = w) (\<lambda>_. True)"
  unfolding cooperative_def by (rule work_sink) simp_all

lemma count_sink:
  "work_grants W \<Longrightarrow> key_sink (count_output W) (\<lambda>w s. fst s = p + length w) (\<lambda>w. p + length w \<le> usize_max)"
  unfolding count_output_def by (rule work_sink) (auto simp: checked_add_def)

lemma admitted_sink:
  assumes "work_grants W" "n \<le> usize_max"
  shows "key_sink (admitted W)
    (\<lambda>w s. snd (fst s) = length w \<and> length (fst (fst s)) = n \<and> length w \<le> n \<and> take (length w) (fst (fst s)) = w)
    (\<lambda>w. length w \<le> n)"
  unfolding admitted_def using assms(2) by (intro work_sink [OF assms(1)]) (auto simp: checked_add_def Let_def)

lemma inventory_sink:
  "work_grants W \<Longrightarrow> n \<le> c \<Longrightarrow>
     key_sink (inventory_output W) (\<lambda>w s. fst s = (w, c) \<and> length w \<le> n) (\<lambda>w. length w \<le> n)"
  unfolding inventory_output_def by (rule work_sink) auto

context key_sink
begin

lemma encode_parts_emits:
  assumes "values_bytes (ke_key k) = Inr bs" "holds [] s" "fits (ke_prefix k @ bs)"
  shows "\<exists>s'. try_then (try_for (\<lambda>chunk. output_unit out (raw out chunk)) (chunks (64 * 1024) (ke_prefix k)) s)
      (try_for (encode_value out) (ke_key k)) = Inr s' \<and> holds (ke_prefix k @ bs) s'"
proof -
  have "emits (try_for (\<lambda>chunk. output_unit out (raw out chunk)) (chunks (64 * 1024) (ke_prefix k))) (ke_prefix k)"
    by (rule emits_chunks [where g = "\<lambda>x. x"]) (simp_all add: emits_unit emits_raw)
  from emits_then [OF this emits_values [OF assms(1)]] assms(2,3) show ?thesis
    unfolding emits_def by (metis append_Nil)
qed

end

lemma encode_parts_writes:
  assumes "work_grants W" "key_sink out (\<lambda>w s. holds w (fst s)) fits"
    and "values_bytes (ke_key k) = Inr bs" "holds [] a" "fits (ke_prefix k @ bs)"
  shows "\<exists>a' w'. encode_parts W out k (a, w) = Inr (a', w') \<and> holds (ke_prefix k @ bs) a'"
proof -
  from key_sink.encode_parts_emits [OF assms(2,3), of "(a, w)"] assms(4,5)
  obtain s1 s' where "try_for (\<lambda>chunk. output_unit out (raw out chunk)) (chunks (64 * 1024) (ke_prefix k)) (a, w) = Inr s1"
      "try_for (encode_value out) (ke_key k) s1 = Inr s'" "holds (ke_prefix k @ bs) (fst s')"
    by (auto simp: try_then_Inr_iff)
  moreover obtain w' where "work_step (work_checkpoint W) s' = Inr (fst s', w')"
    using work_step_grants [of "work_checkpoint W" "fst s'" "snd s'"] assms(1) by (auto simp: work_grants_def)
  ultimately show ?thesis by (auto simp: encode_parts_def)
qed

lemma key_encoding_new_counts:
  assumes "work_grants W" "encode_ordered_relational_key key = Inr bs" "length prefix + length bs \<le> usize_max"
  shows "\<exists>w'. key_encoding_new W key prefix w =
    Inr (\<lparr> ke_key = key, ke_prefix = prefix, ke_encoded_len = length prefix + length bs \<rparr>, w')"
proof -
  from assms(2) have key: "key \<noteq> []" "values_bytes key = Inr bs" by (auto simp: encode_key_bytes split: if_splits)
  have wc: "\<exists>w'. work_step (work_checkpoint W) s = Inr (fst s, w')" for s :: "nat \<times> 'a"
    using work_step_grants [of "work_checkpoint W" "fst s" "snd s"] assms(1) by (auto simp: work_grants_def)
  from wc [of "(length prefix, w)"] obtain w1
    where 1: "work_step (work_checkpoint W) (length prefix, w) = Inr (length prefix, w1)" by auto
  note sink = count_sink [OF assms(1), of "length prefix"]
  from key_sink.emits_values [OF sink key(2)] assms(3) obtain s2
    where 2: "try_for (encode_value (count_output W)) key (length prefix, w1) = Inr s2"
      "fst s2 = length prefix + length bs"
    unfolding key_sink.emits_def [OF sink] by (metis append_Nil fst_conv list.size(3) add_0_right)
  from wc [of s2] obtain w3 where "work_step (work_checkpoint W) s2 = Inr (fst s2, w3)" by auto
  with 1 2 key(1) show ?thesis by (simp add: key_encoding_new_def del: work_step.simps)
qed

lemma key_encode_writes:
  assumes "work_grants W" "values_bytes key = Inr bs" "length prefix + length bs \<le> usize_max"
  shows "\<exists>w'. key_encode W \<lparr> ke_key = key, ke_prefix = prefix, ke_encoded_len = length prefix + length bs \<rparr> w =
    Inr (prefix @ bs, w')"
proof -
  let ?n = "length prefix + length bs"
  let ?k = "\<lparr> ke_key = key, ke_prefix = prefix, ke_encoded_len = ?n \<rparr>"
  obtain w1 where 1: "work_zeroed W ?n w = Inr w1" using assms(1) unfolding work_grants_def by blast
  have "\<exists>a' w'. encode_parts W (admitted W) ?k ((replicate ?n 0, 0), w1) = Inr (a', w') \<and>
      (snd a' = length (prefix @ bs) \<and> length (fst a') = ?n \<and> length (prefix @ bs) \<le> ?n \<and>
       take (length (prefix @ bs)) (fst a') = prefix @ bs)"
    using encode_parts_writes [OF assms(1) admitted_sink [OF assms(1,3)], of ?k bs "(replicate ?n 0, 0)" w1] assms(2)
    by simp
  with 1 show ?thesis by (auto simp: key_encode_def)
qed

lemma key_encode_owned_writes:
  assumes "work_grants W" "values_bytes key = Inr bs"
  shows "\<exists>w'. key_encode_owned W \<lparr> ke_key = key, ke_prefix = prefix, ke_encoded_len = length prefix + length bs \<rparr> w =
    Inr (prefix @ bs, w')"
proof -
  let ?n = "length prefix + length bs"
  let ?k = "\<lparr> ke_key = key, ke_prefix = prefix, ke_encoded_len = ?n \<rparr>"
  obtain c w1 where 1: "work_vector_capacity W ?n w = Inr (c, w1)" "?n \<le> c"
    using assms(1) unfolding work_grants_def by blast
  have "\<exists>a' w'. encode_parts W (inventory_output W) ?k (([], c), w1) = Inr (a', w') \<and>
      (a' = (prefix @ bs, c) \<and> length (prefix @ bs) \<le> ?n)"
    using encode_parts_writes [OF assms(1) inventory_sink [OF assms(1) 1(2)], of ?k bs "([], c)" w1] assms(2)
    by simp
  with 1 show ?thesis by (auto simp: key_encode_owned_def)
qed

lemma with_work_context_writes:
  assumes "work_grants W"
  shows "map_sum id fst (with_work_context W key w) = map_sum KeyFailure id (encode_ordered_relational_key key)"
proof -
  have wc: "\<exists>w'. work_step (work_checkpoint W) s = Inr (fst s, w')" for s :: "bytes \<times> 'a"
    using work_step_grants [of "work_checkpoint W" "fst s" "snd s"] assms by (auto simp: work_grants_def)
  from wc [of "([], w)"] obtain w1 where 1: "work_step (work_checkpoint W) ([] :: bytes, w) = Inr ([], w1)"
    by (auto simp del: work_step.simps)
  note sink = cooperative_sink [OF assms]
  show ?thesis
  proof (cases "values_bytes key")
    case (Inl e)
    from key_sink.values_error [OF sink _ Inl, where w = "[]" and s = "([], w1)"] 1 Inl show ?thesis
      by (simp add: with_work_context_def encode_key_bytes cooperative_def work_output_def)
  next
    case (Inr bs)
    from key_sink.emits_values [OF sink Inr] obtain s2
      where 2: "try_for (encode_value (cooperative W)) key ([], w1) = Inr s2" "fst s2 = bs"
      unfolding key_sink.emits_def [OF sink] by (metis append_Nil fst_conv)
    from wc [of s2] obtain w3 where "work_step (work_checkpoint W) s2 = Inr (fst s2, w3)" by auto
    with 1 2 Inr show ?thesis by (simp add: with_work_context_def encode_key_bytes del: work_step.simps)
  qed
qed

text \<open>
  C32. The four sinks of checkpoint work produce the bytes of the vector sink. Under a work context that
  grants every request, \<open>with_work_context\<close> returns exactly what \<open>encode_ordered_relational_key\<close>
  returns, errors included; and when that is \<open>bs\<close> and the length with the prefix fits \<open>usize\<close>, the
  size that \<open>CheckpointKeyEncoding::new\<close> counts is the exact length, and both \<open>encode\<close> and
  \<open>encode_owned\<close> then succeed with the prefix followed by \<open>bs\<close>: the admitted output is never
  exceeded and the size never changes.
\<close>

theorem key_sinks_agree:
  assumes "work_grants W" "encode_ordered_relational_key key = Inr bs" "length prefix + length bs \<le> usize_max"
  shows "(\<exists>k w1. key_encoding_new W key prefix w = Inr (k, w1) \<and> ke_encoded_len k = length (prefix @ bs) \<and>
      (\<exists>w2. key_encode W k w1 = Inr (prefix @ bs, w2)) \<and>
      (\<exists>w3. key_encode_owned W k w1 = Inr (prefix @ bs, w3))) \<and>
    map_sum id fst (with_work_context W key' w) = map_sum KeyFailure id (encode_ordered_relational_key key')"
proof
  from assms(2) have key: "values_bytes key = Inr bs" by (auto simp: encode_key_bytes split: if_splits)
  from key_encoding_new_counts [OF assms, of w] key_encode_writes [OF assms(1) key assms(3)]
    key_encode_owned_writes [OF assms(1) key, of prefix]
  show "\<exists>k w1. key_encoding_new W key prefix w = Inr (k, w1) \<and> ke_encoded_len k = length (prefix @ bs) \<and>
      (\<exists>w2. key_encode W k w1 = Inr (prefix @ bs, w2)) \<and>
      (\<exists>w3. key_encode_owned W k w1 = Inr (prefix @ bs, w3))"
    by force
qed (rule with_work_context_writes [OF assms(1)])

text \<open>A work context with no limits, as \<open>CheckpointWorkContext::default()\<close> has none; it counts the
  units started.\<close>

definition unlimited_work :: "(nat, unit) work" where
  "unlimited_work =
     \<lparr> work_checkpoint = Inr, work_start_unit = \<lambda>w. Inr (Suc w), work_finish = id,
       work_allocation_failure = \<lambda>_ _. (), work_zeroed = \<lambda>n. Inr,
       work_vector_capacity = \<lambda>n w. Inr (n, w) \<rparr>"

theorem key_sinks_agree_witness:
  "work_grants unlimited_work \<and>
   encode_ordered_relational_key [Boolean True, Text [65, 0]] = Inr [1, 1, 4, 65, 0, 255, 0, 0] \<and>
   (\<exists>k w1. key_encoding_new unlimited_work [Boolean True, Text [65, 0]] [7] 0 = Inr (k, w1) \<and>
      ke_encoded_len k = 9 \<and>
      (\<exists>w2. key_encode unlimited_work k w1 = Inr ([7, 1, 1, 4, 65, 0, 255, 0, 0], w2)) \<and>
      (\<exists>w3. key_encode_owned unlimited_work k w1 = Inr ([7, 1, 1, 4, 65, 0, 255, 0, 0], w3)))"
proof -
  have g: "work_grants unlimited_work" by (simp add: work_grants_def unlimited_work_def)
  have e: "encode_ordered_relational_key [Boolean True, Text [65, 0]] = Inr [1, 1, 4, 65, 0, 255, 0, 0]"
    by (simp add: encode_key_bytes)
  have l: "length [7 :: u8] + length [1, 1, 4, 65, 0, 255, 0, 0 :: u8] \<le> usize_max" by (simp add: usize_max_def)
  have n: "length ([7 :: u8] @ [1, 1, 4, 65, 0, 255, 0, 0]) = 9" by simp
  from key_sinks_agree [OF g e l, of 0 "[]", unfolded n] g e show ?thesis by simp
qed

end
