(* ===== verification/Wal_Value.thy ===== *)
theory Wal_Value
  imports Graph_Value Ordered_Key
begin

text \<open>
  Property values in the payload of a log record (\<open>encode_value_message\<close> of
  \<open>crates/storage/src/wal/binary.rs\<close> and \<open>wal/binary/value_decode.rs\<close>), with the fixed-width payloads of
  temporal values (\<open>crates/core/src/temporal/codec.rs\<close>), the check of an encoded vector
  (\<open>crates/core/src/vector.rs\<close>) and the limits that a value must meet before it is logged
  (\<open>encoded_value_len\<close> of \<open>canonical.rs\<close>). Theorem: a value within the limits is decoded to itself.

  \<^item> The ranges of the types of chrono are the parameter \<open>chrono\<close>: what its constructors accept.
  \<^item> \<open>value_ok\<close> states what the Rust types of a value guarantee (valid UTF-8, ascending map keys, sixteen
    bytes of a UUID, components in the ranges of chrono), and that no time lies within a leap second.
  \<^item> The decoder is the one of ordinary recovery (\<open>OrdinaryOpDecoder\<close>), whose hooks for admission of
    work are empty.
\<close>

section \<open>Temporal payloads\<close>

record chrono =
  day_in_range :: "int \<Rightarrow> bool"
  time_in_range :: "nat \<Rightarrow> nat \<Rightarrow> bool"
  offset_in_range :: "int \<Rightarrow> bool"
  local_in_range :: "local_datetime \<Rightarrow> int \<Rightarrow> bool"
  delta_in_range :: "int \<Rightarrow> int \<Rightarrow> bool"

datatype temporal_kind = KDate | KLocalTime | KLocalDateTime | KDateTime | KDuration

datatype temporal_error =
    PayloadLength
  | DayOutOfRange
  | TimeOutOfRange
  | OffsetOutOfRange
  | LocalOutOfRange
  | NanosOutOfRange
  | DeltaOutOfRange

fun payload_len :: "temporal_kind \<Rightarrow> nat" where
  "payload_len KDate = 4"
| "payload_len KLocalTime = 8"
| "payload_len KLocalDateTime = 12"
| "payload_len KDateTime = 16"
| "payload_len KDuration = 28"

fun temporal_kind_of :: "gvalue \<Rightarrow> temporal_kind option" where
  "temporal_kind_of (GDate _) = Some KDate"
| "temporal_kind_of (GLocalTime _) = Some KLocalTime"
| "temporal_kind_of (GLocalDateTime _) = Some KLocalDateTime"
| "temporal_kind_of (GDateTime _ _) = Some KDateTime"
| "temporal_kind_of (GDuration _) = Some KDuration"
| "temporal_kind_of _ = None"

definition NANOS_PER_SECOND :: nat where "NANOS_PER_SECOND = 1000000000"

definition i32_le :: "int \<Rightarrow> bytes" where
  "i32_le n = le_bytes 4 (nat (n mod 2 ^ 32))"

definition le_i32 :: "bytes \<Rightarrow> int" where
  "le_i32 bs = (let n = int (le_nat bs) in if 2 ^ 31 \<le> n then n - 2 ^ 32 else n)"

definition time_nanos :: "time_of_day \<Rightarrow> nat" where
  "time_nanos t = fst t * NANOS_PER_SECOND + snd t"

definition write_date :: "int \<Rightarrow> bytes" where
  "write_date d = i32_le d"

definition write_time :: "time_of_day \<Rightarrow> bytes" where
  "write_time t = u64_le (of_nat (time_nanos t))"

text \<open>\<open>Duration::time_nanos\<close>, \<open>seconds\<close> and \<open>nanos_of_second\<close>.\<close>

definition delta_nanos :: "int \<times> int \<Rightarrow> int" where
  "delta_nanos t = fst t * int NANOS_PER_SECOND + snd t"

definition duration_seconds :: "duration \<Rightarrow> i64" where
  "duration_seconds d = of_int (delta_nanos (delta d) div int NANOS_PER_SECOND)"

definition nanos_of_second :: "duration \<Rightarrow> int" where
  "nanos_of_second d = delta_nanos (delta d) mod int NANOS_PER_SECOND"

fun encode_payload :: "gvalue \<Rightarrow> (temporal_kind \<times> bytes) option" where
  "encode_payload (GDate d) = Some (KDate, write_date d)"
| "encode_payload (GLocalTime t) = Some (KLocalTime, write_time t)"
| "encode_payload (GLocalDateTime dt) = Some (KLocalDateTime, write_date (fst dt) @ write_time (snd dt))"
| "encode_payload (GDateTime utc offset) =
     Some (KDateTime, write_date (fst utc) @ write_time (snd utc) @ i32_le offset)"
| "encode_payload (GDuration d) =
     Some (KDuration, u64_le (months d) @ u64_le (days d) @ u64_le (duration_seconds d) @
       u32_le (of_int (nanos_of_second d)))"
| "encode_payload _ = None"

definition read_date :: "chrono \<Rightarrow> bytes \<Rightarrow> nat \<Rightarrow> temporal_error + int" where
  "read_date C bs start =
     (let d = le_i32 (byte_range start (start + 4) bs)
      in if day_in_range C d then Inr d else Inl DayOutOfRange)"

definition read_time :: "chrono \<Rightarrow> bytes \<Rightarrow> nat \<Rightarrow> temporal_error + time_of_day" where
  "read_time C bs start =
     (let nanos = unat (le_u64 (byte_range start (start + 8) bs))
      in if 86400 * NANOS_PER_SECOND \<le> nanos then Inl TimeOutOfRange
         else let s = nanos div NANOS_PER_SECOND; f = nanos mod NANOS_PER_SECOND
              in if time_in_range C s f then Inr (s, f) else Inl TimeOutOfRange)"

definition read_datetime :: "chrono \<Rightarrow> bytes \<Rightarrow> temporal_error + local_datetime" where
  "read_datetime C bs =
     try_then (read_date C bs 0) (\<lambda>d. try_then (read_time C bs 4) (\<lambda>t. Inr (d, t)))"

definition decode_payload :: "chrono \<Rightarrow> temporal_kind \<Rightarrow> bytes \<Rightarrow> temporal_error + gvalue" where
  "decode_payload C kind bs =
     (if length bs \<noteq> payload_len kind then Inl PayloadLength
      else case kind of
        KDate \<Rightarrow> try_then (read_date C bs 0) (\<lambda>d. Inr (GDate d))
      | KLocalTime \<Rightarrow> try_then (read_time C bs 0) (\<lambda>t. Inr (GLocalTime t))
      | KLocalDateTime \<Rightarrow> try_then (read_datetime C bs) (\<lambda>dt. Inr (GLocalDateTime dt))
      | KDateTime \<Rightarrow>
          try_then (read_datetime C bs) (\<lambda>utc.
            let offset = le_i32 (byte_range 12 16 bs)
            in if \<not> offset_in_range C offset then Inl OffsetOutOfRange
               else if \<not> local_in_range C utc offset then Inl LocalOutOfRange
               else Inr (GDateTime utc offset))
      | KDuration \<Rightarrow>
          (let seconds = sint (le_u64 (byte_range 16 24 bs));
               nanos = unat (le_u32 (byte_range 24 28 bs))
           in if NANOS_PER_SECOND \<le> nanos then Inl NanosOutOfRange
              else if \<not> delta_in_range C seconds (int nanos) then Inl DeltaOutOfRange
              else Inr (GDuration \<lparr> months = le_u64 (byte_range 0 8 bs), days = le_u64 (byte_range 8 16 bs),
                                  delta = (seconds, int nanos) \<rparr>)))"

section \<open>Encoded vectors\<close>

datatype vector_error =
    TruncatedDimension
  | DimensionNotPositive
  | VectorLengthOverflow
  | VectorLengthMismatch
  | CoordinateNotFinite

definition f32_finite :: "bytes \<Rightarrow> bool" where
  "f32_finite bs \<longleftrightarrow> le_u32 bs AND 0x7f800000 \<noteq> 0x7f800000"

definition chunks_exact :: "nat \<Rightarrow> bytes \<Rightarrow> bytes list" where
  "chunks_exact n bs = filter (\<lambda>c. length c = n) (chunks n bs)"

definition validate_vector :: "bytes \<Rightarrow> vector_error + unit" where
  "validate_vector encoded =
     (if length encoded < 4 then Inl TruncatedDimension
      else let dimension = unat (le_u32 (take 4 encoded))
           in if dimension = 0 then Inl DimensionNotPositive
              else if usize_max < dimension * 4 + 4 then Inl VectorLengthOverflow
              else if length encoded \<noteq> dimension * 4 + 4 then Inl VectorLengthMismatch
              else if list_all (\<lambda>block. list_all f32_finite (chunks_exact 4 block)) (chunks (64 * 1024) (drop 4 encoded))
              then Inr () else Inl CoordinateNotFinite)"

section \<open>Limits of stored values\<close>

definition MAX_VALUE_DEPTH :: nat where "MAX_VALUE_DEPTH = 32"

datatype canonical_error = NestingExceeded | LengthExceeded

definition u32_len :: "nat \<Rightarrow> canonical_error + nat" where
  "u32_len n = (if n < 2 ^ 32 then Inr n else Inl LengthExceeded)"

text \<open>A loop that adds up lengths with \<open>saturating_add\<close> and stops at the first error.\<close>

fun sum_lens :: "('a \<Rightarrow> 'e + nat) \<Rightarrow> 'a list \<Rightarrow> nat \<Rightarrow> 'e + nat" where
  "sum_lens f [] acc = Inr acc"
| "sum_lens f (x # xs) acc = try_then (f x) (\<lambda>n. sum_lens f xs (sat_add acc n))"

lemma try_then_cong [fundef_cong]:
  "x = y \<Longrightarrow> (\<And>z. y = Inr z \<Longrightarrow> f z = g z) \<Longrightarrow> try_then x f = try_then y g"
  by (cases y) auto

lemma sum_lens_cong [fundef_cong]:
  "xs = ys \<Longrightarrow> t = u \<Longrightarrow> (\<And>x. x \<in> set ys \<Longrightarrow> f x = g x) \<Longrightarrow> sum_lens f xs t = sum_lens g ys u"
proof (induction xs arbitrary: ys t u)
  case (Cons x xs)
  then show ?case by (cases "g x") auto
qed simp

function encoded_value_len :: "gvalue \<Rightarrow> nat \<Rightarrow> canonical_error + nat" where
  "encoded_value_len v depth =
     (if MAX_VALUE_DEPTH < depth then Inl NestingExceeded
      else case v of
        GNull \<Rightarrow> Inr 1
      | GBool _ \<Rightarrow> Inr 2
      | GInt _ \<Rightarrow> Inr 9
      | GFloat _ \<Rightarrow> Inr 9
      | GString s \<Rightarrow> try_then (u32_len (length s)) (\<lambda>n. Inr (1 + 4 + n))
      | GBinary b \<Rightarrow> try_then (u32_len (length b)) (\<lambda>n. Inr (1 + 4 + n))
      | GVector b \<Rightarrow> try_then (u32_len (length b)) (\<lambda>n. Inr (1 + 4 + n))
      | GUuid _ \<Rightarrow> Inr 17
      | GDecimal _ \<Rightarrow> Inr 18
      | GDate _ \<Rightarrow> Inr (1 + payload_len KDate)
      | GLocalTime _ \<Rightarrow> Inr (1 + payload_len KLocalTime)
      | GLocalDateTime _ \<Rightarrow> Inr (1 + payload_len KLocalDateTime)
      | GDateTime _ _ \<Rightarrow> Inr (1 + payload_len KDateTime)
      | GDuration _ \<Rightarrow> Inr (1 + payload_len KDuration)
      | GList vs \<Rightarrow>
          try_then (u32_len (length vs)) (\<lambda>_. sum_lens (\<lambda>v. encoded_value_len v (sat_add depth 1)) vs 5)
      | GMap m \<Rightarrow>
          try_then (u32_len (length m)) (\<lambda>_.
            sum_lens (\<lambda>e. try_then (u32_len (length (fst e))) (\<lambda>n.
              try_then (encoded_value_len (snd e) (sat_add depth 2)) (\<lambda>l. Inr (sat_add (4 + n) l)))) m 5))"
  by auto
termination
  by (relation "measure (size \<circ> fst)")
    (auto dest: size_map_value simp: less_Suc_eq_le size_list_estimation')

declare encoded_value_len.simps [simp del]

definition validate_property_value :: "gvalue \<Rightarrow> canonical_error + unit" where
  "validate_property_value v = map_sum id (\<lambda>_. ()) (encoded_value_len v 1)"

section \<open>Value messages\<close>

definition VALUE_FIELD_NULL :: u32 where "VALUE_FIELD_NULL = 1"
definition VALUE_FIELD_BOOL :: u32 where "VALUE_FIELD_BOOL = 2"
definition VALUE_FIELD_INT :: u32 where "VALUE_FIELD_INT = 3"
definition VALUE_FIELD_FLOAT :: u32 where "VALUE_FIELD_FLOAT = 4"
definition VALUE_FIELD_STRING :: u32 where "VALUE_FIELD_STRING = 5"
definition VALUE_FIELD_ELEMENT :: u32 where "VALUE_FIELD_ELEMENT = 6"
definition VALUE_FIELD_MAP_ENTRY :: u32 where "VALUE_FIELD_MAP_ENTRY = 7"
definition VALUE_FIELD_BINARY :: u32 where "VALUE_FIELD_BINARY = 8"
definition VALUE_FIELD_UUID :: u32 where "VALUE_FIELD_UUID = 9"
definition VALUE_FIELD_VECTOR :: u32 where "VALUE_FIELD_VECTOR = 10"
definition VALUE_FIELD_DATE :: u32 where "VALUE_FIELD_DATE = 11"
definition VALUE_FIELD_LOCAL_TIME :: u32 where "VALUE_FIELD_LOCAL_TIME = 12"
definition VALUE_FIELD_LOCAL_DATETIME :: u32 where "VALUE_FIELD_LOCAL_DATETIME = 13"
definition VALUE_FIELD_DATETIME :: u32 where "VALUE_FIELD_DATETIME = 14"
definition VALUE_FIELD_DURATION :: u32 where "VALUE_FIELD_DURATION = 15"
definition VALUE_FIELD_DECIMAL :: u32 where "VALUE_FIELD_DECIMAL = 16"
definition ENTRY_FIELD_KEY :: u32 where "ENTRY_FIELD_KEY = 1"
definition ENTRY_FIELD_VALUE :: u32 where "ENTRY_FIELD_VALUE = 2"

lemmas value_fields =
  VALUE_FIELD_NULL_def VALUE_FIELD_BOOL_def VALUE_FIELD_INT_def VALUE_FIELD_FLOAT_def VALUE_FIELD_STRING_def
  VALUE_FIELD_ELEMENT_def VALUE_FIELD_MAP_ENTRY_def VALUE_FIELD_BINARY_def VALUE_FIELD_UUID_def
  VALUE_FIELD_VECTOR_def VALUE_FIELD_DATE_def VALUE_FIELD_LOCAL_TIME_def VALUE_FIELD_LOCAL_DATETIME_def
  VALUE_FIELD_DATETIME_def VALUE_FIELD_DURATION_def VALUE_FIELD_DECIMAL_def

fun temporal_value_field :: "temporal_kind \<Rightarrow> u32" where
  "temporal_value_field KDate = VALUE_FIELD_DATE"
| "temporal_value_field KLocalTime = VALUE_FIELD_LOCAL_TIME"
| "temporal_value_field KLocalDateTime = VALUE_FIELD_LOCAL_DATETIME"
| "temporal_value_field KDateTime = VALUE_FIELD_DATETIME"
| "temporal_value_field KDuration = VALUE_FIELD_DURATION"

definition temporal_value_kind :: "u32 \<Rightarrow> temporal_kind option" where
  "temporal_value_kind field =
     find (\<lambda>kind. temporal_value_field kind = field) [KDate, KLocalTime, KLocalDateTime, KDateTime, KDuration]"

definition encode_entry :: "bytes \<Rightarrow> bytes \<Rightarrow> bytes" where
  "encode_entry key value_body = encode_string_field ENTRY_FIELD_KEY key @ encode_len_field ENTRY_FIELD_VALUE value_body"

text \<open>The \<open>expect\<close> on the payload of a temporal value is met by construction.\<close>

fun encode_value_message :: "gvalue \<Rightarrow> bytes" where
  "encode_value_message GNull = encode_varint_field VALUE_FIELD_NULL 0"
| "encode_value_message (GBool b) = encode_varint_field VALUE_FIELD_BOOL (of_bool b)"
| "encode_value_message (GInt i) = encode_varint_field VALUE_FIELD_INT (zigzag_encode_i64 i)"
| "encode_value_message (GFloat f) = encode_fixed64_field VALUE_FIELD_FLOAT f"
| "encode_value_message (GString s) = encode_string_field VALUE_FIELD_STRING s"
| "encode_value_message (GBinary b) = encode_len_field VALUE_FIELD_BINARY b"
| "encode_value_message (GVector b) = encode_len_field VALUE_FIELD_VECTOR b"
| "encode_value_message (GUuid u) = encode_len_field VALUE_FIELD_UUID u"
| "encode_value_message (GDecimal d) = encode_len_field VALUE_FIELD_DECIMAL (decimal_to_le_bytes d)"
| "encode_value_message (GList vs) =
     concat (map (\<lambda>v. encode_len_field VALUE_FIELD_ELEMENT (encode_value_message v)) vs) @
     (if vs = [] then encode_len_field VALUE_FIELD_ELEMENT [] else [])"
| "encode_value_message (GMap m) =
     concat (map (\<lambda>(k, v). encode_len_field VALUE_FIELD_MAP_ENTRY (encode_entry k (encode_value_message v))) m) @
     (if m = [] then encode_len_field VALUE_FIELD_MAP_ENTRY [] else [])"
| "encode_value_message v =
     (case encode_payload v of
        None \<Rightarrow> []
      | Some (kind, payload) \<Rightarrow> encode_len_field (temporal_value_field kind) payload)"

datatype value_error =
    ValueWire wire_error
  | ValueTooDeep
  | ValueEmpty
  | DecimalLength
  | DecimalInvalid decimal_error
  | UuidLength
  | VectorInvalid vector_error
  | TemporalInvalid temporal_error
  | EntryIncomplete

definition wire :: "wire_error + 'a \<Rightarrow> value_error + 'a" where
  "wire r = map_sum ValueWire id r"

text \<open>The arms of \<open>decode_value\<close> that do not nest, with the skipping of unknown fields; the value read so
  far is replaced, or kept by a skip.\<close>

definition value_scalar ::
    "chrono \<Rightarrow> u32 \<Rightarrow> u8 \<Rightarrow> bytes \<Rightarrow> nat \<Rightarrow> gvalue option \<Rightarrow> value_error + gvalue option \<times> nat" where
  "value_scalar C field ty bytes pos value =
     (if ty = WIRE_TYPE_VARINT \<and> field \<in> {VALUE_FIELD_NULL, VALUE_FIELD_BOOL, VALUE_FIELD_INT} then
        try_then (wire (decode_varint_u64 bytes pos)) (\<lambda>(n, pos).
          Inr (Some (if field = VALUE_FIELD_NULL then GNull
                     else if field = VALUE_FIELD_BOOL then GBool (n \<noteq> 0)
                     else GInt (zigzag_decode_i64 n)), pos))
      else if ty = WIRE_TYPE_FIXED64 \<and> field = VALUE_FIELD_FLOAT then
        try_then (wire (decode_fixed64 bytes pos)) (\<lambda>(n, pos). Inr (Some (GFloat n), pos))
      else if ty = WIRE_TYPE_LEN \<and> field = VALUE_FIELD_STRING then
        try_then (wire (decode_string_body bytes pos)) (\<lambda>(s, pos). Inr (Some (GString s), pos))
      else if ty = WIRE_TYPE_LEN \<and> field = VALUE_FIELD_BINARY then
        try_then (wire (decode_len_body bytes pos)) (\<lambda>(b, pos). Inr (Some (GBinary b), pos))
      else if ty = WIRE_TYPE_LEN \<and> field = VALUE_FIELD_VECTOR then
        try_then (wire (decode_len_body bytes pos)) (\<lambda>(b, pos).
          try_then (map_sum VectorInvalid id (validate_vector b)) (\<lambda>_. Inr (Some (GVector b), pos)))
      else if ty = WIRE_TYPE_LEN \<and> field = VALUE_FIELD_DECIMAL then
        try_then (wire (decode_len_body bytes pos)) (\<lambda>(b, pos).
          if length b \<noteq> 17 then Inl DecimalLength
          else try_then (map_sum DecimalInvalid id (decimal_from_le_bytes b)) (\<lambda>d. Inr (Some (GDecimal d), pos)))
      else if ty = WIRE_TYPE_LEN \<and> field = VALUE_FIELD_UUID then
        try_then (wire (decode_len_body bytes pos)) (\<lambda>(b, pos).
          if length b \<noteq> 16 then Inl UuidLength else Inr (Some (GUuid b), pos))
      else case (if ty = WIRE_TYPE_LEN then temporal_value_kind field else None) of
        Some kind \<Rightarrow>
          try_then (wire (decode_len_body bytes pos)) (\<lambda>(b, pos).
            try_then (map_sum TemporalInvalid id (decode_payload C kind b)) (\<lambda>v. Inr (Some v, pos)))
      | None \<Rightarrow> try_then (wire (skip_field bytes pos ty)) (\<lambda>pos. Inr (value, pos)))"

text \<open>\<open>value.take()\<close> in the arms of list elements and map entries.\<close>

definition list_values :: "gvalue option \<Rightarrow> gvalue list" where
  "list_values value = (case value of Some (GList vs) \<Rightarrow> vs | _ \<Rightarrow> [])"

definition map_entries :: "gvalue option \<Rightarrow> (bytes, gvalue) btree" where
  "map_entries value = (case value of Some (GMap m) \<Rightarrow> m | _ \<Rightarrow> [])"

lemma wire_Inr [simp]: "wire r = Inr x \<longleftrightarrow> r = Inr x"
  by (cases r) (simp_all add: wire_def)

lemma try_then_Inr: "try_then r f = Inr y \<longleftrightarrow> (\<exists>x. r = Inr x \<and> f x = Inr y)"
  by (cases r) simp_all

lemma decode_tag_bounds: "decode_tag bs pos = Inr (t, p) \<Longrightarrow> pos < p \<and> p \<le> length bs"
  by (auto simp: decode_tag_def Let_def split: sum.splits if_splits dest!: decode_varint_bounds)

lemma decode_string_body_bounds:
  "decode_string_body bs pos = Inr (b, p) \<Longrightarrow> pos < p \<and> p \<le> length bs \<and> pos + length b < p"
  by (auto simp: decode_string_body_def split: sum.splits if_splits dest!: decode_len_body_bounds)

lemma decode_fixed64_bounds: "decode_fixed64 bs pos = Inr (v, p) \<Longrightarrow> pos < p \<and> p \<le> length bs"
  by (auto simp: decode_fixed64_def bounded_end_Some split: option.splits)

lemma value_scalar_forward: "value_scalar C f t bs pos v = Inr (w, p) \<Longrightarrow> pos < p"
  by (auto simp: value_scalar_def try_then_Inr split: if_splits option.splits
      dest!: decode_varint_bounds decode_fixed64_bounds decode_string_body_bounds decode_len_body_bounds skip_field_bounds)

function decode_value :: "chrono \<Rightarrow> bytes \<Rightarrow> nat \<Rightarrow> value_error + gvalue"
  and value_loop :: "chrono \<Rightarrow> bytes \<Rightarrow> nat \<Rightarrow> nat \<Rightarrow> gvalue option \<Rightarrow> value_error + gvalue"
  and entry_loop ::
    "chrono \<Rightarrow> bytes \<Rightarrow> nat \<Rightarrow> nat \<Rightarrow> bytes option \<Rightarrow> gvalue option \<Rightarrow> value_error + bytes \<times> gvalue" where
  "decode_value C bytes depth =
     (if MAX_VALUE_DEPTH < depth then Inl ValueTooDeep else value_loop C bytes depth 0 None)"
| "value_loop C bytes depth pos value =
     (if length bytes \<le> pos then (case value of None \<Rightarrow> Inl ValueEmpty | Some v \<Rightarrow> Inr v)
      else try_then (wire (decode_tag bytes pos)) (\<lambda>(tag, pos').
        if fst tag = VALUE_FIELD_ELEMENT \<and> snd tag = WIRE_TYPE_LEN then
          try_then (wire (decode_len_body bytes pos')) (\<lambda>(body, next).
            try_then (if body = [] then Inr []
                      else try_then (decode_value C body (sat_add depth 1)) (\<lambda>v. Inr [v])) (\<lambda>vs.
              value_loop C bytes depth next (Some (GList (list_values value @ vs)))))
        else if fst tag = VALUE_FIELD_MAP_ENTRY \<and> snd tag = WIRE_TYPE_LEN then
          try_then (wire (decode_len_body bytes pos')) (\<lambda>(body, next).
            try_then (if body = [] then Inr (map_entries value)
                      else try_then (entry_loop C body (sat_add depth 2) 0 None None) (\<lambda>(k, v).
                        Inr (bt_insert (lex_cmp cmp_lin) k v (map_entries value)))) (\<lambda>m.
              value_loop C bytes depth next (Some (GMap m))))
        else try_then (value_scalar C (fst tag) (snd tag) bytes pos' value) (\<lambda>(value', next).
          value_loop C bytes depth next value')))"
| "entry_loop C bytes depth pos key value =
     (if length bytes \<le> pos then
        (case (key, value) of (Some k, Some v) \<Rightarrow> Inr (k, v) | _ \<Rightarrow> Inl EntryIncomplete)
      else try_then (wire (decode_tag bytes pos)) (\<lambda>(tag, pos').
        if fst tag = ENTRY_FIELD_KEY \<and> snd tag = WIRE_TYPE_LEN then
          try_then (wire (decode_string_body bytes pos')) (\<lambda>(k, next).
            entry_loop C bytes depth next (Some k) value)
        else if fst tag = ENTRY_FIELD_VALUE \<and> snd tag = WIRE_TYPE_LEN then
          try_then (wire (decode_len_body bytes pos')) (\<lambda>(body, next).
            try_then (decode_value C body depth) (\<lambda>v. entry_loop C bytes depth next key (Some v)))
        else try_then (wire (skip_field bytes pos' (snd tag))) (\<lambda>next. entry_loop C bytes depth next key value)))"
  by pat_completeness auto
termination
proof (relation "measures
    [case_sum (\<lambda>(C, bs, d). length bs) (case_sum (\<lambda>(C, bs, d, p, v). length bs) (\<lambda>(C, bs, d, p, k, v). length bs)),
     case_sum (\<lambda>(C, bs, d). Suc (length bs))
       (case_sum (\<lambda>(C, bs, d, p, v). length bs - p) (\<lambda>(C, bs, d, p, k, v). length bs - p))]")
qed (auto dest!: decode_tag_bounds decode_len_body_bounds decode_string_body_bounds skip_field_bounds value_scalar_forward)

declare decode_value.simps [simp del] value_loop.simps [simp del] entry_loop.simps [simp del]

definition decode_map_entry :: "chrono \<Rightarrow> bytes \<Rightarrow> nat \<Rightarrow> value_error + bytes \<times> gvalue" where
  "decode_map_entry C bytes value_depth = entry_loop C bytes value_depth 0 None None"

section \<open>What the types of a value guarantee\<close>

definition time_ok :: "chrono \<Rightarrow> time_of_day \<Rightarrow> bool" where
  "time_ok C t \<longleftrightarrow> fst t < 86400 \<and> snd t < NANOS_PER_SECOND \<and> time_in_range C (fst t) (snd t)"

definition date_ok :: "chrono \<Rightarrow> int \<Rightarrow> bool" where
  "date_ok C d \<longleftrightarrow> - (2 ^ 31) \<le> d \<and> d < 2 ^ 31 \<and> day_in_range C d"

definition duration_ok :: "chrono \<Rightarrow> duration \<Rightarrow> bool" where
  "duration_ok C d \<longleftrightarrow> - (2 ^ 63) \<le> fst (delta d) \<and> fst (delta d) < 2 ^ 63 \<and>
     0 \<le> snd (delta d) \<and> snd (delta d) < int NANOS_PER_SECOND \<and> delta_in_range C (fst (delta d)) (snd (delta d))"

fun value_ok :: "chrono \<Rightarrow> gvalue \<Rightarrow> bool" where
  "value_ok C (GString s) = utf8_valid s"
| "value_ok C (GDecimal d) = decimal_ok d"
| "value_ok C (GVector b) = (validate_vector b = Inr ())"
| "value_ok C (GUuid b) = (length b = 16)"
| "value_ok C (GList vs) = list_all (value_ok C) vs"
| "value_ok C (GMap m) =
     (bt_sorted (lex_cmp cmp_lin) m \<and> list_all (\<lambda>(k, v). utf8_valid k \<and> value_ok C v) m)"
| "value_ok C (GDate d) = date_ok C d"
| "value_ok C (GLocalTime t) = time_ok C t"
| "value_ok C (GLocalDateTime dt) = (date_ok C (fst dt) \<and> time_ok C (snd dt))"
| "value_ok C (GDateTime utc offset) =
     (date_ok C (fst utc) \<and> time_ok C (snd utc) \<and> - (2 ^ 31) \<le> offset \<and> offset < 2 ^ 31 \<and>
      offset_in_range C offset \<and> local_in_range C utc offset)"
| "value_ok C (GDuration d) = duration_ok C d"
| "value_ok C _ = True"

section \<open>Round trips of scalars\<close>

lemma length_i32_le [simp]: "length (i32_le n) = 4"
  by (simp add: i32_le_def)

lemma signed_of_mod:
  fixes n :: int
  assumes "- (2 ^ k) \<le> n" "n < 2 ^ k"
  shows "(let m = n mod 2 ^ Suc k in if 2 ^ k \<le> m then m - 2 ^ Suc k else m) = n"
proof (cases "0 \<le> n")
  case True
  with assms have "n mod 2 ^ Suc k = n" by (intro mod_pos_pos_trivial) auto
  with assms show ?thesis by (simp add: Let_def)
next
  case False
  have "n mod 2 ^ Suc k = (n + 2 ^ Suc k) mod 2 ^ Suc k" by simp
  also have "\<dots> = n + 2 ^ Suc k" using assms False by (intro mod_pos_pos_trivial) auto
  finally show ?thesis using assms by (simp add: Let_def)
qed

lemma le_i32_i32_le:
  assumes "- (2 ^ 31) \<le> n" "n < 2 ^ 31"
  shows "le_i32 (i32_le n) = n"
proof -
  have "nat (n mod 2 ^ 32) < 256 ^ 4" by (simp add: nat_less_iff)
  then have "int (le_nat (i32_le n)) = n mod 2 ^ Suc 31"
    unfolding i32_le_def by (simp add: le_nat_le_bytes_id)
  then show ?thesis using signed_of_mod [OF assms] by (simp add: le_i32_def Let_def split: if_splits)
qed

lemma le_i128_i128_le:
  assumes "- (2 ^ 127) \<le> n" "n < 2 ^ 127"
  shows "le_i128 (i128_le n) = n"
proof -
  have "nat (n mod 2 ^ 128) < 256 ^ 16" by (simp add: nat_less_iff)
  then have "int (le_nat (i128_le n)) = n mod 2 ^ Suc 127"
    unfolding i128_le_def by (simp add: le_nat_le_bytes_id)
  then show ?thesis using signed_of_mod [OF assms] by (simp add: le_i128_def Let_def split: if_splits)
qed

lemma decimal_le_bytes_roundtrip:
  assumes "decimal_ok d"
  shows "decimal_from_le_bytes (decimal_to_le_bytes d) = Inr d" "length (decimal_to_le_bytes d) = 17"
proof -
  have l: "length (i128_le (coefficient d)) = 16" by (simp add: i128_le_def)
  then show "length (decimal_to_le_bytes d) = 17" by (simp add: decimal_to_le_bytes_def)
  have "le_i128 (i128_le (coefficient d)) = coefficient d"
    using assms by (intro le_i128_i128_le) (auto simp: decimal_ok_def max_coefficient_def)
  moreover have "unat (of_nat (dscale d) :: u8) = dscale d"
    using assms by (simp add: decimal_ok_def unat_of_nat)
  ultimately show "decimal_from_le_bytes (decimal_to_le_bytes d) = Inr d"
    using assms l by (simp add: decimal_from_le_bytes_def decimal_to_le_bytes_def nth_append decimal_new_def decimal_ok_def)
qed

text \<open>Reading a fixed-width field after a prefix of known length.\<close>

lemma byte_range_at: "length pre = a \<Longrightarrow> b = a + length x \<Longrightarrow> byte_range a b (pre @ x @ post) = x"
  by (auto simp: byte_range_def)

lemma read_date_at:
  "date_ok C d \<Longrightarrow> length pre = a \<Longrightarrow> read_date C (pre @ write_date d @ post) a = Inr d"
  by (simp add: read_date_def write_date_def byte_range_at le_i32_i32_le date_ok_def)

lemma read_time_at:
  assumes "time_ok C t" "length pre = a"
  shows "read_time C (pre @ write_time t @ post) a = Inr t"
proof -
  obtain s f where t: "t = (s, f)" by (cases t)
  have b: "s < 86400" "f < NANOS_PER_SECOND" "time_in_range C s f" using assms by (auto simp: time_ok_def t)
  have d: "time_nanos t div NANOS_PER_SECOND = s" "time_nanos t mod NANOS_PER_SECOND = f"
    using b by (simp_all add: time_nanos_def t NANOS_PER_SECOND_def)
  have lt: "time_nanos t < 86400 * NANOS_PER_SECOND"
    using b by (simp add: time_nanos_def t NANOS_PER_SECOND_def)
  then have "unat (of_nat (time_nanos t) :: u64) = time_nanos t"
    by (simp add: unat_of_nat NANOS_PER_SECOND_def)
  then show ?thesis
    using b d lt assms(2) by (simp add: read_time_def write_time_def byte_range_at t)
qed

lemma length_write [simp]: "length (write_date d) = 4" "length (write_time t) = 8"
  by (simp_all add: write_date_def write_time_def)

lemma read_datetime_at:
  "date_ok C (fst dt) \<Longrightarrow> time_ok C (snd dt) \<Longrightarrow>
   read_datetime C (write_date (fst dt) @ write_time (snd dt) @ post) = Inr dt"
  using read_date_at [of C "fst dt" "[]" 0 "write_time (snd dt) @ post"]
    read_time_at [of C "snd dt" "write_date (fst dt)" 4 post]
  by (simp add: read_datetime_def)

lemma read_duration:
  assumes "duration_ok C d"
  shows "sint (duration_seconds d) = fst (delta d)"
    "int (unat (of_int (nanos_of_second d) :: u32)) = snd (delta d)"
    "unat (of_int (nanos_of_second d) :: u32) < NANOS_PER_SECOND"
proof -
  let ?s = "fst (delta d)" and ?n = "snd (delta d)"
  have b: "- (2 ^ 63) \<le> ?s" "?s < 2 ^ 63" "0 \<le> ?n" "?n < int NANOS_PER_SECOND"
    using assms by (auto simp: duration_ok_def)
  have "delta_nanos (delta d) div int NANOS_PER_SECOND = ?s"
    using b by (simp add: delta_nanos_def NANOS_PER_SECOND_def)
  then show "sint (duration_seconds d) = ?s"
    using b by (simp add: duration_seconds_def signed_of_int signed_take_bit_int_eq_self)
  have "nanos_of_second d = ?n"
    using b by (simp add: nanos_of_second_def delta_nanos_def NANOS_PER_SECOND_def)
  moreover have "uint (of_int ?n :: u32) = ?n"
    using b by (simp add: NANOS_PER_SECOND_def unsigned_of_int take_bit_int_eq_self)
  ultimately show "int (unat (of_int (nanos_of_second d) :: u32)) = ?n"
    "unat (of_int (nanos_of_second d) :: u32) < NANOS_PER_SECOND"
    using b by (auto simp: unat_eq_nat_uint nat_less_iff)
qed

lemma payload_roundtrip:
  assumes "value_ok C v" "encode_payload v = Some (kind, payload)"
  shows "decode_payload C kind payload = Inr v"
proof (cases v)
  case (GDate d)
  then show ?thesis using assms read_date_at [of C d "[]" 0 "[]"] by (auto simp: decode_payload_def)
next
  case (GLocalTime t)
  then show ?thesis using assms read_time_at [of C t "[]" 0 "[]"] by (auto simp: decode_payload_def)
next
  case (GLocalDateTime dt)
  then show ?thesis using assms read_datetime_at [of C dt "[]"] by (auto simp: decode_payload_def)
next
  case (GDateTime utc offset)
  let ?b = "write_date (fst utc) @ write_time (snd utc) @ i32_le offset"
  have "byte_range 12 16 ?b = i32_le offset"
    using byte_range_at [of "write_date (fst utc) @ write_time (snd utc)" 12 16 "i32_le offset" "[]"] by simp
  then show ?thesis
    using GDateTime assms read_datetime_at [of C utc "i32_le offset"]
    by (auto simp: decode_payload_def le_i32_i32_le)
next
  case (GDuration d)
  let ?n = "u32_le (of_int (nanos_of_second d))"
  let ?b = "u64_le (months d) @ u64_le (days d) @ u64_le (duration_seconds d) @ ?n"
  have "byte_range 0 8 ?b = u64_le (months d)" "byte_range 8 16 ?b = u64_le (days d)"
    "byte_range 16 24 ?b = u64_le (duration_seconds d)" "byte_range 24 28 ?b = ?n"
    using byte_range_at [of "[]" 0 8 "u64_le (months d)"] byte_range_at [of "u64_le (months d)" 8 16 "u64_le (days d)"]
      byte_range_at [of "u64_le (months d) @ u64_le (days d)" 16 24 "u64_le (duration_seconds d)"]
      byte_range_at [of "u64_le (months d) @ u64_le (days d) @ u64_le (duration_seconds d)" 24 28 ?n "[]"]
    by simp_all
  then show ?thesis
    using GDuration assms read_duration [of C d]
    by (auto simp: decode_payload_def duration_ok_def Let_def)
qed (use assms in auto)

section \<open>Round trips of messages\<close>

text \<open>The tag and the body of a field that stands anywhere in a buffer.\<close>

lemma tag_at:
  "decode_tag (pre @ encode_varint_field i n @ post) (length pre) =
     Inr ((i, WIRE_TYPE_VARINT), length pre + length (encode_tag i WIRE_TYPE_VARINT))"
  "decode_tag (pre @ encode_fixed64_field i n @ post) (length pre) =
     Inr ((i, WIRE_TYPE_FIXED64), length pre + length (encode_tag i WIRE_TYPE_FIXED64))"
  "decode_tag (pre @ encode_len_field i b @ post) (length pre) =
     Inr ((i, WIRE_TYPE_LEN), length pre + length (encode_tag i WIRE_TYPE_LEN))"
  using decode_encode_tag [OF wire_type_le(1) refl, of pre i "encode_varint_u64 n @ post"]
    decode_encode_tag [OF wire_type_le(2) refl, of pre i "u64_le n @ post"]
    decode_encode_tag [OF wire_type_le(3) refl, of pre i "encode_varint_u64 (of_nat (length b)) @ b @ post"]
  by (simp_all add: encode_varint_field_def encode_fixed64_field_def encode_len_field_def)

lemma varint_at:
  "decode_varint_u64 (pre @ encode_varint_field i n @ post) (length pre + length (encode_tag i WIRE_TYPE_VARINT)) =
     Inr (n, length pre + length (encode_varint_field i n))"
  using decode_encode_varint [of "pre @ encode_tag i WIRE_TYPE_VARINT" n post]
  by (simp add: encode_varint_field_def)

lemma fixed64_at:
  "length (pre @ encode_fixed64_field i n @ post) \<le> usize_max \<Longrightarrow>
   decode_fixed64 (pre @ encode_fixed64_field i n @ post) (length pre + length (encode_tag i WIRE_TYPE_FIXED64)) =
     Inr (n, length pre + length (encode_fixed64_field i n))"
  using decode_fixed64_le [of "pre @ encode_tag i WIRE_TYPE_FIXED64" n post]
  by (simp add: encode_fixed64_field_def)

lemma len_body_at:
  "length (pre @ encode_len_field i b @ post) \<le> usize_max \<Longrightarrow>
   decode_len_body (pre @ encode_len_field i b @ post) (length pre + length (encode_tag i WIRE_TYPE_LEN)) =
     Inr (b, length pre + length (encode_len_field i b))"
  using decode_len_body_encode [of "pre @ encode_tag i WIRE_TYPE_LEN" b post]
  by (simp add: encode_len_field_def)

lemma string_body_at:
  "length (pre @ encode_len_field i b @ post) \<le> usize_max \<Longrightarrow> utf8_valid b \<Longrightarrow>
   decode_string_body (pre @ encode_len_field i b @ post) (length pre + length (encode_tag i WIRE_TYPE_LEN)) =
     Inr (b, length pre + length (encode_len_field i b))"
  by (simp add: decode_string_body_def len_body_at)

lemma length_len_field: "length b < length (encode_len_field i b)"
  by (simp add: encode_len_field_def encode_tag_def)

lemma field_nonempty [simp]:
  "encode_varint_field i n \<noteq> []" "encode_fixed64_field i n \<noteq> []" "encode_len_field i b \<noteq> []"
  by (simp_all add: encode_varint_field_def encode_fixed64_field_def encode_len_field_def encode_tag_def)

lemma encode_value_message_nonempty [simp]: "encode_value_message v \<noteq> []"
proof (cases v)
  case (GMap m)
  then show ?thesis by (cases m) auto
qed (auto simp: encode_string_field_def)

text \<open>A message of one field that does not nest.\<close>

lemma value_loop_single:
  assumes "decode_tag bs 0 = Inr ((field, ty), p)" "field \<noteq> VALUE_FIELD_ELEMENT" "field \<noteq> VALUE_FIELD_MAP_ENTRY"
    and "value_scalar C field ty bs p None = Inr (Some v, length bs)" "bs \<noteq> []"
  shows "value_loop C bs depth 0 None = Inr v"
  using assms by (simp add: value_loop.simps [of C bs depth 0] value_loop.simps [of C bs depth "length bs"] wire_def)

text \<open>A list element and a map entry in the middle of a message.\<close>

lemma value_loop_element:
  assumes "length (pre @ encode_len_field VALUE_FIELD_ELEMENT b @ post) \<le> usize_max"
  shows "value_loop C (pre @ encode_len_field VALUE_FIELD_ELEMENT b @ post) depth (length pre) acc =
    try_then (if b = [] then Inr [] else try_then (decode_value C b (sat_add depth 1)) (\<lambda>v. Inr [v])) (\<lambda>vs.
      value_loop C (pre @ encode_len_field VALUE_FIELD_ELEMENT b @ post) depth
        (length (pre @ encode_len_field VALUE_FIELD_ELEMENT b)) (Some (GList (list_values acc @ vs))))"
  using assms by (subst value_loop.simps) (simp add: tag_at len_body_at wire_def)

lemma value_loop_entry:
  assumes "length (pre @ encode_len_field VALUE_FIELD_MAP_ENTRY b @ post) \<le> usize_max"
  shows "value_loop C (pre @ encode_len_field VALUE_FIELD_MAP_ENTRY b @ post) depth (length pre) acc =
    try_then (if b = [] then Inr (map_entries acc)
              else try_then (entry_loop C b (sat_add depth 2) 0 None None) (\<lambda>(k, v).
                Inr (bt_insert (lex_cmp cmp_lin) k v (map_entries acc)))) (\<lambda>m.
      value_loop C (pre @ encode_len_field VALUE_FIELD_MAP_ENTRY b @ post) depth
        (length (pre @ encode_len_field VALUE_FIELD_MAP_ENTRY b)) (Some (GMap m)))"
  using assms by (subst value_loop.simps) (simp add: tag_at len_body_at wire_def value_fields)

lemma value_loop_end: "value_loop C bs depth (length bs) (Some v) = Inr v"
  by (simp add: value_loop.simps)

lemma list_loop:
  "\<forall>v \<in> set vs. decode_value C (encode_value_message v) (sat_add depth 1) = Inr v \<Longrightarrow>
   length (pre @ concat (map (\<lambda>v. encode_len_field VALUE_FIELD_ELEMENT (encode_value_message v)) vs)) \<le> usize_max \<Longrightarrow>
   value_loop C (pre @ concat (map (\<lambda>v. encode_len_field VALUE_FIELD_ELEMENT (encode_value_message v)) vs)) depth
     (length pre) (Some (GList us)) = Inr (GList (us @ vs))"
proof (induction vs arbitrary: pre us)
  case Nil
  then show ?case by (simp add: value_loop_end)
next
  case (Cons v vs)
  show ?case
    using Cons.prems Cons.IH [of "pre @ encode_len_field VALUE_FIELD_ELEMENT (encode_value_message v)" "us @ [v]"]
      value_loop_element [of pre "encode_value_message v"]
    by (simp add: list_values_def)
qed

lemma bt_insert_last:
  "\<forall>e \<in> set m. lex_cmp cmp_lin (fst e) (k :: bytes) = Less \<Longrightarrow>
   bt_insert (lex_cmp cmp_lin) k v m = m @ [(k, v)]"
  using lin_ord.bt_insert_append_right [of m k v "[]"] by (simp add: lex_cmp_lin [abs_def])

lemma map_loop:
  "\<forall>(k, v) \<in> set m. entry_loop C (encode_entry k (encode_value_message v)) (sat_add depth 2) 0 None None = Inr (k, v) \<Longrightarrow>
   bt_sorted (lex_cmp cmp_lin) (us @ m) \<Longrightarrow>
   length (pre @ concat (map (\<lambda>(k, v).
     encode_len_field VALUE_FIELD_MAP_ENTRY (encode_entry k (encode_value_message v))) m)) \<le> usize_max \<Longrightarrow>
   value_loop C (pre @ concat (map (\<lambda>(k, v).
     encode_len_field VALUE_FIELD_MAP_ENTRY (encode_entry k (encode_value_message v))) m)) depth
     (length pre) (Some (GMap us)) = Inr (GMap (us @ m))"
proof (induction m arbitrary: pre us)
  case Nil
  then show ?case by (simp add: value_loop_end)
next
  case (Cons e m)
  obtain k v where e: "e = (k, v)" by (cases e)
  have "encode_entry k (encode_value_message v) \<noteq> []" by (simp add: encode_entry_def encode_string_field_def)
  moreover have "bt_insert (lex_cmp cmp_lin) k v us = us @ [(k, v)]"
    using Cons.prems(2) by (intro bt_insert_last) (auto simp: bt_sorted_append e)
  ultimately show ?case
    using Cons.prems Cons.IH [of "us @ [(k, v)]"
        "pre @ encode_len_field VALUE_FIELD_MAP_ENTRY (encode_entry k (encode_value_message v))"]
      value_loop_entry [of pre "encode_entry k (encode_value_message v)"]
    by (simp add: map_entries_def e)
qed

lemma entry_fields_distinct: "ENTRY_FIELD_VALUE \<noteq> ENTRY_FIELD_KEY"
  by (simp add: ENTRY_FIELD_KEY_def ENTRY_FIELD_VALUE_def)

lemma entry_roundtrip:
  assumes "utf8_valid k" "decode_value C body depth = Inr v" "length (encode_entry k body) \<le> usize_max"
  shows "entry_loop C (encode_entry k body) depth 0 None None = Inr (k, v)"
proof -
  let ?k = "encode_len_field ENTRY_FIELD_KEY k" and ?v = "encode_len_field ENTRY_FIELD_VALUE body"
  have e: "encode_entry k body = ?k @ ?v" by (simp add: encode_entry_def encode_string_field_def)
  have t: "decode_tag (?k @ ?v) 0 = Inr ((ENTRY_FIELD_KEY, WIRE_TYPE_LEN), length (encode_tag ENTRY_FIELD_KEY WIRE_TYPE_LEN))"
    "decode_string_body (?k @ ?v) (length (encode_tag ENTRY_FIELD_KEY WIRE_TYPE_LEN)) = Inr (k, length ?k)"
    using tag_at(3) [of "[]" ENTRY_FIELD_KEY k ?v] string_body_at [of "[]" ENTRY_FIELD_KEY k ?v] assms e by simp_all
  have u: "decode_tag (?k @ ?v) (length ?k) =
      Inr ((ENTRY_FIELD_VALUE, WIRE_TYPE_LEN), length ?k + length (encode_tag ENTRY_FIELD_VALUE WIRE_TYPE_LEN))"
    "decode_len_body (?k @ ?v) (length ?k + length (encode_tag ENTRY_FIELD_VALUE WIRE_TYPE_LEN)) =
      Inr (body, length (?k @ ?v))"
    using tag_at(3) [of ?k ENTRY_FIELD_VALUE body "[]"] len_body_at [of ?k ENTRY_FIELD_VALUE body "[]"] assms e by simp_all
  have "entry_loop C (?k @ ?v) depth 0 None None = entry_loop C (?k @ ?v) depth (length ?k) (Some k) None"
    by (subst entry_loop.simps) (simp add: t wire_def)
  also have "\<dots> = entry_loop C (?k @ ?v) depth (length (?k @ ?v)) (Some k) (Some v)"
    by (subst entry_loop.simps) (simp add: u wire_def assms entry_fields_distinct)
  also have "\<dots> = Inr (k, v)" by (simp add: entry_loop.simps)
  finally show ?thesis by (simp add: e)
qed

text \<open>The scalars: the arm of the value's field reads the value back.\<close>

lemma value_scalar_roundtrip:
  fixes v :: gvalue
  defines "bs \<equiv> encode_value_message v"
  assumes "value_ok C v" "length bs \<le> usize_max" "\<forall>vs. v \<noteq> GList vs" "\<forall>m. v \<noteq> GMap m"
  shows "\<exists>field ty p. decode_tag bs 0 = Inr ((field, ty), p) \<and> field \<noteq> VALUE_FIELD_ELEMENT \<and>
    field \<noteq> VALUE_FIELD_MAP_ENTRY \<and> value_scalar C field ty bs p None = Inr (Some v, length bs)"
proof (cases "temporal_kind_of v")
  case None
  note at = tag_at [of "[]" _ _ "[]", simplified] varint_at [of "[]" _ _ "[]", simplified]
    fixed64_at [of "[]" _ _ "[]", simplified] len_body_at [of "[]" _ _ "[]", simplified]
    string_body_at [of "[]" _ _ "[]", simplified]
  show ?thesis
    using None assms(2-)
    by (cases v) (auto simp: bs_def at encode_string_field_def value_scalar_def wire_def value_fields
        zigzag_decode_encode decimal_le_bytes_roundtrip)
next
  case (Some kind)
  then obtain payload where e: "encode_payload v = Some (kind, payload)"
    by (cases v) auto
  have bs: "bs = encode_len_field (temporal_value_field kind) payload"
    using Some e by (cases v) (auto simp: bs_def)
  have k: "temporal_value_kind (temporal_value_field kind) = Some kind"
    by (cases kind) (simp_all add: temporal_value_kind_def value_fields)
  have d: "temporal_value_field kind \<notin> {VALUE_FIELD_ELEMENT, VALUE_FIELD_MAP_ENTRY, VALUE_FIELD_STRING,
      VALUE_FIELD_BINARY, VALUE_FIELD_VECTOR, VALUE_FIELD_DECIMAL, VALUE_FIELD_UUID}"
    by (cases kind) (simp_all add: value_fields)
  then show ?thesis
    using tag_at(3) [of "[]" "temporal_value_field kind" payload "[]"] k assms(2,3)
      len_body_at [of "[]" "temporal_value_field kind" payload "[]"] payload_roundtrip [OF assms(2) e]
    by (simp add: bs value_scalar_def wire_def)
qed

lemma sum_lens_InrD: "sum_lens f xs t = Inr n \<Longrightarrow> x \<in> set xs \<Longrightarrow> \<exists>k. f x = Inr k"
  by (induction xs arbitrary: t) (auto simp: try_then_Inr)

lemma encoded_value_lenD:
  assumes "encoded_value_len v depth = Inr n"
  shows "depth \<le> MAX_VALUE_DEPTH"
    "v = GList vs \<Longrightarrow> x \<in> set vs \<Longrightarrow> \<exists>k. encoded_value_len x (sat_add depth 1) = Inr k"
    "v = GMap m \<Longrightarrow> (key, x) \<in> set m \<Longrightarrow> \<exists>k. encoded_value_len x (sat_add depth 2) = Inr k"
proof -
  note e = assms [unfolded encoded_value_len.simps [of v depth]]
  show "depth \<le> MAX_VALUE_DEPTH" using e by (simp split: if_splits)
  show "v = GList vs \<Longrightarrow> x \<in> set vs \<Longrightarrow> \<exists>k. encoded_value_len x (sat_add depth 1) = Inr k"
    using e by (auto simp: try_then_Inr split: if_splits dest!: sum_lens_InrD)
  show "v = GMap m \<Longrightarrow> (key, x) \<in> set m \<Longrightarrow> \<exists>k. encoded_value_len x (sat_add depth 2) = Inr k"
    using e by (auto simp: try_then_Inr split: if_splits dest!: sum_lens_InrD)
qed

text \<open>A part of a concatenation of fields is shorter than the whole.\<close>

lemma length_part: "x \<in> set xs \<Longrightarrow> length (f x) \<le> length (concat (map f xs))"
  by (induction xs) auto

lemma value_list_roundtrip:
  assumes "\<forall>v \<in> set vs. decode_value C (encode_value_message v) (sat_add depth 1) = Inr v"
    and "length (encode_value_message (GList vs)) \<le> usize_max"
  shows "value_loop C (encode_value_message (GList vs)) depth 0 None = Inr (GList vs)"
proof (cases vs)
  case Nil
  then show ?thesis
    using assms value_loop_element [of "[]" "[]" "[]" C depth None]
      value_loop_end [of C "encode_len_field VALUE_FIELD_ELEMENT []" depth "GList []"]
    by (simp add: list_values_def)
next
  case (Cons v us)
  let ?enc = "\<lambda>v. encode_len_field VALUE_FIELD_ELEMENT (encode_value_message v)"
  show ?thesis
    using assms Cons value_loop_element [of "[]" "encode_value_message v" "concat (map ?enc us)" C depth None]
      list_loop [of us C depth "?enc v" "[v]"]
    by (simp add: list_values_def)
qed

lemma value_map_roundtrip:
  assumes "\<forall>(k, v) \<in> set m. entry_loop C (encode_entry k (encode_value_message v)) (sat_add depth 2) 0 None None = Inr (k, v)"
    and "bt_sorted (lex_cmp cmp_lin) m" "length (encode_value_message (GMap m)) \<le> usize_max"
  shows "value_loop C (encode_value_message (GMap m)) depth 0 None = Inr (GMap m)"
proof (cases m)
  case Nil
  then show ?thesis
    using assms value_loop_entry [of "[]" "[]" "[]" C depth None]
      value_loop_end [of C "encode_len_field VALUE_FIELD_MAP_ENTRY []" depth "GMap []"]
    by (simp add: map_entries_def)
next
  case (Cons e m')
  obtain k v where e: "e = (k, v)" by (cases e)
  let ?enc = "\<lambda>(k, v). encode_len_field VALUE_FIELD_MAP_ENTRY (encode_entry k (encode_value_message v))"
  have "encode_entry k (encode_value_message v) \<noteq> []" by (simp add: encode_entry_def encode_string_field_def)
  then show ?thesis
    using assms Cons e map_loop [of m' C depth "[(k, v)]" "?enc (k, v)"]
      value_loop_entry [of "[]" "encode_entry k (encode_value_message v)" "concat (map ?enc m')" C depth None]
    by (simp add: map_entries_def)
qed

lemma decode_valueI:
  "encoded_value_len v depth = Inr n \<Longrightarrow> value_loop C bs depth 0 None = Inr w \<Longrightarrow> decode_value C bs depth = Inr w"
  using encoded_value_lenD(1) [of v depth n] by (simp add: decode_value.simps)

lemma value_scalar_loop:
  assumes "value_ok C v" "length (encode_value_message v) \<le> usize_max" "\<forall>vs. v \<noteq> GList vs" "\<forall>m. v \<noteq> GMap m"
  shows "value_loop C (encode_value_message v) depth 0 None = Inr v"
  using value_scalar_roundtrip [OF assms] by (auto intro: value_loop_single)

lemma value_roundtrip:
  "value_ok C v \<Longrightarrow> encoded_value_len v depth = Inr n \<Longrightarrow> length (encode_value_message v) \<le> usize_max \<Longrightarrow>
   decode_value C (encode_value_message v) depth = Inr v"
proof (induction v arbitrary: depth n)
  case (GList vs)
  let ?enc = "\<lambda>v. encode_len_field VALUE_FIELD_ELEMENT (encode_value_message v)"
  have "decode_value C (encode_value_message v) (sat_add depth 1) = Inr v" if v: "v \<in> set vs" for v
  proof -
    have "length (encode_value_message v) \<le> usize_max"
      using length_part [OF v, of ?enc] length_len_field [of "encode_value_message v" VALUE_FIELD_ELEMENT] GList.prems(3) by simp
    then show ?thesis
      using GList.IH [OF v] GList.prems(1) encoded_value_lenD(2) [OF GList.prems(2) refl v] v
      by (auto simp: list_all_iff)
  qed
  then show ?case
    by (intro decode_valueI [OF GList.prems(2)] value_list_roundtrip GList.prems(3)) simp
next
  case (GMap m)
  let ?enc = "\<lambda>(k, v). encode_len_field VALUE_FIELD_MAP_ENTRY (encode_entry k (encode_value_message v))"
  have "entry_loop C (encode_entry k (encode_value_message v)) (sat_add depth 2) 0 None None = Inr (k, v)"
    if e: "(k, v) \<in> set m" for k v
  proof -
    have l: "length (encode_entry k (encode_value_message v)) \<le> usize_max"
      using length_part [OF e, of ?enc] GMap.prems(3)
        length_len_field [of "encode_entry k (encode_value_message v)" VALUE_FIELD_MAP_ENTRY] by simp
    then have "length (encode_value_message v) \<le> usize_max"
      using length_len_field [of "encode_value_message v" ENTRY_FIELD_VALUE] by (simp add: encode_entry_def)
    then have "decode_value C (encode_value_message v) (sat_add depth 2) = Inr v"
      using GMap.IH [OF e, of v] GMap.prems(1) encoded_value_lenD(3) [OF GMap.prems(2) refl e] e
      by (auto simp: list_all_iff)
    then show ?thesis
      using GMap.prems(1) e l by (intro entry_roundtrip) (auto simp: list_all_iff)
  qed
  then show ?case
    using GMap.prems(1) by (intro decode_valueI [OF GMap.prems(2)] value_map_roundtrip GMap.prems(3)) auto
qed (rule decode_valueI, assumption, rule value_scalar_loop; simp)+

text \<open>C13. A property value that passes the limits of stored values is written to the log in a form that
  recovery decodes to the very same value, however it nests: no nesting that the limits allow is
  refused by the depth limit of the decoder, lists and maps keep their elements, and empty ones are
  not taken for NULL.\<close>

theorem value_message_roundtrip:
  assumes "value_ok C v" "validate_property_value v = Inr ()" "length (encode_value_message v) \<le> usize_max"
  shows "decode_value C (encode_value_message v) 1 = Inr v"
proof -
  obtain n where "encoded_value_len v 1 = Inr n"
    using assms(2) by (auto simp: validate_property_value_def map_sum_def split: sum.splits)
  then show ?thesis using assms by (intro value_roundtrip)
qed

definition demo_chrono :: chrono where
  "demo_chrono = \<lparr> day_in_range = (\<lambda>d. \<bar>d\<bar> < 95000000), time_in_range = (\<lambda>s f. s < 86400 \<and> f < 1000000000),
     offset_in_range = (\<lambda>offset. \<bar>offset\<bar> < 86400), local_in_range = (\<lambda>_ _. True),
     delta_in_range = (\<lambda>s n. \<bar>s\<bar> < 9000000000000000) \<rparr>"

definition demo_value :: gvalue where
  "demo_value = GMap [([97], GList [GInt (- 3), GList [], GString [104, 105]]), ([98], GDate (- 5)), ([99], GMap [])]"

theorem value_message_roundtrip_witness:
  "decode_value demo_chrono (encode_value_message demo_value) 1 = Inr demo_value \<and>
   value_ok demo_chrono demo_value \<and> validate_property_value demo_value = Inr ()"
proof -
  have ok: "value_ok demo_chrono demo_value"
    by (simp add: demo_value_def demo_chrono_def date_ok_def lex_cmp_lin cmp_lin_def)
  have lim: "validate_property_value demo_value = Inr ()"
    by (simp add: demo_value_def validate_property_value_def encoded_value_len.simps u32_len_def MAX_VALUE_DEPTH_def
        sat_add_def usize_max_def)
  have len: "length (encode_value_message demo_value) \<le> 100"
    by (simp add: demo_value_def encode_entry_def encode_string_field_def encode_len_field_def encode_varint_field_def
        zigzag_encode_i64_def encode_tag_def encode_varint_u64.simps Let_def wire_types value_fields
        ENTRY_FIELD_KEY_def ENTRY_FIELD_VALUE_def)
  show ?thesis
    using value_message_roundtrip [OF ok lim] len ok lim by (simp add: usize_max_def)
qed

end
