(* ===== verification/Decimal_Text.thy ===== *)
theory Decimal_Text
  imports Decimal_Laws
begin

text \<open>
  The text form of decimals (\<open>Display\<close> and \<open>FromStr\<close> of \<open>crates/core/src/decimal.rs\<close>). A text is
  the list of its bytes; \<open>str::parse::<i16>\<close> is the parser of the standard library. What is printed
  is read back to the very same coefficient and scale.
\<close>

section \<open>Printing\<close>

definition digit_byte :: "nat \<Rightarrow> u8" where
  "digit_byte d = of_nat (48 + d)"

definition print_nat :: "nat \<Rightarrow> bytes" where
  "print_nat n = (if n = 0 then [48] else map digit_byte (digits_loop n []))"

definition print_padded :: "nat \<Rightarrow> nat \<Rightarrow> bytes" where
  "print_padded width n =
     (let ds = map digit_byte (digits_loop n []) in replicate (width - length ds) 48 @ ds)"

definition decimal_fmt :: "decimal \<Rightarrow> bytes" where
  "decimal_fmt d =
     (let c = coefficient d;
          sign = if c < 0 then [45] else [];
          magnitude = nat \<bar>c\<bar>
      in if dscale d = 0 then sign @ print_nat magnitude
         else let divisor = 10 ^ dscale d
              in sign @ print_nat (magnitude div divisor) @ [46] @ print_padded (dscale d) (magnitude mod divisor))"

section \<open>Parsing\<close>

definition is_digit :: "u8 \<Rightarrow> bool" where
  "is_digit b \<longleftrightarrow> 48 \<le> b \<and> b \<le> 57"

definition digit_of :: "u8 \<Rightarrow> nat" where
  "digit_of b = unat b - 48"

definition parse_i16 :: "bytes \<Rightarrow> int option" where
  "parse_i16 text =
     (let (neg, ds) = (case text of
            [] \<Rightarrow> (False, [])
          | b # r \<Rightarrow> if b = 45 then (True, r) else if b = 43 then (False, r) else (False, text));
          v = int (digits_val (map digit_of ds));
          v = if neg then - v else v
      in if ds = [] \<or> \<not> list_all is_digit ds then None
         else if - (2 ^ 15) \<le> v \<and> v < 2 ^ 15 then Some v else None)"

text \<open>The loop over the mantissa: digits so far, digits after the point, point seen.\<close>

fun mantissa_loop :: "bytes \<Rightarrow> nat list \<Rightarrow> int \<Rightarrow> bool \<Rightarrow> decimal_error + nat list \<times> int" where
  "mantissa_loop [] ds fraction point = Inr (ds, fraction)"
| "mantissa_loop (b # bs) ds fraction point =
     (if b = 46 \<and> \<not> point then mantissa_loop bs ds fraction True
      else if is_digit b then mantissa_loop bs (ds @ [digit_of b]) (fraction + of_bool point) point
      else Inl InvalidLiteral)"

text \<open>The digits \<open>[..count]\<close> and the scale while trailing zeros are dropped.\<close>

function trim_loop :: "nat \<Rightarrow> nat list \<Rightarrow> int \<Rightarrow> nat list \<times> int" where
  "trim_loop first ds scale =
     (if 0 < scale \<and> (38 < length ds - first \<or> 38 < scale) \<and> ds \<noteq> [] \<and> last ds = 0
      then trim_loop first (butlast ds) (scale - 1) else (ds, scale))"
  by auto
termination
  by (relation "measure (\<lambda>(first, ds, scale). length ds)") auto

declare trim_loop.simps [simp del]

definition split_exponent :: "bytes \<Rightarrow> decimal_error + bytes \<times> int" where
  "split_exponent body =
     (let mantissa = takeWhile (\<lambda>b. b \<noteq> 101 \<and> b \<noteq> 69) body in
      if mantissa = body then Inr (body, 0)
      else case parse_i16 (drop (length mantissa + 1) body) of
             None \<Rightarrow> Inl InvalidLiteral
           | Some e \<Rightarrow> if 1024 < \<bar>e\<bar> then Inl DecimalOverflow else Inr (mantissa, e))"

definition decimal_of_digits :: "bool \<Rightarrow> nat list \<Rightarrow> int \<Rightarrow> decimal_error + decimal" where
  "decimal_of_digits negative ds scale =
     (let first = length (takeWhile (\<lambda>d. d = 0) ds) in
      if first = length ds then decimal_new 0 (nat (max 0 (min 38 scale)))
      else case trim_loop first ds scale of
        (ds', scale') \<Rightarrow>
          if 38 < length ds' - first \<or> 38 < scale' \<or> 38 < int (length ds' - first) - min scale' 0
          then Inl DecimalOverflow
          else let c = foldl (\<lambda>c d. c * 10 + int d) 0 (drop first ds');
                   c = if scale' < 0 then c * 10 ^ nat (- scale') else c
               in decimal_new (if negative then - c else c) (nat (max 0 scale')))"

definition decimal_from_str :: "bytes \<Rightarrow> decimal_error + decimal" where
  "decimal_from_str text =
     (if text = [] \<or> max_literal_bytes < length text then Inl InvalidLiteral
      else let (negative, body) =
             (if hd text = 45 then (True, tl text) else if hd text = 43 then (False, tl text)
              else (False, text))
           in case split_exponent body of
                Inl e \<Rightarrow> Inl e
              | Inr (mantissa, exponent) \<Rightarrow>
                  (case mantissa_loop mantissa [] 0 False of
                     Inl e \<Rightarrow> Inl e
                   | Inr (ds, fraction) \<Rightarrow>
                       if ds = [] then Inl InvalidLiteral
                       else decimal_of_digits negative ds (fraction - exponent)))"

section \<open>What is printed is read back\<close>

lemma digit_byte:
  "d \<le> 9 \<Longrightarrow> is_digit (digit_byte d)" "d \<le> 9 \<Longrightarrow> digit_of (digit_byte d) = d"
  "d \<le> 9 \<Longrightarrow> digit_byte d \<notin> {43, 45, 46, 69, 101}"
proof -
  assume d: "d \<le> 9"
  then have u: "unat (digit_byte d) = 48 + d" by (simp add: digit_byte_def unat_of_nat del: of_nat_add)
  show "is_digit (digit_byte d)" "digit_of (digit_byte d) = d"
    using d u by (simp_all add: is_digit_def digit_of_def word_le_nat_alt)
  show "digit_byte d \<notin> {43, 45, 46, 69, 101}"
    using d u by (auto simp: word_unat_eq_iff)
qed

lemma mantissa_loop_digits:
  "\<forall>d \<in> set xs. d \<le> 9 \<Longrightarrow>
   mantissa_loop (map digit_byte xs @ bs) ds f p =
     mantissa_loop bs (ds @ xs) (f + of_bool p * int (length xs)) p"
proof (induction xs arbitrary: ds f)
  case (Cons x xs)
  then show ?case using digit_byte [of x] by (simp add: algebra_simps)
qed simp

lemma trim_loop_done: "length ds - first \<le> 38 \<Longrightarrow> scale \<le> 38 \<Longrightarrow> trim_loop first ds scale = (ds, scale)"
  by (subst trim_loop.simps) auto

lemma digits_val_drop_zeros: "digits_val (drop (length (takeWhile (\<lambda>d. d = 0) ds)) ds) = digits_val ds"
  by (induction ds) auto

lemma decimal_of_digits_value:
  assumes "\<forall>d \<in> set ds. d \<le> 9" "digits_val ds < 10 ^ 38" "s \<le> 38"
  shows "decimal_of_digits negative ds (int s) =
    Inr \<lparr>coefficient = (if negative then - 1 else 1) * int (digits_val ds), dscale = s\<rparr>"
proof -
  define first where "first = length (takeWhile (\<lambda>d. d = 0) ds)"
  show ?thesis
  proof (cases "first = length ds")
    case True
    then have "digits_val ds = 0"
      using digits_val_drop_zeros [of ds] by (simp add: first_def)
    with True assms(3) show ?thesis
      by (simp add: decimal_of_digits_def first_def [symmetric] decimal_new_def max_coefficient_def)
  next
    case False
    have dw: "drop first ds = dropWhile (\<lambda>d. d = 0) ds"
      by (simp add: first_def dropWhile_eq_drop)
    have ne: "drop first ds \<noteq> []"
      using False length_takeWhile_le [of "\<lambda>d. d = 0" ds] by (simp add: first_def)
    then have hd: "hd (drop first ds) \<noteq> 0"
      unfolding dw by (rule hd_dropWhile)
    have "10 ^ (length (drop first ds) - 1) \<le> digits_val (drop first ds)"
      by (rule digits_lower [OF ne hd])
    then have "(10 :: nat) ^ (length ds - first - 1) < 10 ^ 38"
      using assms(2) digits_val_drop_zeros [of ds] by (simp add: first_def)
    then have "length ds - first - 1 < 38" by (rule power_less_imp_less_exp [rotated]) simp
    then have len: "length ds - first \<le> 38" by simp
    have fold: "foldl (\<lambda>c d. c * 10 + int d) (int a) xs = int (foldl (\<lambda>c d. c * 10 + d) a xs)" for a xs
    proof (induction xs arbitrary: a)
      case (Cons x xs)
      then show ?case using Cons.IH [of "a * 10 + x"] by simp
    qed simp
    have c: "foldl (\<lambda>c d. c * 10 + int d) 0 (drop first ds) = int (digits_val ds)"
      using fold [of 0 "drop first ds"] digits_val_drop_zeros [of ds] by (simp add: digits_val_def first_def)
    have "decimal_of_digits negative ds (int s) =
        decimal_new (if negative then - int (digits_val ds) else int (digits_val ds)) s"
      using False len assms(3) trim_loop_done [OF len, of "int s"]
      by (simp add: decimal_of_digits_def first_def [symmetric] Let_def c)
    then show ?thesis using assms(2,3) by (simp add: decimal_new_def max_coefficient_def)
  qed
qed

lemma decimal_from_str_digits:
  assumes "\<forall>d \<in> set (xs @ ys). d \<le> 9" "xs \<noteq> []" "length (xs @ ys) \<le> 250" "length ys = s" "s \<le> 38"
    and "digits_val (xs @ ys) < 10 ^ 38"
  shows "decimal_from_str ((if negative then [45] else []) @ map digit_byte xs @
      (if s = 0 then [] else 46 # map digit_byte ys)) =
    Inr \<lparr>coefficient = (if negative then - 1 else 1) * int (digits_val (xs @ ys)), dscale = s\<rparr>"
proof -
  let ?body = "map digit_byte xs @ (if s = 0 then [] else 46 # map digit_byte ys)"
  let ?text = "(if negative then [45] else []) @ ?body"
  obtain x xs' where xs: "xs = x # xs'" using assms(2) by (cases xs) auto
  have x: "digit_byte x \<noteq> 45" "digit_byte x \<noteq> 43" using digit_byte(3) [of x] assms(1) xs by auto
  have split: "(if hd ?text = 45 then (True, tl ?text) else if hd ?text = 43 then (False, tl ?text)
      else (False, ?text)) = (negative, ?body)"
    using x by (simp add: xs)
  have "b \<noteq> 101 \<and> b \<noteq> 69" if "b \<in> set ?body" for b
    using that digit_byte(3) assms(1) by (auto split: if_splits)
  then have "takeWhile (\<lambda>b. b \<noteq> 101 \<and> b \<noteq> 69) ?body = ?body" by (simp add: takeWhile_eq_all_conv)
  then have e: "split_exponent ?body = Inr (?body, 0)" by (simp only: split_exponent_def Let_def refl if_True)
  have m: "mantissa_loop ?body [] 0 False = Inr (xs @ ys, int s)"
    using assms(1,4) mantissa_loop_digits [of xs "if s = 0 then [] else 46 # map digit_byte ys" "[]" 0 False]
      mantissa_loop_digits [of ys "[]" xs 0 True]
    by (auto simp: is_digit_def)
  have len: "\<not> (?text = [] \<or> max_literal_bytes < length ?text)" "xs @ ys \<noteq> []"
    using assms(3,4) by (auto simp: xs max_literal_bytes_def)
  have "decimal_from_str ?text = decimal_of_digits negative (xs @ ys) (int s)"
    unfolding decimal_from_str_def split by (simp only: len if_False Let_def prod.case e sum.case m diff_0_right)
  with decimal_of_digits_value [OF assms(1,6,5)] show ?thesis by simp
qed

text \<open>What is printed for the integer and the fractional part.\<close>

lemma print_nat_digits:
  assumes "n < 10 ^ 38"
  shows "\<exists>xs. print_nat n = map digit_byte xs \<and> (\<forall>d \<in> set xs. d \<le> 9) \<and> xs \<noteq> [] \<and> length xs \<le> 38 \<and> digits_val xs = n"
proof (cases "n = 0")
  case True
  then show ?thesis by (intro exI [of _ "[0]"]) (simp add: print_nat_def digit_byte_def)
next
  case False
  with digits_of [OF False] digits_count_le [of 38 n] assms show ?thesis
    by (intro exI [of _ "digits_loop n []"]) (simp add: print_nat_def)
qed

lemma print_padded_digits:
  assumes "n < 10 ^ w" "0 < w"
  shows "\<exists>ys. print_padded w n = map digit_byte ys \<and> (\<forall>d \<in> set ys. d \<le> 9) \<and> length ys = w \<and> digits_val ys = n"
proof -
  let ?ds = "digits_loop n []"
  have "length ?ds \<le> w" using digits_count_le assms by simp
  moreover have "digits_val ?ds = n" by (simp add: digits_loop_spec)
  moreover have "\<forall>d \<in> set ?ds. d \<le> 9" using digits_loop_digits [of "[]"] by simp
  ultimately show ?thesis
    by (intro exI [of _ "replicate (w - length ?ds) 0 @ ?ds"])
      (auto simp: print_padded_def digits_val_append digit_byte_def)
qed

text \<open>C36. Every decimal that is printed is read back to the same coefficient and the same scale.\<close>

theorem decimal_text_roundtrip:
  assumes "decimal_ok d"
  shows "decimal_from_str (decimal_fmt d) = Inr d"
proof -
  let ?m = "nat \<bar>coefficient d\<bar>" and ?s = "dscale d" and ?neg = "coefficient d < 0"
  have m: "?m < 10 ^ 38" "?s \<le> 38" using decimal_ok_nat [OF assms] by (simp_all add: magnitude_def)
  have d: "\<lparr>coefficient = (if ?neg then - 1 else 1) * int ?m, dscale = ?s\<rparr> = d"
    by (cases d) simp
  have "?m div 10 ^ ?s \<le> ?m" by (rule div_le_dividend)
  then have "?m div 10 ^ ?s < 10 ^ 38" using m(1) by linarith
  then obtain xs where xs: "print_nat (?m div 10 ^ ?s) = map digit_byte xs" "\<forall>d \<in> set xs. d \<le> 9" "xs \<noteq> []"
    "length xs \<le> 38" "digits_val xs = ?m div 10 ^ ?s"
    using print_nat_digits by blast
  obtain ys where ys: "?s \<noteq> 0 \<Longrightarrow> print_padded ?s (?m mod 10 ^ ?s) = map digit_byte ys"
    "\<forall>d \<in> set ys. d \<le> 9" "length ys = ?s" "digits_val ys = ?m mod 10 ^ ?s"
  proof (cases "?s = 0")
    case True
    then show thesis by (intro that [of "[]"]) simp_all
  next
    case False
    then have "\<exists>ys. print_padded ?s (?m mod 10 ^ ?s) = map digit_byte ys \<and> (\<forall>d \<in> set ys. d \<le> 9) \<and>
        length ys = ?s \<and> digits_val ys = ?m mod 10 ^ ?s"
      by (intro print_padded_digits) simp_all
    then show thesis using that by blast
  qed
  have val: "digits_val (xs @ ys) = ?m"
    using div_mult_mod_eq [of ?m "10 ^ ?s"] by (simp only: digits_val_append xs(5) ys(3,4))
  have fmt: "decimal_fmt d = (if ?neg then [45] else []) @ map digit_byte xs @ (if ?s = 0 then [] else 46 # map digit_byte ys)"
    using xs(1) ys(1) by (cases "?s = 0") (simp_all add: decimal_fmt_def Let_def)
  have "decimal_from_str (decimal_fmt d) =
      Inr \<lparr>coefficient = (if ?neg then - 1 else 1) * int (digits_val (xs @ ys)), dscale = ?s\<rparr>"
    unfolding fmt by (rule decimal_from_str_digits) (use xs ys m val in auto)
  then show ?thesis unfolding val d .
qed

theorem decimal_text_roundtrip_witness:
  "decimal_from_str (decimal_fmt \<lparr>coefficient = - 1250, dscale = 3\<rparr>) = Inr \<lparr>coefficient = - 1250, dscale = 3\<rparr>"
  by (rule decimal_text_roundtrip) (simp add: decimal_ok_def max_coefficient_def)

end
