(* ===== verification/Ordered_Key_Decode.thy ===== *)
theory Ordered_Key_Decode
  imports Ordered_Key Wire
begin

text \<open>
  The decoder of ordered index keys (\<open>crates/storage/src/relational/ordered_key.rs\<close>): the fresh and the
  buffer-reusing decoder, the validator, and the scan for the ends of a key's prefixes. Theorems: the
  decoder inverts the encoder up to the key order, the byte order of encodings is the order of the
  keys, the prefix scan finds exactly the value boundaries, and the two decoders agree.

  \<^item> A decoder takes the encoded key and an offset and returns the value and the next offset.
  \<^item> The model is \<open>OrderedKeyDecoder::new\<close>, which has no allocation context.
  \<^item> \<open>String::from_utf8\<close> is \<open>utf8_valid\<close>.
\<close>

section \<open>The decoder\<close>

definition key_byte :: "string \<Rightarrow> bytes \<Rightarrow> nat \<Rightarrow> ordered_key_error + u8 \<times> nat" where
  "key_byte context encoded offset =
     (if offset < length encoded then Inr (encoded ! offset, offset + 1)
      else Inl (CorruptKey (''truncated '' @ context)))"

definition key_fixed :: "nat \<Rightarrow> string \<Rightarrow> bytes \<Rightarrow> nat \<Rightarrow> ordered_key_error + bytes \<times> nat" where
  "key_fixed n context encoded offset =
     (case checked_add offset n of
        None \<Rightarrow> Inl (CorruptKey (context @ '' length overflow''))
      | Some e \<Rightarrow>
          if e \<le> length encoded then Inr (byte_range offset e encoded, e)
          else Inl (CorruptKey (''truncated '' @ context)))"

definition skip_fixed :: "nat \<Rightarrow> string \<Rightarrow> bytes \<Rightarrow> nat \<Rightarrow> ordered_key_error + nat" where
  "skip_fixed n context encoded offset =
     (case checked_add offset n of
        None \<Rightarrow> Inl (CorruptKey (context @ '' length overflow''))
      | Some e \<Rightarrow>
          if length encoded < e then Inl (CorruptKey (''truncated '' @ context)) else Inr e)"

text \<open>\<open>walk_escaped\<close>, with the emitted bytes collected in \<open>out\<close>.\<close>

function walk_escaped :: "bytes \<Rightarrow> nat \<Rightarrow> bytes \<Rightarrow> ordered_key_error + bytes \<times> nat" where
  "walk_escaped encoded offset out =
     (if length encoded \<le> offset then Inl (CorruptKey ''truncated escaped key value'')
      else if encoded ! offset \<noteq> 0 then walk_escaped encoded (offset + 1) (out @ [encoded ! offset])
      else if length encoded \<le> offset + 1 then Inl (CorruptKey ''truncated escaped key terminator'')
      else if encoded ! (offset + 1) = 0 then Inr (out, offset + 2)
      else if encoded ! (offset + 1) = 255 then walk_escaped encoded (offset + 2) (out @ [0])
      else Inl (CorruptKey ''invalid escaped key tag''))"
  by auto
termination
  by (relation "measure (\<lambda>(e, o', out). length e - o')") auto

declare walk_escaped.simps [simp del]

definition escaped_bytes :: "bytes \<Rightarrow> nat \<Rightarrow> ordered_key_error + bytes \<times> nat" where
  "escaped_bytes encoded offset = walk_escaped encoded offset []"

definition key_decimal :: "bytes \<Rightarrow> nat \<Rightarrow> ordered_key_error + decimal \<times> nat" where
  "key_decimal encoded offset =
     (case key_fixed 40 ''Decimal value'' encoded offset of
        Inl e \<Rightarrow> Inl e
      | Inr (bs, offset') \<Rightarrow>
          (case from_ordered_bytes bs of
             Inl e \<Rightarrow> Inl (CorruptKey ''invalid Decimal encoding'')
           | Inr d \<Rightarrow> Inr (d, offset')))"

definition decode_timestamp_value :: "chrono_range \<Rightarrow> u8 \<Rightarrow> i64 \<Rightarrow> string + rvalue" where
  "decode_timestamp_value R tag micros =
     (case timestamp_checked R (sint micros) of
        Inl e \<Rightarrow> Inl ''TIMESTAMP value is out of range''
      | Inr m \<Rightarrow>
          if tag = 10 then Inr (Timestamp (of_int m))
          else if tag = 11 then Inr (TimestampTz (of_int m))
          else Inl ''invalid TIMESTAMP value tag'')"

definition key_timestamp :: "chrono_range \<Rightarrow> u8 \<Rightarrow> bytes \<Rightarrow> nat \<Rightarrow> ordered_key_error + rvalue \<times> nat" where
  "key_timestamp R tag encoded offset =
     (case key_fixed 8 ''TIMESTAMP value'' encoded offset of
        Inl e \<Rightarrow> Inl e
      | Inr (bs, offset') \<Rightarrow>
          (case decode_timestamp_value R tag (be_u64 bs XOR sign_bit) of
             Inl m \<Rightarrow> Inl (CorruptKey m)
           | Inr v \<Rightarrow> Inr (v, offset')))"


text \<open>The cases of \<open>value\<close>, \<open>value_into\<close> and \<open>skip_value\<close> on the tag byte.\<close>

definition key_value :: "chrono_range \<Rightarrow> bytes \<Rightarrow> nat \<Rightarrow> ordered_key_error + rvalue \<times> nat" where
  "key_value R encoded offset =
     try_then (key_byte ''value tag'' encoded offset) (\<lambda>(tag, offset).
       if tag = 0 then Inr (Null, offset)
       else if tag = 1 then
         try_then (key_byte ''boolean value'' encoded offset) (\<lambda>(b, offset).
           if b = 0 then Inr (Boolean False, offset)
           else if b = 1 then Inr (Boolean True, offset)
           else Inl (CorruptKey ''invalid boolean tag''))
       else if tag = 2 then
         try_then (key_fixed 8 ''BIGINT value'' encoded offset) (\<lambda>(bs, offset).
           Inr (BigInt (be_u64 bs XOR sign_bit), offset))
       else if tag = 3 then
         try_then (key_fixed 8 ''DOUBLE PRECISION value'' encoded offset) (\<lambda>(bs, offset).
           let ordered = be_u64 bs in
           Inr (DoublePrecision (if drop_bit 63 ordered = 1 then ordered XOR sign_bit else NOT ordered), offset))
       else if tag = 4 then
         try_then (escaped_bytes encoded offset) (\<lambda>(bs, offset).
           if utf8_valid bs then Inr (Text bs, offset)
           else Inl (CorruptKey ''TEXT key is not valid UTF-8''))
       else if tag = 5 then
         try_then (escaped_bytes encoded offset) (\<lambda>(bs, offset). Inr (Bytea bs, offset))
       else if tag = 9 then
         try_then (key_decimal encoded offset) (\<lambda>(d, offset). Inr (DecimalV d, offset))
       else if tag = 6 then
         try_then (key_fixed 16 ''UUID value'' encoded offset) (\<lambda>(bs, offset). Inr (Uuid bs, offset))
       else if tag = 10 \<or> tag = 11 then key_timestamp R tag encoded offset
       else Inl (CorruptKey ''invalid value tag''))"

text \<open>\<open>escaped_bytes_into\<close> clears the buffer it is given; \<open>value_into\<close> takes the buffer out of the
  target, which is \<open>Null\<close> while the field is decoded.\<close>

definition escaped_bytes_into :: "bytes \<Rightarrow> nat \<Rightarrow> bytes \<Rightarrow> ordered_key_error + bytes \<times> nat" where
  "escaped_bytes_into encoded offset decoded = (let decoded = [] in walk_escaped encoded offset decoded)"

definition value_into ::
    "chrono_range \<Rightarrow> bytes \<Rightarrow> nat \<Rightarrow> rvalue \<Rightarrow> ordered_key_error + rvalue \<times> nat" where
  "value_into R encoded offset target =
     try_then (key_byte ''value tag'' encoded offset) (\<lambda>(tag, offset).
       if tag = 0 then Inr (Null, offset)
       else if tag = 1 then
         try_then (key_byte ''boolean value'' encoded offset) (\<lambda>(b, offset).
           if b = 0 then Inr (Boolean False, offset)
           else if b = 1 then Inr (Boolean True, offset)
           else Inl (CorruptKey ''invalid boolean tag''))
       else if tag = 2 then
         try_then (key_fixed 8 ''BIGINT value'' encoded offset) (\<lambda>(bs, offset).
           Inr (BigInt (be_u64 bs XOR sign_bit), offset))
       else if tag = 3 then
         try_then (key_fixed 8 ''DOUBLE PRECISION value'' encoded offset) (\<lambda>(bs, offset).
           let ordered = be_u64 bs in
           Inr (DoublePrecision (if drop_bit 63 ordered = 1 then ordered XOR sign_bit else NOT ordered), offset))
       else if tag = 4 then
         let bytes = (case target of Text value \<Rightarrow> value | _ \<Rightarrow> [])
         in try_then (escaped_bytes_into encoded offset bytes) (\<lambda>(bs, offset).
              if utf8_valid bs then Inr (Text bs, offset)
              else Inl (CorruptKey ''TEXT key is not valid UTF-8''))
       else if tag = 5 then
         let bytes = (case target of Bytea value \<Rightarrow> value | _ \<Rightarrow> [])
         in try_then (escaped_bytes_into encoded offset bytes) (\<lambda>(bs, offset). Inr (Bytea bs, offset))
       else if tag = 9 then
         try_then (key_decimal encoded offset) (\<lambda>(d, offset). Inr (DecimalV d, offset))
       else if tag = 10 \<or> tag = 11 then key_timestamp R tag encoded offset
       else if tag = 6 then
         try_then (key_fixed 16 ''UUID value'' encoded offset) (\<lambda>(bs, offset). Inr (Uuid bs, offset))
       else Inl (CorruptKey ''invalid value tag''))"

text \<open>\<open>skip_value\<close> answers whether the value is NULL.\<close>

definition skip_value :: "chrono_range \<Rightarrow> bytes \<Rightarrow> nat \<Rightarrow> ordered_key_error + bool \<times> nat" where
  "skip_value R encoded offset =
     try_then (key_byte ''value tag'' encoded offset) (\<lambda>(tag, offset).
       if tag = 0 then Inr (True, offset)
       else if tag = 1 then
         try_then (key_byte ''boolean value'' encoded offset) (\<lambda>(b, offset).
           if b = 0 \<or> b = 1 then Inr (False, offset) else Inl (CorruptKey ''invalid boolean tag''))
       else if tag = 2 then
         try_then (skip_fixed 8 ''BIGINT value'' encoded offset) (\<lambda>offset. Inr (False, offset))
       else if tag = 3 then
         try_then (skip_fixed 8 ''DOUBLE PRECISION value'' encoded offset) (\<lambda>offset. Inr (False, offset))
       else if tag = 4 \<or> tag = 5 then
         try_then (escaped_bytes encoded offset) (\<lambda>(_, offset). Inr (False, offset))
       else if tag = 6 then
         try_then (skip_fixed 16 ''UUID value'' encoded offset) (\<lambda>offset. Inr (False, offset))
       else if tag = 9 then
         try_then (key_decimal encoded offset) (\<lambda>(_, offset). Inr (False, offset))
       else if tag = 10 \<or> tag = 11 then
         try_then (key_timestamp R tag encoded offset) (\<lambda>(_, offset). Inr (False, offset))
       else Inl (CorruptKey ''invalid value tag''))"

text \<open>Every successful step of a decoder moves forward and stays within the key; the loops below end by it.\<close>

lemma key_byte_Inr: "key_byte c e o' = Inr (b, p) \<longleftrightarrow> o' < length e \<and> b = e ! o' \<and> p = o' + 1"
  by (auto simp: key_byte_def)

lemma key_fixed_Inr:
  "key_fixed n c e o' = Inr (bs, p) \<longleftrightarrow>
     o' + n \<le> usize_max \<and> o' + n \<le> length e \<and> bs = byte_range o' (o' + n) e \<and> p = o' + n"
  by (auto simp: key_fixed_def checked_add_def)

lemma skip_fixed_Inr: "skip_fixed n c e o' = Inr p \<longleftrightarrow> o' + n \<le> usize_max \<and> o' + n \<le> length e \<and> p = o' + n"
  by (auto simp: skip_fixed_def checked_add_def)

lemma walk_escaped_forward: "walk_escaped e o' out = Inr (bs, p) \<Longrightarrow> o' < p \<and> p \<le> length e"
proof (induction e o' out rule: walk_escaped.induct)
  case (1 e o' out)
  from 1 show ?case
    by (simp add: walk_escaped.simps [of e o' out] split: if_splits)
qed

lemma key_decimal_forward: "key_decimal e o' = Inr (d, p) \<Longrightarrow> o' < p \<and> p \<le> length e"
  by (auto simp: key_decimal_def key_fixed_Inr split: sum.splits)

lemma key_timestamp_forward: "key_timestamp R t e o' = Inr (d, p) \<Longrightarrow> o' < p \<and> p \<le> length e"
  by (auto simp: key_timestamp_def key_fixed_Inr split: sum.splits)

lemmas decoder_steps = try_then_Inr_iff key_byte_Inr key_fixed_Inr skip_fixed_Inr Let_def

lemma key_value_forward: "key_value R e o' = Inr (v, p) \<Longrightarrow> o' < p \<and> p \<le> length e"
  by (auto simp: key_value_def decoder_steps escaped_bytes_def split: if_splits
      dest: walk_escaped_forward key_decimal_forward key_timestamp_forward)

lemma skip_value_forward: "skip_value R e o' = Inr (v, p) \<Longrightarrow> o' < p \<and> p \<le> length e"
  by (auto simp: skip_value_def decoder_steps escaped_bytes_def split: if_splits
      dest: walk_escaped_forward key_decimal_forward key_timestamp_forward)

lemma value_into_eq: "value_into R e o' target = key_value R e o'"
  by (cases "key_byte ''value tag'' e o'")
    (auto simp: value_into_def key_value_def escaped_bytes_def escaped_bytes_into_def Let_def)

definition count_value :: "nat \<Rightarrow> ordered_key_error + nat" where
  "count_value n =
     (case checked_add n 1 of None \<Rightarrow> Inl (CorruptKey ''value count overflow'') | Some n' \<Rightarrow> Inr n')"

function validate_loop :: "chrono_range \<Rightarrow> bytes \<Rightarrow> nat \<Rightarrow> nat \<Rightarrow> ordered_key_error + nat" where
  "validate_loop R encoded offset values =
     (if offset = length encoded then Inr values
      else case skip_value R encoded offset of
             Inl e \<Rightarrow> Inl e
           | Inr (_, offset') \<Rightarrow>
               (case count_value values of
                  Inl e \<Rightarrow> Inl e
                | Inr values' \<Rightarrow> validate_loop R encoded offset' values'))"
  by auto
termination
  by (relation "measure (\<lambda>(R, e, o', n). length e - o')") (auto dest: skip_value_forward)

definition validate_ordered_relational_key :: "chrono_range \<Rightarrow> bytes \<Rightarrow> ordered_key_error + unit" where
  "validate_ordered_relational_key R encoded =
     try_then (validate_loop R encoded 0 0) (\<lambda>values.
       if values = 0 then Inl (CorruptKey ''key contains no values'') else Inr ())"

function prefix_ends_loop ::
    "chrono_range \<Rightarrow> bytes \<Rightarrow> nat \<Rightarrow> bool \<Rightarrow> nat \<Rightarrow> nat list \<Rightarrow> ordered_key_error + nat \<times> nat list" where
  "prefix_ends_loop R encoded offset saw_null leading ends =
     (if offset = length encoded then Inr (leading, ends)
      else case skip_value R encoded offset of
             Inl e \<Rightarrow> Inl e
           | Inr (null, offset') \<Rightarrow>
               let saw_null' = saw_null \<or> null
               in (case (if saw_null' then Inr leading else count_value leading) of
                     Inl e \<Rightarrow> Inl e
                   | Inr leading' \<Rightarrow> prefix_ends_loop R encoded offset' saw_null' leading' (ends @ [offset'])))"
  by auto
termination
  by (relation "measure (\<lambda>(R, e, o', _). length e - o')") (auto dest: skip_value_forward)

text \<open>The result is the count and the contents of \<open>prefix_ends\<close>, which is cleared first.\<close>

definition ordered_relational_key_prefix_ends :: "chrono_range \<Rightarrow> bytes \<Rightarrow> ordered_key_error + nat \<times> nat list" where
  "ordered_relational_key_prefix_ends R encoded =
     try_then (prefix_ends_loop R encoded 0 False 0 []) (\<lambda>(leading, ends).
       if ends = [] then Inl (CorruptKey ''key contains no values'') else Inr (leading, ends))"

function decode_into_loop ::
    "chrono_range \<Rightarrow> bytes \<Rightarrow> nat \<Rightarrow> nat \<Rightarrow> rkey \<Rightarrow> ordered_key_error + nat \<times> rkey" where
  "decode_into_loop R encoded offset value_count key =
     (if offset = length encoded then Inr (value_count, key)
      else case (if value_count < length key then value_into R encoded offset (key ! value_count)
                 else key_value R encoded offset) of
             Inl e \<Rightarrow> Inl e
           | Inr (v, offset') \<Rightarrow>
               let key' = (if value_count < length key then key[value_count := v] else key @ [v])
               in (case count_value value_count of
                     Inl e \<Rightarrow> Inl e
                   | Inr value_count' \<Rightarrow> decode_into_loop R encoded offset' value_count' key'))"
  by auto
termination
  by (relation "measure (\<lambda>(R, e, o', _). length e - o')")
    (auto simp: value_into_eq dest: key_value_forward split: if_splits)

definition decode_ordered_relational_key_into ::
    "chrono_range \<Rightarrow> bytes \<Rightarrow> rkey \<Rightarrow> ordered_key_error + rkey" where
  "decode_ordered_relational_key_into R encoded key =
     try_then (decode_into_loop R encoded 0 0 key) (\<lambda>(value_count, key).
       if value_count = 0 then Inl (CorruptKey ''key contains no values'')
       else Inr (take value_count key))"

definition decode_ordered_relational_key :: "chrono_range \<Rightarrow> bytes \<Rightarrow> ordered_key_error + rkey" where
  "decode_ordered_relational_key R encoded = decode_ordered_relational_key_into R encoded []"

declare validate_loop.simps [simp del] prefix_ends_loop.simps [simp del] decode_into_loop.simps [simp del]

section \<open>Order-preserving integers\<close>

lemma bit_sign_bit [simp]: "bit sign_bit n \<longleftrightarrow> n = 63"
  unfolding sign_bit_def bit_push_bit_iff by (auto simp: bit_1_iff)

lemma uint_xor_sign: "uint (v XOR sign_bit) = sint v + 2 ^ 63"
proof -
  have "uint (v XOR sign_bit) = flip_bit 63 (uint v)"
    by (simp add: unsigned_xor_eq flip_bit_eq_xor sign_bit_def unsigned_push_bit_eq)
  also have "\<dots> = (if bit (uint v) 63 then uint v - 2 ^ 63 else uint v + 2 ^ 63)"
    by (simp add: flip_bit_eq_if set_bit_eq unset_bit_eq)
  also have "\<dots> = sint v + 2 ^ 63"
    using unsigned_less [of v, where ?'a = int]
    by (simp add: sint_uint signed_take_bit_eq_take_bit_minus take_bit_int_eq_self)
  finally show ?thesis .
qed

lemma cmp_xor_sign: "cmp_lin (a XOR sign_bit) (b XOR sign_bit) = cmp_lin (sint a) (sint b)"
  by (simp add: cmp_lin_uint [symmetric] uint_xor_sign) (simp add: cmp_lin_def)

lemma top_bit_clear: "drop_bit 63 v = 0 \<longleftrightarrow> \<not> bit v 63" for v :: u64
proof
  assume "drop_bit 63 v = 0"
  then have "\<not> bit (drop_bit 63 v) 0" by simp
  then show "\<not> bit v 63" by (simp add: bit_drop_bit_eq)
next
  assume "\<not> bit v 63"
  then have "\<not> bit v (63 + n)" for n by (cases n) (auto dest: bit_imp_le_length)
  then show "drop_bit 63 v = 0" by (simp add: bit_eq_iff bit_drop_bit_eq)
qed

lemma drop_top_bit: "drop_bit 63 v = 1 \<longleftrightarrow> bit v 63" for v :: u64
proof
  assume "drop_bit 63 v = 1"
  then have "bit (drop_bit 63 v) 0" by simp
  then show "bit v 63" by (simp add: bit_drop_bit_eq)
next
  assume "bit v 63"
  then have "bit v (63 + n) \<longleftrightarrow> n = 0" for n by (cases n) (auto dest: bit_imp_le_length)
  then show "drop_bit 63 v = 1" by (simp add: bit_eq_iff bit_drop_bit_eq bit_1_iff)
qed

lemma ordered_f64_total: "ordered_f64 bits = ordered_i64 (total_bits bits)"
proof -
  have "NOT bits = (bits XOR mask 63) XOR sign_bit" if "bit bits 63"
    by (rule bit_word_eqI) (use that in \<open>auto simp: bit_not_iff bit_xor_iff bit_mask_iff\<close>)
  then show ?thesis by (simp add: ordered_f64_def ordered_i64_def total_bits_def top_bit_clear)
qed

lemma ordered_f64_decode:
  "(let o' = be_u64 (ordered_f64 bits) in if drop_bit 63 o' = 1 then o' XOR sign_bit else NOT o') = bits"
  by (simp add: ordered_f64_def Let_def top_bit_clear drop_top_bit bit_xor_iff bit_not_iff xor.assoc)

lemma ordered_i64_decode: "be_u64 (ordered_i64 v) XOR sign_bit = v"
  by (simp add: ordered_i64_def xor.assoc)

lemma length_ordered [simp]: "length (ordered_i64 v) = 8" "length (ordered_f64 v) = 8"
  by (simp_all add: ordered_i64_def ordered_f64_def)

section \<open>Byte order is key order\<close>

text \<open>The values that an index key may hold: what the table layer admits (a decimal within its bounds,
  valid UTF-8, sixteen bytes of a UUID, a timestamp in range) and the encoder supports.\<close>

fun key_value_ok :: "chrono_range \<Rightarrow> rvalue \<Rightarrow> bool" where
  "key_value_ok R (DecimalV d) \<longleftrightarrow> decimal_ok d"
| "key_value_ok R (Text t) \<longleftrightarrow> utf8_valid t"
| "key_value_ok R (Uuid u) \<longleftrightarrow> length u = 16"
| "key_value_ok R (Timestamp v) \<longleftrightarrow> timestamp_in_range R (sint v)"
| "key_value_ok R (TimestampTz v) \<longleftrightarrow> timestamp_in_range R (sint v)"
| "key_value_ok R (VectorV v) \<longleftrightarrow> False"
| "key_value_ok R (Overflow r) \<longleftrightarrow> False"
| "key_value_ok R v \<longleftrightarrow> True"

lemma value_bytes_ok: "key_value_ok R v \<Longrightarrow> \<exists>bs. value_bytes v = Inr (of_nat (kind_rank v) # bs)"
  by (cases v) simp_all

lemma cmp_zero_byte: "b \<noteq> 0 \<Longrightarrow> cmp_lin 0 b = Less" "b \<noteq> 0 \<Longrightarrow> cmp_lin b 0 = Greater" for b :: u8
  by (auto simp: cmp_lin_def word_neq_0_conv)

lemma escape_order:
  "lex_cmp cmp_lin (escape a @ [0, 0] @ r) (escape b @ [0, 0] @ r') =
     ord_then (lex_cmp cmp_lin a b) (lex_cmp cmp_lin r r')"
proof (induction a arbitrary: b)
  case Nil
  then show ?case by (cases b) (simp_all add: cmp_zero_byte lin_ord.cmp_refl)
next
  case (Cons x a)
  then show ?case by (cases b) (simp_all add: cmp_zero_byte lin_ord.cmp_refl ord_then_assoc)
qed

lemma fixed_order:
  "length xs = length ys \<Longrightarrow> lex_cmp cmp_lin (t # xs @ r) (t # ys @ r') =
     ord_then (lex_cmp cmp_lin xs ys) (lex_cmp cmp_lin r r')"
  by (simp add: lex_cmp_append_decided lin_ord.cmp_refl)

lemma ordered_i64_order: "lex_cmp cmp_lin (ordered_i64 a) (ordered_i64 b) = cmp_lin (sint a) (sint b)"
  by (simp add: ordered_i64_def lex_cmp_u64_be cmp_xor_sign)

lemma tag_order:
  assumes "kind_rank v \<noteq> kind_rank v'"
  shows "lex_cmp cmp_lin ((of_nat (kind_rank v) :: u8) # r) (of_nat (kind_rank v') # r') =
    cmp_lin (kind_rank v) (kind_rank v')"
proof -
  have "kind_rank u < 256" for u by (cases u) simp_all
  then have "cmp_lin (of_nat (kind_rank v) :: u8) (of_nat (kind_rank v')) = cmp_lin (kind_rank v) (kind_rank v')"
    by (simp add: cmp_lin_def word_less_nat_alt unat_of_nat word_unat_eq_iff)
  with assms show ?thesis by (auto simp: cmp_lin_def split: if_splits)
qed

lemma payload_order:
  assumes ok: "key_value_ok R v" "key_value_ok R v'" and rank: "kind_rank v = kind_rank v'"
    and bs: "value_bytes v = Inr x" "value_bytes v' = Inr y"
  shows "lex_cmp cmp_lin (x @ r) (y @ r') = ord_then (payload_cmp v v') (lex_cmp cmp_lin r r')"
proof (cases v)
  case (DecimalV d)
  with rank obtain d' where d': "v' = DecimalV d'" by (cases v') simp_all
  with DecimalV ok fixed_order [of "to_ordered_bytes d" "to_ordered_bytes d'" 9 r r'] bs
  show ?thesis by (auto simp: payload_cmp_def decimal_cmp_def length_to_ordered_bytes)
next
  case (Uuid u)
  with rank obtain u' where u': "v' = Uuid u'" by (cases v') simp_all
  with Uuid ok fixed_order [of u u' 6 r r'] bs
  show ?thesis by (auto simp: payload_cmp_def)
next
  case (Text t)
  with rank obtain t' where t': "v' = Text t'" by (cases v') simp_all
  with Text ok escape_order [of t r t' r'] bs
  show ?thesis by (auto simp: payload_cmp_def cmp_simps lin_ord.cmp_refl)
next
  case (Bytea t)
  with rank obtain t' where t': "v' = Bytea t'" by (cases v') simp_all
  with Bytea ok escape_order [of t r t' r'] bs
  show ?thesis by (auto simp: payload_cmp_def cmp_simps lin_ord.cmp_refl)
next
  case (Boolean b)
  with rank obtain b' where "v' = Boolean b'" by (cases v') simp_all
  with Boolean bs show ?thesis
    by (cases b; cases b') (auto simp: payload_cmp_def cmp_lin_def)
next
  case Null
  with rank have "v' = Null" by (cases v') simp_all
  with Null bs show ?thesis by (auto simp: payload_cmp_def lin_ord.cmp_refl)
next
  case (BigInt i)
  with rank obtain i' where "v' = BigInt i'" by (cases v') simp_all
  with BigInt bs show ?thesis
    by (auto simp: payload_cmp_def fixed_order ordered_i64_order simp del: lex_cmp.simps)
next
  case (DoublePrecision i)
  with rank obtain i' where "v' = DoublePrecision i'" by (cases v') simp_all
  with DoublePrecision bs show ?thesis
    by (auto simp: payload_cmp_def fixed_order ordered_f64_total ordered_i64_order f64_total_cmp_def
        simp del: lex_cmp.simps)
next
  case (Timestamp i)
  with rank obtain i' where "v' = Timestamp i'" by (cases v') simp_all
  with Timestamp bs show ?thesis
    by (auto simp: payload_cmp_def fixed_order ordered_i64_order simp del: lex_cmp.simps)
next
  case (TimestampTz i)
  with rank obtain i' where "v' = TimestampTz i'" by (cases v') simp_all
  with TimestampTz bs show ?thesis
    by (auto simp: payload_cmp_def fixed_order ordered_i64_order simp del: lex_cmp.simps)
qed (use ok in simp_all)

lemma value_order:
  assumes ok: "key_value_ok R v" "key_value_ok R v'" and "value_bytes v = Inr x" "value_bytes v' = Inr y"
  shows "lex_cmp cmp_lin (x @ r) (y @ r') = ord_then (value_cmp v v') (lex_cmp cmp_lin r r')"
proof (cases "kind_rank v = kind_rank v'")
  case False
  obtain bs bs' where "value_bytes v = Inr (of_nat (kind_rank v) # bs)" "value_bytes v' = Inr (of_nat (kind_rank v') # bs')"
    using value_bytes_ok ok by blast
  with assms have x: "x = of_nat (kind_rank v) # bs" "y = of_nat (kind_rank v') # bs'" by simp_all
  have "ord_then (ord_then (cmp_lin (kind_rank v) (kind_rank v')) a) b = cmp_lin (kind_rank v) (kind_rank v')" for a b
    using False by (simp add: cmp_lin_def)
  with tag_order [OF False, of "bs @ r" "bs' @ r'"] show ?thesis by (simp add: x value_cmp_def)
next
  case True
  with payload_order [OF ok True assms(3,4)] show ?thesis by (simp add: value_cmp_def lin_ord.cmp_refl)
qed

lemma values_order:
  "list_all (key_value_ok R) a \<Longrightarrow> list_all (key_value_ok R) b \<Longrightarrow>
   values_bytes a = Inr x \<Longrightarrow> values_bytes b = Inr y \<Longrightarrow> lex_cmp cmp_lin x y = key_cmp a b"
proof (induction a arbitrary: b x y)
  case Nil
  then show ?case
    by (cases b) (auto simp: key_cmp_def try_then_Inr_iff dest!: value_bytes_ok)
next
  case (Cons v a)
  show ?case
  proof (cases b)
    case Nil
    with Cons.prems show ?thesis by (auto simp: key_cmp_def try_then_Inr_iff dest!: value_bytes_ok)
  next
    case b: (Cons v' b')
    with Cons.prems obtain p q p' q' where "value_bytes v = Inr p" "values_bytes a = Inr q" "x = p @ q"
      "value_bytes v' = Inr p'" "values_bytes b' = Inr q'" "y = p' @ q'"
      by (auto simp: try_then_Inr_iff)
    with Cons.IH [of b' q q'] Cons.prems b value_order [of R v v' p p' q q'] show ?thesis
      by (simp add: key_cmp_def)
  qed
qed

text \<open>
  C4. The bytes of encoded keys sort as the keys: for two keys of admissible values, comparing the two
  encodings byte by byte gives exactly the order of the keys, values of different types, NULLs,
  negative numbers, decimals of different scales, texts with zero bytes and keys that are prefixes
  of one another included.
\<close>

theorem key_encoding_preserves_order:
  assumes "list_all (key_value_ok R) a" "list_all (key_value_ok R) b"
    and "encode_ordered_relational_key a = Inr x" "encode_ordered_relational_key b = Inr y"
  shows "lex_cmp cmp_lin x y = key_cmp a b"
proof (rule values_order [OF assms(1,2)])
  show "values_bytes a = Inr x" "values_bytes b = Inr y"
    using assms(3,4) by (auto simp: encode_key_bytes split: if_splits)
qed

lemma le_bytes_numeral:
  "le_bytes (numeral k) x = of_nat (x mod 256) # le_bytes (pred_numeral k) (x div 256)"
  by (subst numeral_eq_Suc) (simp only: le_bytes.simps)

theorem key_encoding_preserves_order_witness:
  "encode_ordered_relational_key [BigInt (- 1), Text [97]] =
     Inr [2, 127, 255, 255, 255, 255, 255, 255, 255, 4, 97, 0, 0] \<and>
   encode_ordered_relational_key [BigInt 0, Null] = Inr [2, 128, 0, 0, 0, 0, 0, 0, 0, 0] \<and>
   key_cmp [BigInt (- 1), Text [97]] [BigInt 0, Null] = Less"
proof -
  have e: "encode_ordered_relational_key [BigInt (- 1), Text [97]] = Inr [2, 127, 255, 255, 255, 255, 255, 255, 255, 4, 97, 0, 0]"
    "encode_ordered_relational_key [BigInt 0, Null] = Inr [2, 128, 0, 0, 0, 0, 0, 0, 0, 0]"
    by (simp_all add: encode_key_bytes ordered_i64_def u64_be_def be_bytes_def sign_bit_def le_bytes_numeral)
  have "key_cmp [BigInt (- 1), Text [97]] [BigInt 0, Null] =
      lex_cmp cmp_lin [2, 127, 255, 255, 255, 255, 255, 255, 255, 4, 97, 0, 0] [2, 128, 0, 0, 0, 0, 0, 0, 0, (0 :: u8)]"
    by (rule key_encoding_preserves_order [OF _ _ e, where R = "\<lparr>min_micros = 0, max_micros = 1\<rparr>", symmetric]) simp_all
  with e show ?thesis by (simp add: cmp_lin_def)
qed

section \<open>Round trip\<close>

lemma nth_middle_simps [simp]:
  "(pre @ x # ys) ! length pre = x" "(pre @ x # y # ys) ! Suc (length pre) = y"
  by (simp_all add: nth_append)

lemma walk_escape:
  "walk_escaped (pre @ escape bs @ [0, 0] @ rest) (length pre) out =
     Inr (out @ bs, length pre + length (escape bs) + 2)"
proof (induction bs arbitrary: pre out)
  case Nil
  then show ?case by (subst walk_escaped.simps) simp
next
  case (Cons b bs)
  show ?case
  proof (cases "b = 0")
    case True
    with Cons.IH [of "pre @ [0, 255]" "out @ [0]"] show ?thesis by (subst walk_escaped.simps) simp
  next
    case False
    with Cons.IH [of "pre @ [b]" "out @ [b]"] show ?thesis by (subst walk_escaped.simps) simp
  qed
qed

text \<open>A decoded value is the encoded one, a decimal up to its scale.\<close>

definition same_value :: "rvalue \<Rightarrow> rvalue \<Rightarrow> bool" where
  "same_value v' v \<longleftrightarrow>
     v' = v \<or> (\<exists>d' d. v' = DecimalV d' \<and> v = DecimalV d \<and> decimal_value d' = decimal_value d)"

lemma byte_range_tail [simp]: "byte_range (Suc (length pre)) (Suc (length pre + length xs)) (pre @ t # xs @ r) = xs"
  using byte_range_append [of "pre @ [t]" xs r] by simp

lemma key_fixed_tail:
  "length xs = n \<Longrightarrow> Suc (length pre) + n + length r \<le> usize_max \<Longrightarrow>
     key_fixed n c (pre @ t # xs @ r) (Suc (length pre)) = Inr (xs, Suc (length pre) + n)"
  by (auto simp: key_fixed_def checked_add_def)

lemma decode_timestamp_ok:
  "timestamp_in_range R (sint v) \<Longrightarrow> decode_timestamp_value R 10 v = Inr (Timestamp v)"
  "timestamp_in_range R (sint v) \<Longrightarrow> decode_timestamp_value R 11 v = Inr (TimestampTz v)"
  by (simp_all add: decode_timestamp_value_def timestamp_checked_def)

lemma key_timestamp_tail:
  assumes "timestamp_in_range R (sint v)" "Suc (length pre) + 8 + length r \<le> usize_max"
  shows "key_timestamp R 10 (pre @ t # ordered_i64 v @ r) (Suc (length pre)) = Inr (Timestamp v, length pre + 9)"
    and "key_timestamp R 11 (pre @ t # ordered_i64 v @ r) (Suc (length pre)) = Inr (TimestampTz v, length pre + 9)"
  using assms
  by (simp_all add: key_timestamp_def key_fixed_tail ordered_i64_decode decode_timestamp_ok)

lemma key_decimal_tail:
  assumes "decimal_ok d" "Suc (length pre) + 40 + length r \<le> usize_max"
  shows "\<exists>d'. key_decimal (pre @ t # to_ordered_bytes d @ r) (Suc (length pre)) = Inr (d', length pre + 41) \<and>
    decimal_ok d' \<and> decimal_value d' = decimal_value d"
proof -
  obtain d' where d': "from_ordered_bytes (to_ordered_bytes d) = Inr d'" "decimal_ok d'" "units38 d' = units38 d"
    using from_ordered_bytes_to [OF assms(1)] by blast
  then have "decimal_value d' = decimal_value d"
    using assms(1) units38_value [of d] units38_value [of d'] by (simp add: decimal_ok_def)
  with d' assms show ?thesis
    by (auto simp: key_decimal_def key_fixed_tail length_to_ordered_bytes)
qed

lemma escaped_bytes_tail:
  "escaped_bytes (pre @ t # escape bs @ 0 # 0 # rest) (Suc (length pre)) =
     Inr (bs, Suc (length pre) + length (escape bs) + 2)"
  using walk_escape [of "pre @ [t]" bs rest "[]"] by (simp add: escaped_bytes_def)

lemma key_value_encode:
  assumes "key_value_ok R v" "value_bytes v = Inr x" "length (pre @ x @ rest) \<le> usize_max"
  shows "\<exists>v'. key_value R (pre @ x @ rest) (length pre) = Inr (v', length pre + length x) \<and>
    same_value v' v \<and> key_value_ok R v'"
proof (cases v)
  case (DecimalV d)
  with assms key_decimal_tail [of d pre rest 9] show ?thesis
    by (auto simp: key_value_def key_byte_def length_to_ordered_bytes same_value_def)
next
  case (DoublePrecision b)
  with assms ordered_f64_decode [of b] show ?thesis
    by (auto simp: key_value_def key_byte_def key_fixed_tail same_value_def Let_def)
qed (use assms in \<open>auto simp: key_value_def key_byte_def key_fixed_tail key_timestamp_tail escaped_bytes_tail
      ordered_i64_decode same_value_def\<close>)

lemma same_value_bytes:
  assumes "same_value v' v" "key_value_ok R v'" "key_value_ok R v"
  shows "value_bytes v' = value_bytes v" "value_cmp v' v = Equal" "v' = Null \<longleftrightarrow> v = Null"
proof -
  have "value_bytes v' = value_bytes v \<and> value_cmp v' v = Equal"
  proof (cases "v' = v")
    case False
    with assms(1) obtain d d' where v: "v' = DecimalV d'" "v = DecimalV d" "decimal_value d' = decimal_value d"
      unfolding same_value_def by blast
    with assms(2,3) have ok: "decimal_ok d" "decimal_ok d'" by simp_all
    with v have "units38 d' = units38 d"
      using units38_value [of d] units38_value [of d'] by (simp add: decimal_ok_def)
    with v ok ordered_bytes_units [of d' d] show ?thesis
      by (simp add: value_cmp_def payload_cmp_def decimal_cmp_def lex_cmp_lin lin_ord.cmp_refl)
  qed (simp add: value_ord.cmp_refl)
  then show "value_bytes v' = value_bytes v" "value_cmp v' v = Equal" by simp_all
  show "v' = Null \<longleftrightarrow> v = Null" using assms(1) by (auto simp: same_value_def)
qed

lemma key_value_skip: "key_value R e o' = Inr (v, p) \<Longrightarrow> skip_value R e o' = Inr (v = Null, p)"
  by (auto simp: key_value_def skip_value_def decoder_steps key_timestamp_def decode_timestamp_value_def
      skip_fixed_def checked_add_def split: if_splits sum.splits)

text \<open>The values read from an offset up to another.\<close>

primrec reads :: "chrono_range \<Rightarrow> bytes \<Rightarrow> nat \<Rightarrow> rvalue list \<Rightarrow> nat \<Rightarrow> bool" where
  "reads R e o' [] p \<longleftrightarrow> o' = p"
| "reads R e o' (v # vs) p \<longleftrightarrow> (\<exists>q. key_value R e o' = Inr (v, q) \<and> reads R e q vs p)"

lemma reads_encode:
  "list_all (key_value_ok R) vs \<Longrightarrow> values_bytes vs = Inr x \<Longrightarrow> length (pre @ x @ rest) \<le> usize_max \<Longrightarrow>
   \<exists>vs'. reads R (pre @ x @ rest) (length pre) vs' (length pre + length x) \<and>
     list_all2 same_value vs' vs \<and> list_all (key_value_ok R) vs'"
proof (induction vs arbitrary: pre x)
  case Nil
  then show ?case by simp
next
  case (Cons v vs)
  then obtain y z where x: "value_bytes v = Inr y" "values_bytes vs = Inr z" "x = y @ z"
    by (auto simp: try_then_Inr_iff)
  with Cons.prems key_value_encode [of R v y pre "z @ rest"] obtain v' where
    v': "key_value R (pre @ y @ z @ rest) (length pre) = Inr (v', length pre + length y)" "same_value v' v" "key_value_ok R v'"
    by auto
  from Cons.IH [of z "pre @ y"] Cons.prems x obtain vs' where
    "reads R (pre @ y @ z @ rest) (length pre + length y) vs' (length pre + length y + length z)"
    "list_all2 same_value vs' vs" "list_all (key_value_ok R) vs'"
    by auto
  with v' x(3) show ?case by (intro exI [of _ "v' # vs'"]) (simp add: add.assoc)
qed

lemma values_bytes_length: "values_bytes vs = Inr x \<Longrightarrow> length vs \<le> length x"
proof (induction vs arbitrary: x)
  case (Cons v vs)
  then obtain y z where "value_bytes v = Inr y" "values_bytes vs = Inr z" "x = y @ z"
    by (auto simp: try_then_Inr_iff)
  moreover from this(1) have "y \<noteq> []" by (cases v) auto
  ultimately show ?case using Cons.IH [of z] by (cases y) auto
qed simp

lemma reads_forward: "reads R e o' vs p \<Longrightarrow> vs \<noteq> [] \<Longrightarrow> o' < p"
proof (induction vs arbitrary: o')
  case (Cons v vs)
  then show ?case by (cases "vs = []") (auto dest: key_value_forward intro: less_trans)
qed simp

lemma decode_into_reads:
  "reads R e o' vs (length e) \<Longrightarrow> c \<le> length key \<Longrightarrow> c + length vs \<le> usize_max \<Longrightarrow>
   decode_into_loop R e o' c key = Inr (c + length vs, take c key @ vs @ drop (c + length vs) key)"
proof (induction vs arbitrary: o' c key)
  case Nil
  then show ?case by (simp add: decode_into_loop.simps)
next
  case (Cons v vs)
  then obtain q where q: "key_value R e o' = Inr (v, q)" "reads R e q vs (length e)" by auto
  have "o' \<noteq> length e" using q(1) key_value_forward by fastforce
  let ?key = "if c < length key then key[c := v] else key @ [v]"
  have len: "c + 1 \<le> length ?key" using Cons.prems(2) by auto
  have "decode_into_loop R e o' c key = decode_into_loop R e q (c + 1) ?key"
    using \<open>o' \<noteq> length e\<close> q(1) Cons.prems(3)
    by (subst decode_into_loop.simps) (simp add: value_into_eq count_value_def checked_add_def Let_def)
  also have "\<dots> = Inr (c + 1 + length vs, take (c + 1) ?key @ vs @ drop (c + 1 + length vs) ?key)"
    using Cons.prems(3) by (intro Cons.IH q(2) len) simp
  also have "take (c + 1) ?key = take c key @ [v]"
    using Cons.prems(2) by (auto simp: take_Suc_conv_app_nth)
  also have "drop (c + 1 + length vs) ?key = drop (c + 1 + length vs) key"
    using Cons.prems(2) by auto
  finally show ?case by simp
qed

lemma decode_into_reuse:
  "c \<le> length key \<Longrightarrow>
   map_sum id (\<lambda>(n, k). (n, take n k)) (decode_into_loop R e o' c key) =
   map_sum id (\<lambda>(n, k). (n, take n k)) (decode_into_loop R e o' c (take c key))"
proof (induction R e o' c key rule: decode_into_loop.induct)
  case (1 R e o' c key)
  show ?case
  proof (cases "o' = length e \<or> (\<exists>err. key_value R e o' = Inl err) \<or> (\<exists>err. count_value c = Inl err)")
    case True
    with 1(2) show ?thesis
      by (auto simp: decode_into_loop.simps [of R e o'] value_into_eq Let_def split: sum.splits)
  next
    case False
    then obtain v q c' where s: "o' \<noteq> length e" "key_value R e o' = Inr (v, q)" "count_value c = Inr c'"
      by (metis sum.exhaust surj_pair)
    then have c': "c' = c + 1" by (auto simp: count_value_def checked_add_def split: if_splits)
    let ?key = "if c < length key then key[c := v] else key @ [v]"
    have "take (c + 1) ?key = take c key @ [v]"
      using 1(2) by (auto simp: take_Suc_conv_app_nth)
    with 1(1) [OF s(1), of "(v, q)" v q ?key c'] 1(2) s c' show ?thesis
      by (simp add: decode_into_loop.simps [of R e o' c] value_into_eq Let_def split: if_splits)
  qed
qed

text \<open>
  C33. Decoding into a key that is being reused gives what decoding into a fresh one gives, for every
  input, corrupt input included, whatever the reused key held: nothing of its values, its text buffers
  or its length shows in the result.
\<close>

theorem key_buffer_reuse:
  "decode_ordered_relational_key_into R encoded key = decode_ordered_relational_key R encoded"
  using decode_into_reuse [of 0 key R encoded 0]
  by (cases "decode_into_loop R encoded 0 0 key"; cases "decode_into_loop R encoded 0 0 []")
    (auto simp: decode_ordered_relational_key_def decode_ordered_relational_key_into_def)

lemma count_value_ok [simp]: "Suc n \<le> usize_max \<Longrightarrow> count_value n = Inr (Suc n)"
  by (simp add: count_value_def checked_add_def)

lemma validate_reads:
  "reads R e o' vs (length e) \<Longrightarrow> n + length vs \<le> usize_max \<Longrightarrow> validate_loop R e o' n = Inr (n + length vs)"
proof (induction vs arbitrary: o' n)
  case Nil
  then show ?case by (simp add: validate_loop.simps)
next
  case (Cons v vs)
  then obtain q where q: "key_value R e o' = Inr (v, q)" "reads R e q vs (length e)" by auto
  then have "o' \<noteq> length e" using key_value_forward by fastforce
  with q Cons show ?case by (subst validate_loop.simps) (simp add: key_value_skip [OF q(1)])
qed

text \<open>
  C12. Decoding inverts encoding: the encoding of a key of admissible values decodes to a key of the same
  length whose values are the encoded ones, decimals with the same number (the encoding does not keep
  the scale); the decoded key compares equal to the original and encodes to the same bytes, and the
  validator accepts them.
\<close>

theorem key_roundtrip:
  assumes "list_all (key_value_ok R) key" "encode_ordered_relational_key key = Inr x" "length x \<le> usize_max"
  shows "\<exists>key'. decode_ordered_relational_key R x = Inr key' \<and> list_all2 same_value key' key \<and>
    key_cmp key' key = Equal \<and> encode_ordered_relational_key key' = Inr x \<and>
    validate_ordered_relational_key R x = Inr ()"
proof -
  from assms(2) have key: "key \<noteq> []" "values_bytes key = Inr x" by (auto simp: encode_key_bytes split: if_splits)
  with reads_encode [OF assms(1) key(2), of "[]" "[]"] assms(3) obtain key' where
    k: "reads R x 0 key' (length x)" "list_all2 same_value key' key" "list_all (key_value_ok R) key'"
    by auto
  have len: "length key' = length key" using k(2) by (rule list_all2_lengthD)
  note le = values_bytes_length [OF key(2)]
  have "decode_into_loop R x 0 0 [] = Inr (length key', key')"
    using decode_into_reads [OF k(1), of 0 "[]"] le assms(3) len by simp
  then have dec: "decode_ordered_relational_key R x = Inr key'"
    using key(1) len by (cases key')
      (simp_all add: decode_ordered_relational_key_def decode_ordered_relational_key_into_def)
  from k(2,3) assms(1) have "values_bytes key' = values_bytes key \<and> key_cmp key' key = Equal"
    by (induction rule: list_all2_induct) (simp_all add: same_value_bytes [of _ _ R] key_cmp_def cong: sum.case_cong)
  moreover have "validate_ordered_relational_key R x = Inr ()"
    using validate_reads [OF k(1), of 0] key(1) len le assms(3)
    by (simp add: validate_ordered_relational_key_def)
  ultimately show ?thesis using dec k(2) key len by (auto simp: encode_key_bytes)
qed

theorem key_roundtrip_witness:
  "\<exists>key'. decode_ordered_relational_key \<lparr>min_micros = 0, max_micros = 9\<rparr> [1, 1, 4, 65, 0, 255, 0, 0, 11, 128, 0, 0, 0, 0, 0, 0, 5] = Inr key' \<and>
     list_all2 same_value key' [Boolean True, Text [65, 0], TimestampTz 5]"
proof -
  have "encode_ordered_relational_key [Boolean True, Text [65, 0], TimestampTz 5] =
      Inr [1, 1, 4, 65, 0, 255, 0, 0, 11, 128, 0, 0, 0, 0, 0, 0, 5]"
    by (simp add: encode_key_bytes ordered_i64_def u64_be_def be_bytes_def sign_bit_def le_bytes_numeral)
  from key_roundtrip [OF _ this, of "\<lparr>min_micros = 0, max_micros = 9\<rparr>"] show ?thesis
    by (auto simp: timestamp_in_range_def usize_max_def)
qed

text \<open>Where the values of an encoding end, from the offset \<open>p\<close> on.\<close>

primrec boundaries :: "nat \<Rightarrow> rvalue list \<Rightarrow> nat list" where
  "boundaries p [] = []"
| "boundaries p (v # vs) =
     (let q = p + length (projr (value_bytes v)) in q # boundaries q vs)"

lemma length_boundaries [simp]: "length (boundaries p vs) = length vs"
  by (induction vs arbitrary: p) (simp_all add: Let_def)

lemma boundaries_take:
  "values_bytes vs = Inr x \<Longrightarrow> i < length vs \<Longrightarrow>
     values_bytes (take (Suc i) vs) = Inr (take (boundaries p vs ! i - p) x) \<and> p \<le> boundaries p vs ! i"
proof (induction vs arbitrary: p x i)
  case (Cons v vs)
  then obtain y z where x: "value_bytes v = Inr y" "values_bytes vs = Inr z" "x = y @ z"
    by (auto simp: try_then_Inr_iff)
  show ?case
  proof (cases i)
    case (Suc k)
    with Cons.IH [OF x(2), of k "p + length y"] Cons.prems x show ?thesis by (auto simp: Let_def)
  qed (use x in \<open>simp add: Let_def\<close>)
qed simp

lemma prefix_ends_encode:
  "list_all (key_value_ok R) vs \<Longrightarrow> values_bytes vs = Inr x \<Longrightarrow> length (pre @ x) \<le> usize_max \<Longrightarrow>
   lead + length vs \<le> usize_max \<Longrightarrow>
   prefix_ends_loop R (pre @ x) (length pre) saw lead ends =
     Inr (lead + (if saw then 0 else length (takeWhile (\<lambda>v. v \<noteq> Null) vs)), ends @ boundaries (length pre) vs)"
proof (induction vs arbitrary: pre x saw lead ends)
  case Nil
  then show ?case by (simp add: prefix_ends_loop.simps)
next
  case (Cons v vs)
  then obtain y z where x: "value_bytes v = Inr y" "values_bytes vs = Inr z" "x = y @ z"
    by (auto simp: try_then_Inr_iff)
  from Cons.prems(1) obtain ys where "y = of_nat (kind_rank v) # ys" using value_bytes_ok [of R v] x(1) by auto
  then have "y \<noteq> []" by simp
  from Cons.prems x key_value_encode [of R v y pre z] obtain v' where
    v': "key_value R (pre @ x) (length pre) = Inr (v', length pre + length y)" "v' = Null \<longleftrightarrow> v = Null"
    using same_value_bytes(3) by auto
  let ?saw = "saw \<or> v = Null" and ?lead = "if saw \<or> v = Null then lead else Suc lead"
  have "prefix_ends_loop R (pre @ x) (length pre) saw lead ends =
      prefix_ends_loop R (pre @ x) (length pre + length y) ?saw ?lead (ends @ [length pre + length y])"
    using key_value_skip [OF v'(1)] v'(2) \<open>y \<noteq> []\<close> Cons.prems(4) x(3)
    by (subst prefix_ends_loop.simps) (simp add: Let_def)
  with Cons.IH [of z "pre @ y" ?lead ?saw "ends @ [length pre + length y]"] Cons.prems x show ?case
    by (simp add: Let_def)
qed

text \<open>
  C31. The prefix scan of an encoded key finds the value boundaries: it returns one end per value, the
  bytes up to the i-th end are the encoding of the key's first i values, and the count it returns is
  the number of values before the first NULL.
\<close>

theorem key_prefix_ends:
  assumes "list_all (key_value_ok R) key" "encode_ordered_relational_key key = Inr x" "length x \<le> usize_max"
  shows "\<exists>ends. ordered_relational_key_prefix_ends R x = Inr (length (takeWhile (\<lambda>v. v \<noteq> Null) key), ends) \<and>
    length ends = length key \<and>
    (\<forall>i < length key. encode_ordered_relational_key (take (Suc i) key) = Inr (take (ends ! i) x))"
proof -
  from assms(2) have key: "key \<noteq> []" "values_bytes key = Inr x" by (auto simp: encode_key_bytes split: if_splits)
  have "prefix_ends_loop R x 0 False 0 [] = Inr (length (takeWhile (\<lambda>v. v \<noteq> Null) key), boundaries 0 key)"
    using prefix_ends_encode [OF assms(1) key(2), of "[]" 0 False "[]"] values_bytes_length [OF key(2)] assms(3) by simp
  moreover have "boundaries 0 key \<noteq> []" using key(1) by (metis length_0_conv length_boundaries)
  moreover have "encode_ordered_relational_key (take (Suc i) key) = Inr (take (boundaries 0 key ! i) x)"
    if "i < length key" for i
    using boundaries_take [OF key(2) that, of 0] key(1) by (simp add: encode_key_bytes)
  ultimately show ?thesis by (simp add: ordered_relational_key_prefix_ends_def)
qed

theorem key_prefix_ends_witness:
  "\<exists>ends. ordered_relational_key_prefix_ends \<lparr>min_micros = 0, max_micros = 9\<rparr> [1, 1, 4, 65, 0, 255, 0, 0, 0, 1, 0] =
       Inr (2, ends) \<and> length ends = 4 \<and>
     encode_ordered_relational_key [Boolean True, Text [65, 0]] = Inr (take (ends ! 1) [1, 1, 4, 65, 0, 255, 0, 0, 0, 1, 0])"
proof -
  have "encode_ordered_relational_key [Boolean True, Text [65, 0], Null, Boolean False] =
      Inr [1, 1, 4, 65, 0, 255, 0, 0, 0, 1, 0]"
    by (simp add: encode_key_bytes)
  from key_prefix_ends [OF _ this, of "\<lparr>min_micros = 0, max_micros = 9\<rparr>"] obtain ends where
    e: "ordered_relational_key_prefix_ends \<lparr>min_micros = 0, max_micros = 9\<rparr> [1, 1, 4, 65, 0, 255, 0, 0, 0, 1, 0] = Inr (2, ends)"
    "length ends = 4"
    "\<forall>i<4. encode_ordered_relational_key (take (Suc i) [Boolean True, Text [65, 0], Null, Boolean False]) =
        Inr (take (ends ! i) [1, 1, 4, 65, 0, 255, 0, 0, 0, 1, 0])"
    by (auto simp: usize_max_def)
  have "(1 :: nat) < 4" by simp
  from e(1,2) e(3) [rule_format, OF this] show ?thesis by auto
qed

end
