(* ===== verification/Cow_Map.thy ===== *)
theory Cow_Map
  imports BTree_Map Prelude
begin

text \<open>
  The segmented copy-on-write map (\<open>CowSegmentedMap\<close> of \<open>crates/storage/src/cow.rs\<close>) with its pages
  (\<open>cow/page.rs\<close>): an ordered map cut into pages of bounded size, each with a cached payload size,
  and a maintained entry count and pressure estimate. Theorems: the map refines a single \<open>BTreeMap\<close>,
  operation by operation; the operations keep counts, caches and page sizes exact; seeks and ranges
  return the intervals of the single map.

  \<^item> \<open>Arc\<close> is modelled by its contract: a value, with the flag \<open>page_shared\<close> for a strong count above
    one. \<open>Arc::make_mut\<close> clones a shared page, and a cloned page has no history lease.
  \<^item> A \<open>OnceLock\<close> is an option. Filling an empty one on a read is not a state change of the model.
  \<^item> \<open>u128\<close> sums are natural numbers; that the subtractions stay in range is part of the invariant.
  \<^item> The allocation ownership of checkpoint work (\<open>growth\<close>, \<open>_memory\<close>) is not modelled.
\<close>

section \<open>Pages\<close>

text \<open>The trait \<open>CowPageWeight\<close> of keys and values, as functions.\<close>

record ('k, 'v) page_weight =
  key_bytes :: "'k \<Rightarrow> nat"
  value_bytes_of :: "'v \<Rightarrow> nat"
  pressure_of :: "'v \<Rightarrow> nat"

record ('k, 'v) cow_page =
  entries :: "('k, 'v) btree"
  page_bytes :: "nat option"
  epoch_bounds :: "(nat \<times> nat) option"
  history_lease :: "nat option"
  page_shared :: bool

definition cow_map_entry_bytes :: "('k, 'v) page_weight \<Rightarrow> 'k \<Rightarrow> 'v \<Rightarrow> nat" where
  "cow_map_entry_bytes W k v = sat_add (sat_add 32 (key_bytes W k)) (value_bytes_of W v)"

definition entry_payload :: "('k, 'v) page_weight \<Rightarrow> 'k \<times> 'v \<Rightarrow> nat" where
  "entry_payload W e = key_bytes W (fst e) + value_bytes_of W (snd e)"

definition page_of :: "('k, 'v) btree \<Rightarrow> ('k, 'v) cow_page" where
  "page_of es = \<lparr> entries = es, page_bytes = None, epoch_bounds = None, history_lease = None, page_shared = False \<rparr>"

text \<open>\<open>Arc::make_mut\<close> on a page, which clones a shared one (\<open>CowMapPage::clone\<close>).\<close>

definition page_make_mut :: "('k, 'v) cow_page \<Rightarrow> ('k, 'v) cow_page" where
  "page_make_mut p = (if page_shared p then p\<lparr>history_lease := None, page_shared := False\<rparr> else p)"

text \<open>Mutable access to the entries themselves drops both caches.\<close>

definition page_deref_mut :: "('k, 'v) cow_page \<Rightarrow> ('k, 'v) cow_page" where
  "page_deref_mut p = p\<lparr>page_bytes := None, epoch_bounds := None\<rparr>"

definition payload_bytes :: "('k, 'v) page_weight \<Rightarrow> ('k, 'v) cow_page \<Rightarrow> nat" where
  "payload_bytes W p =
     (case page_bytes p of Some b \<Rightarrow> b | None \<Rightarrow> sum_list (map (entry_payload W) (entries p)))"

definition page_estimated_bytes :: "('k, 'v) page_weight \<Rightarrow> ('k, 'v) cow_page \<Rightarrow> nat" where
  "page_estimated_bytes W p = payload_bytes W p + length (entries p) * 32"

definition bt_get_key_value :: "('k \<Rightarrow> 'k \<Rightarrow> ordering) \<Rightarrow> 'k \<Rightarrow> ('k, 'v) btree \<Rightarrow> ('k \<times> 'v) option" where
  "bt_get_key_value c k m = List.find (\<lambda>e. c k (fst e) = Equal) m"

definition page_insert ::
    "('k, 'v) page_weight \<Rightarrow> ('k \<Rightarrow> 'k \<Rightarrow> ordering) \<Rightarrow> 'k \<Rightarrow> 'v \<Rightarrow> ('k, 'v) cow_page \<Rightarrow>
     'v option \<times> ('k, 'v) cow_page" where
  "page_insert W c k v p =
     (let bytes = payload_bytes W p;
          (before, after) = (case bt_get_key_value c k (entries p) of
              None \<Rightarrow> (0, key_bytes W k + value_bytes_of W v)
            | Some (stored, old) \<Rightarrow>
                (key_bytes W stored + value_bytes_of W old, key_bytes W stored + value_bytes_of W v))
      in (bt_get c k (entries p),
          p\<lparr>entries := bt_insert c k v (entries p), page_bytes := Some (bytes - before + after),
             epoch_bounds := None\<rparr>))"

definition page_remove ::
    "('k, 'v) page_weight \<Rightarrow> ('k \<Rightarrow> 'k \<Rightarrow> ordering) \<Rightarrow> 'k \<Rightarrow> ('k, 'v) cow_page \<Rightarrow>
     'v option \<times> ('k, 'v) cow_page" where
  "page_remove W c k p =
     (let bytes = payload_bytes W p;
          removed = (case bt_get_key_value c k (entries p) of None \<Rightarrow> 0 | Some e \<Rightarrow> entry_payload W e)
      in (bt_get c k (entries p),
          p\<lparr>entries := bt_remove c k (entries p), page_bytes := Some (bytes - removed), epoch_bounds := None\<rparr>))"

definition page_split_off ::
    "('k, 'v) page_weight \<Rightarrow> ('k \<Rightarrow> 'k \<Rightarrow> ordering) \<Rightarrow> 'k \<Rightarrow> ('k, 'v) cow_page \<Rightarrow>
     ('k, 'v) cow_page \<times> ('k, 'v) cow_page" where
  "page_split_off W c k p =
     (let bytes = payload_bytes W p;
          (l, r) = bt_split_off c k (entries p);
          right = page_of r
      in (p\<lparr>entries := l, page_bytes := Some (bytes - payload_bytes W right), epoch_bounds := None\<rparr>, right))"

section \<open>The map\<close>

definition COW_MAP_MAX_SEGMENT_ENTRIES :: nat where "COW_MAP_MAX_SEGMENT_ENTRIES = 512"
definition COW_MAP_TARGET_SEGMENT_BYTES :: nat where "COW_MAP_TARGET_SEGMENT_BYTES = 128 * 1024"

record ('k, 'v) cow_map =
  segments :: "('k, 'v) cow_page list"
  map_len :: nat
  delta_pressure :: nat

definition cow_empty :: "('k, 'v) cow_map" where
  "cow_empty = \<lparr> segments = [], map_len = 0, delta_pressure = 0 \<rparr>"

text \<open>
  \<open>Clone\<close> shares every page; \<open>m\<close> below is either of the two maps afterwards. The source shares the
  page directory first and the pages when the directory is detached. The model marks the pages at
  once, which is conservative: a page that may be shared is never edited in place.
\<close>

definition cow_clone :: "('k, 'v) cow_map \<Rightarrow> ('k, 'v) cow_map" where
  "cow_clone m = m\<lparr>segments := map (\<lambda>p. p\<lparr>page_shared := True\<rparr>) (segments m)\<rparr>"

definition u64_max :: nat where "u64_max = 2 ^ 64 - 1"

definition delta_pressure_bytes :: "('k, 'v) cow_map \<Rightarrow> nat" where
  "delta_pressure_bytes m = min (delta_pressure m) u64_max"

text \<open>The loop of \<open>from_ordered_entries\<close>: finished pages, the open page with its bytes, the counts.\<close>

fun ordered_loop ::
    "('k, 'v) page_weight \<Rightarrow> ('k \<Rightarrow> 'k \<Rightarrow> ordering) \<Rightarrow> ('k \<times> 'v) list \<Rightarrow>
     ('k, 'v) cow_page list \<Rightarrow> ('k, 'v) btree \<Rightarrow> nat \<Rightarrow> nat \<Rightarrow> nat \<Rightarrow> ('k, 'v) cow_map" where
  "ordered_loop W c [] pages seg seg_bytes n pressure =
     \<lparr> segments = (if seg \<noteq> [] then pages @ [page_of seg] else pages),
       map_len = n, delta_pressure = pressure \<rparr>"
| "ordered_loop W c ((k, v) # es) pages seg seg_bytes n pressure =
     (let entry = cow_map_entry_bytes W k v;
          full = seg \<noteq> [] \<and> (length seg \<ge> COW_MAP_MAX_SEGMENT_ENTRIES \<or>
                   sat_add seg_bytes entry > COW_MAP_TARGET_SEGMENT_BYTES);
          pages' = (if full then pages @ [page_of seg] else pages);
          seg' = (if full then [] else seg);
          seg_bytes' = (if full then 0 else seg_bytes)
      in ordered_loop W c es pages' (bt_insert c k v seg') (sat_add seg_bytes' entry) (n + 1)
           (pressure + pressure_of W v))"

definition from_ordered_entries ::
    "('k, 'v) page_weight \<Rightarrow> ('k \<Rightarrow> 'k \<Rightarrow> ordering) \<Rightarrow> ('k \<times> 'v) list \<Rightarrow> ('k, 'v) cow_map" where
  "from_ordered_entries W c es = ordered_loop W c es [] [] 0 0 0"

text \<open>\<open>slice::partition_point\<close> on a slice partitioned by the predicate; \<open>BTreeMap::last_key_value\<close> and
  \<open>first_key_value\<close>.\<close>

definition partition_point :: "('a \<Rightarrow> bool) \<Rightarrow> 'a list \<Rightarrow> nat" where
  "partition_point P xs = length (takeWhile P xs)"

definition last_key_is :: "('k \<Rightarrow> bool) \<Rightarrow> ('k, 'v) cow_page \<Rightarrow> bool" where
  "last_key_is P p = (if entries p = [] then False else P (fst (last (entries p))))"

definition first_key_is :: "('k \<Rightarrow> bool) \<Rightarrow> ('k, 'v) cow_page \<Rightarrow> bool" where
  "first_key_is P p = (if entries p = [] then False else P (fst (hd (entries p))))"

definition segment_index :: "('k \<Rightarrow> 'k \<Rightarrow> ordering) \<Rightarrow> 'k \<Rightarrow> ('k, 'v) cow_map \<Rightarrow> nat option" where
  "segment_index c k m =
     (if segments m = [] then None
      else Some (min (partition_point (last_key_is (\<lambda>l. c l k = Less)) (segments m)) (length (segments m) - 1)))"

definition cow_get :: "('k \<Rightarrow> 'k \<Rightarrow> ordering) \<Rightarrow> 'k \<Rightarrow> ('k, 'v) cow_map \<Rightarrow> 'v option" where
  "cow_get c k m =
     (case segment_index c k m of None \<Rightarrow> None | Some i \<Rightarrow> bt_get c k (entries (segments m ! i)))"

definition cow_contains :: "('k \<Rightarrow> 'k \<Rightarrow> ordering) \<Rightarrow> 'k \<Rightarrow> ('k, 'v) cow_map \<Rightarrow> bool" where
  "cow_contains c k m \<longleftrightarrow> cow_get c k m \<noteq> None"

definition cow_iter :: "('k, 'v) cow_map \<Rightarrow> ('k \<times> 'v) list" where
  "cow_iter m = concat (map entries (segments m))"

definition cow_iter_after :: "('k \<Rightarrow> 'k \<Rightarrow> ordering) \<Rightarrow> 'k option \<Rightarrow> ('k, 'v) cow_map \<Rightarrow> ('k \<times> 'v) list" where
  "cow_iter_after c after m =
     (let start = (case Option.bind after (\<lambda>k. segment_index c k m) of None \<Rightarrow> 0 | Some i \<Rightarrow> i)
      in concat (map (\<lambda>p. filter (\<lambda>e. case after of None \<Rightarrow> True | Some a \<Rightarrow> c (fst e) a = Greater) (entries p))
           (drop start (segments m))))"

text \<open>\<open>range\<close> panics (\<open>None\<close>) on an inverted interval.\<close>

definition cow_range :: "('k \<Rightarrow> 'k \<Rightarrow> ordering) \<Rightarrow> 'k \<Rightarrow> 'k \<Rightarrow> ('k, 'v) cow_map \<Rightarrow> ('k \<times> 'v) list option" where
  "cow_range c lo hi m =
     (if c lo hi = Greater then None
      else let start = partition_point (last_key_is (\<lambda>k. c k lo = Less)) (segments m);
               end' = partition_point (first_key_is (\<lambda>k. c k hi \<noteq> Greater)) (segments m)
           in if end' < start then None
              else Some (concat (map (\<lambda>p. filter (\<lambda>e. c (fst e) lo \<noteq> Less \<and> c (fst e) hi \<noteq> Greater) (entries p))
                     (drop start (take end' (segments m))))))"

definition first_after :: "('k \<Rightarrow> 'k \<Rightarrow> ordering) \<Rightarrow> 'k option \<Rightarrow> ('k, 'v) cow_map \<Rightarrow> ('k \<times> 'v) option" where
  "first_after c lower m =
     (let start = (case lower of None \<Rightarrow> 0
                   | Some lo \<Rightarrow> partition_point (last_key_is (\<lambda>k. c k lo \<noteq> Greater)) (segments m));
          candidate = (\<lambda>p. case lower of
              None \<Rightarrow> (if entries p = [] then None else Some (hd (entries p)))
            | Some lo \<Rightarrow> List.find (\<lambda>e. c (fst e) lo = Greater) (entries p))
      in case List.find (\<lambda>p. candidate p \<noteq> None) (drop start (segments m)) of
           None \<Rightarrow> None | Some p \<Rightarrow> candidate p)"

section \<open>Mutation\<close>

definition u128_max :: nat where "u128_max = 2 ^ 128 - 1"

fun split_scan :: "('k, 'v) page_weight \<Rightarrow> nat \<Rightarrow> nat \<Rightarrow> nat \<Rightarrow> ('k \<times> 'v) list \<Rightarrow> 'k option" where
  "split_scan W half i bytes [] = None"
| "split_scan W half i bytes ((k, v) # es) =
     (if 0 < i \<and> (half \<le> bytes \<or> COW_MAP_MAX_SEGMENT_ENTRIES div 2 \<le> i) then Some k
      else split_scan W half (i + 1) (min (bytes + cow_map_entry_bytes W k v) u128_max) es)"

definition split_key :: "('k, 'v) page_weight \<Rightarrow> ('k, 'v) cow_page \<Rightarrow> 'k" where
  "split_key W p =
     (case split_scan W (page_estimated_bytes W p div 2) 0 0 (entries p) of
        Some k \<Rightarrow> k
      | None \<Rightarrow> fst (entries p ! (length (entries p) div 2)))"

definition split_oversized_segment ::
    "('k, 'v) page_weight \<Rightarrow> ('k \<Rightarrow> 'k \<Rightarrow> ordering) \<Rightarrow> nat \<Rightarrow> ('k, 'v) cow_page list \<Rightarrow> ('k, 'v) cow_page list" where
  "split_oversized_segment W c i segs =
     (let p = page_make_mut (segs ! i)
      in if length (entries p) \<le> 1 \<or>
            (length (entries p) \<le> COW_MAP_MAX_SEGMENT_ENTRIES \<and>
             page_estimated_bytes W p \<le> COW_MAP_TARGET_SEGMENT_BYTES)
         then segs[i := p]
         else let (l, r) = page_split_off W c (split_key W p) p
              in take i segs @ [l, r] @ drop (Suc i) segs)"

definition cow_insert ::
    "('k, 'v) page_weight \<Rightarrow> ('k \<Rightarrow> 'k \<Rightarrow> ordering) \<Rightarrow> 'k \<Rightarrow> 'v \<Rightarrow> ('k, 'v) cow_map \<Rightarrow>
     'v option \<times> ('k, 'v) cow_map" where
  "cow_insert W c k v m =
     (case segment_index c k m of
        None \<Rightarrow> (None, \<lparr> segments = [page_of [(k, v)]], map_len = 1, delta_pressure = pressure_of W v \<rparr>)
      | Some i \<Rightarrow>
          let (previous, p) = page_insert W c k v (page_make_mut (segments m ! i));
              pressure = delta_pressure m - (case previous of None \<Rightarrow> 0 | Some old \<Rightarrow> pressure_of W old)
                         + pressure_of W v;
              len = (if previous = None then sat_add (map_len m) 1 else map_len m)
          in (previous,
              \<lparr> segments = split_oversized_segment W c i ((segments m)[i := p]),
                map_len = len, delta_pressure = pressure \<rparr>))"

definition rebalance_key ::
    "('k, 'v) page_weight \<Rightarrow> ('k \<Rightarrow> 'k \<Rightarrow> ordering) \<Rightarrow> 'k \<Rightarrow> ('k, 'v) cow_map \<Rightarrow> ('k, 'v) cow_map" where
  "rebalance_key W c k m =
     (case segment_index c k m of
        None \<Rightarrow> m
      | Some i \<Rightarrow> m\<lparr>segments := split_oversized_segment W c i (segments m)\<rparr>)"

text \<open>\<open>get_mut\<close> with the mutation \<open>f\<close> made through the guard, and the guard's \<open>Drop\<close>.\<close>

definition bt_update :: "('k \<Rightarrow> 'k \<Rightarrow> ordering) \<Rightarrow> 'k \<Rightarrow> ('v \<Rightarrow> 'v) \<Rightarrow> ('k, 'v) btree \<Rightarrow> ('k, 'v) btree" where
  "bt_update c k f m = map (\<lambda>e. if c k (fst e) = Equal then (fst e, f (snd e)) else e) m"

definition cow_get_mut ::
    "('k, 'v) page_weight \<Rightarrow> ('k \<Rightarrow> 'k \<Rightarrow> ordering) \<Rightarrow> 'k \<Rightarrow> ('v \<Rightarrow> 'v) \<Rightarrow> ('k, 'v) cow_map \<Rightarrow>
     ('k, 'v) cow_map option" where
  "cow_get_mut W c k f m =
     (case segment_index c k m of
        None \<Rightarrow> None
      | Some i \<Rightarrow>
          (case bt_get_key_value c k (entries (segments m ! i)) of
             None \<Rightarrow> None
           | Some (stored, old) \<Rightarrow>
               let page = page_make_mut (segments m ! i);
                   previous_page_bytes = payload_bytes W page;
                   previous_entry_bytes = key_bytes W stored + value_bytes_of W old;
                   page' = page\<lparr>entries := bt_update c k f (entries page),
                                page_bytes := Some (previous_page_bytes - previous_entry_bytes
                                                + key_bytes W stored + value_bytes_of W (f old)),
                                epoch_bounds := None\<rparr>
               in Some (m\<lparr>segments := (segments m)[i := page'],
                          delta_pressure := delta_pressure m - pressure_of W old + pressure_of W (f old)\<rparr>)))"

definition entry_or_default ::
    "('k, 'v) page_weight \<Rightarrow> ('k \<Rightarrow> 'k \<Rightarrow> ordering) \<Rightarrow> 'v \<Rightarrow> 'k \<Rightarrow> ('v \<Rightarrow> 'v) \<Rightarrow> ('k, 'v) cow_map \<Rightarrow>
     ('k, 'v) cow_map option" where
  "entry_or_default W c d k f m =
     cow_get_mut W c k f (if cow_contains c k m then m else snd (cow_insert W c k d m))"

definition cow_remove ::
    "('k, 'v) page_weight \<Rightarrow> ('k \<Rightarrow> 'k \<Rightarrow> ordering) \<Rightarrow> 'k \<Rightarrow> ('k, 'v) cow_map \<Rightarrow>
     'v option \<times> ('k, 'v) cow_map" where
  "cow_remove W c k m =
     (case segment_index c k m of
        None \<Rightarrow> (None, m)
      | Some i \<Rightarrow>
          if \<not> bt_contains c k (entries (segments m ! i)) then (None, m)
          else let (removed, p) = page_remove W c k (page_make_mut (segments m ! i));
                   len = (if removed \<noteq> None then map_len m - 1 else map_len m);
                   pressure = delta_pressure m - (case removed of None \<Rightarrow> 0 | Some old \<Rightarrow> pressure_of W old);
                   segs = (segments m)[i := p]
               in (removed,
                   \<lparr> segments = (if entries p = [] then take i segs @ drop (Suc i) segs else segs),
                     map_len = len, delta_pressure = pressure \<rparr>))"

text \<open>\<open>retain\<close>: \<open>keep\<close> may change the value it sees and carries its own state.\<close>

fun bt_retain :: "('s \<Rightarrow> 'k \<Rightarrow> 'v \<Rightarrow> bool \<times> 'v \<times> 's) \<Rightarrow> 's \<Rightarrow> ('k, 'v) btree \<Rightarrow> ('k, 'v) btree \<times> 's" where
  "bt_retain keep s [] = ([], s)"
| "bt_retain keep s ((k, v) # m) =
     (let (b, v', s1) = keep s k v;
          (m', s2) = bt_retain keep s1 m
      in (if b then (k, v') # m' else m', s2))"

fun retain_loop ::
    "('k, 'v) page_weight \<Rightarrow> ('s \<Rightarrow> 'k \<Rightarrow> 'v \<Rightarrow> bool \<times> 'v \<times> 's) \<Rightarrow> 's \<Rightarrow> ('k, 'v) cow_page list \<Rightarrow>
     nat \<Rightarrow> nat \<Rightarrow> ('k, 'v) cow_page list \<times> nat \<times> nat \<times> 's" where
  "retain_loop W keep s [] len pressure = ([], len, pressure, s)"
| "retain_loop W keep s (p # ps) len pressure =
     (let p1 = page_make_mut p;
          before_len = length (entries p1);
          before_pressure = sum_list (map (pressure_of W \<circ> snd) (entries p1));
          (es, s1) = bt_retain keep s (entries p1);
          p2 = (page_deref_mut p1)\<lparr>entries := es\<rparr>;
          len1 = len - before_len + length es;
          pressure1 = pressure - before_pressure + sum_list (map (pressure_of W \<circ> snd) es);
          (ps', len2, pressure2, s2) = retain_loop W keep s1 ps len1 pressure1
      in (p2 # ps', len2, pressure2, s2))"

definition cow_retain ::
    "('k, 'v) page_weight \<Rightarrow> ('s \<Rightarrow> 'k \<Rightarrow> 'v \<Rightarrow> bool \<times> 'v \<times> 's) \<Rightarrow> 's \<Rightarrow> ('k, 'v) cow_map \<Rightarrow>
     ('k, 'v) cow_map \<times> 's" where
  "cow_retain W keep s m =
     (let (ps, len, pressure, s') = retain_loop W keep s (segments m) (map_len m) (delta_pressure m)
      in (\<lparr> segments = filter (\<lambda>p. entries p \<noteq> []) ps, map_len = len, delta_pressure = pressure \<rparr>, s'))"

section \<open>Invariant\<close>

definition entries_payload :: "('k, 'v) page_weight \<Rightarrow> ('k, 'v) btree \<Rightarrow> nat" where
  "entries_payload W es = sum_list (map (entry_payload W) es)"

definition entries_pressure :: "('k, 'v) page_weight \<Rightarrow> ('k, 'v) btree \<Rightarrow> nat" where
  "entries_pressure W es = sum_list (map (pressure_of W \<circ> snd) es)"

definition cache_ok :: "('k, 'v) page_weight \<Rightarrow> ('k, 'v) cow_page \<Rightarrow> bool" where
  "cache_ok W p \<longleftrightarrow> page_bytes p = None \<or> page_bytes p = Some (entries_payload W (entries p))"

definition page_ok :: "('k, 'v) page_weight \<Rightarrow> ('k, 'v) cow_page \<Rightarrow> bool" where
  "page_ok W p \<longleftrightarrow>
     entries p \<noteq> [] \<and> length (entries p) \<le> COW_MAP_MAX_SEGMENT_ENTRIES \<and> cache_ok W p"

definition cow_ok :: "('k, 'v) page_weight \<Rightarrow> ('k \<Rightarrow> 'k \<Rightarrow> ordering) \<Rightarrow> ('k, 'v) cow_map \<Rightarrow> bool" where
  "cow_ok W c m \<longleftrightarrow>
     bt_sorted c (cow_iter m) \<and> list_all (page_ok W) (segments m) \<and>
     map_len m = length (cow_iter m) \<and> delta_pressure m = entries_pressure W (cow_iter m)"

lemma entries_sums [simp]:
  "entries_payload W [] = 0" "entries_payload W (e # es) = entry_payload W e + entries_payload W es"
  "entries_payload W (xs @ ys) = entries_payload W xs + entries_payload W ys"
  "entries_pressure W [] = 0" "entries_pressure W (e # es) = pressure_of W (snd e) + entries_pressure W es"
  "entries_pressure W (xs @ ys) = entries_pressure W xs + entries_pressure W ys"
  by (simp_all add: entries_payload_def entries_pressure_def)

lemma cache_ok_payload: "cache_ok W p \<Longrightarrow> payload_bytes W p = entries_payload W (entries p)"
  by (auto simp: cache_ok_def payload_bytes_def entries_payload_def)

lemma page_make_mut_simps [simp]:
  "entries (page_make_mut p) = entries p" "page_bytes (page_make_mut p) = page_bytes p"
  "cache_ok W (page_make_mut p) = cache_ok W p" "payload_bytes W (page_make_mut p) = payload_bytes W p"
  by (simp_all add: page_make_mut_def cache_ok_def payload_bytes_def split: option.split)

lemma page_of_simps [simp]: "entries (page_of es) = es" "cache_ok W (page_of es)"
  by (simp_all add: page_of_def cache_ok_def)

section \<open>Sums over an updated ordered map\<close>

lemma bt_get_key_value_simps [simp]:
  "bt_get_key_value c k [] = None"
  "bt_get_key_value c k (e # m) = (if c k (fst e) = Equal then Some e else bt_get_key_value c k m)"
  by (simp_all add: bt_get_key_value_def)

lemma bt_get_key_value_Some:
  "bt_get_key_value c k m = Some e \<Longrightarrow> e \<in> set m \<and> c k (fst e) = Equal \<and> bt_get c k m = Some (snd e)"
  by (induction m) (auto split: if_splits)

lemma bt_get_key_value_None: "bt_get_key_value c k m = None \<longleftrightarrow> bt_get c k m = None"
  by (induction m) auto

lemma bt_get_key_value_append:
  "bt_get_key_value c k (m @ n) = (case bt_get_key_value c k m of None \<Rightarrow> bt_get_key_value c k n | Some e \<Rightarrow> Some e)"
  by (induction m) auto

lemma bt_sorted_keys: "bt_sorted c m \<longleftrightarrow> sorted_wrt (\<lambda>a b. c a b = Less) (map fst m)"
  by (simp add: bt_sorted_def sorted_wrt_map)

lemma sum_le: "e \<in> set m \<Longrightarrow> entry_payload W e \<le> entries_payload W m"
  "e \<in> set m \<Longrightarrow> pressure_of W (snd e) \<le> entries_pressure W m"
  by (induction m) auto

lemma bt_get_payload_le: "bt_get_key_value c k m = Some e \<Longrightarrow> entry_payload W e \<le> entries_payload W m"
  by (rule sum_le) (simp add: bt_get_key_value_Some)

lemma bt_get_pressure_le: "bt_get c k m = Some v \<Longrightarrow> pressure_of W v \<le> entries_pressure W m"
  using sum_le(2) [of _ m W] bt_get_SomeD [of c k m v] by fastforce

lemma remove_sums:
  "entries_payload W (bt_remove c k m) =
     entries_payload W m - (case bt_get_key_value c k m of None \<Rightarrow> 0 | Some e \<Rightarrow> entry_payload W e)"
  "entries_pressure W (bt_remove c k m) =
     entries_pressure W m - (case bt_get c k m of None \<Rightarrow> 0 | Some v \<Rightarrow> pressure_of W v)"
  "length (bt_remove c k m) = length m - (if bt_get c k m = None then 0 else 1)"
proof (induction m)
  case (Cons e m)
  {
    case 1
    from Cons.IH(1) show ?case
      by (auto split: option.splits dest: bt_get_payload_le [of c k m _ W])
  next
    case 2
    from Cons.IH(2) show ?case
      by (auto split: option.splits dest!: bt_get_pressure_le [of c k m _ W])
  next
    case 3
    from Cons.IH(3) show ?case by (cases m) auto
  }
qed simp_all

context rust_ord
begin

lemma bt_get_below_head:
  "bt_sorted cmp (e # m) \<Longrightarrow> cmp k (fst e) = Less \<Longrightarrow> bt_get cmp k m = None"
  by (auto simp: bt_get_None_iff dest: cmp_lt_trans)

lemma insert_payload:
  "bt_sorted cmp m \<Longrightarrow>
   entries_payload W (bt_insert cmp k v m) =
     (case bt_get_key_value cmp k m of
        None \<Rightarrow> entries_payload W m + (key_bytes W k + value_bytes_of W v)
      | Some (s, old) \<Rightarrow> entries_payload W m - (key_bytes W s + value_bytes_of W old)
          + (key_bytes W s + value_bytes_of W v))"
proof (induction m)
  case (Cons e m)
  show ?case
  proof (cases "cmp k (fst e)")
    case Less
    with bt_get_below_head [OF Cons.prems] have "bt_get_key_value cmp k m = None"
      by (simp add: bt_get_key_value_None)
    with Less show ?thesis by (simp add: entry_payload_def)
  next
    case Greater
    with Cons show ?thesis
      by (auto simp: entry_payload_def split: option.splits dest!: bt_get_payload_le [of cmp k m _ W])
  qed (auto simp: entry_payload_def split: prod.split)
qed (simp add: entry_payload_def)

lemma insert_pressure:
  "bt_sorted cmp m \<Longrightarrow>
   entries_pressure W (bt_insert cmp k v m) =
     entries_pressure W m - (case bt_get cmp k m of None \<Rightarrow> 0 | Some old \<Rightarrow> pressure_of W old) + pressure_of W v"
proof (induction m)
  case (Cons e m)
  with bt_get_below_head [OF Cons.prems] show ?case
    by (cases "cmp k (fst e)") (auto split: option.splits dest!: bt_get_pressure_le [of cmp k m _ W])
qed simp

end

section \<open>Locating a key\<close>

abbreviation flat :: "('k, 'v) cow_page list \<Rightarrow> ('k, 'v) btree" where
  "flat segs \<equiv> concat (map entries segs)"

definition pages_ok :: "('k \<Rightarrow> 'k \<Rightarrow> ordering) \<Rightarrow> ('k, 'v) cow_page list \<Rightarrow> bool" where
  "pages_ok c segs \<longleftrightarrow> bt_sorted c (flat segs) \<and> (\<forall>p \<in> set segs. entries p \<noteq> [])"

lemma cow_ok_pages: "cow_ok W c m \<Longrightarrow> pages_ok c (segments m)"
  by (auto simp: cow_ok_def pages_ok_def cow_iter_def page_ok_def list_all_iff)

context rust_ord
begin

lemma last_key_bounds:
  assumes "bt_sorted cmp (entries p)" "e \<in> set (entries p)"
  shows "cmp (fst e) (fst (last (entries p))) \<noteq> Greater"
proof -
  obtain es l where es: "entries p = es @ [l]" using assms(2) by (cases "entries p" rule: rev_cases) auto
  with assms show ?thesis by (auto simp: bt_sorted_append cmp_refl)
qed

lemma pages_below:
  assumes "pages_ok cmp segs" "\<forall>p \<in> set segs. last_key_is (\<lambda>l. cmp l k = Less) p" "e \<in> set (flat segs)"
  shows "cmp (fst e) k = Less"
proof -
  from assms(3) obtain p where p: "p \<in> set segs" "e \<in> set (entries p)" by auto
  from p(1) assms(1) have "bt_sorted cmp (entries p)"
    by (auto simp: pages_ok_def in_set_conv_decomp bt_sorted_append)
  with p assms(2) last_key_bounds [of p e] show ?thesis
    by (auto simp: last_key_is_def split: if_splits intro: cmp_le_lt_trans)
qed

lemma pages_ok_append:
  "pages_ok cmp (A @ B) \<longleftrightarrow>
     pages_ok cmp A \<and> pages_ok cmp B \<and> (\<forall>x \<in> set (flat A). \<forall>y \<in> set (flat B). cmp (fst x) (fst y) = Less)"
  unfolding pages_ok_def map_append concat_append bt_sorted_append set_append ball_Un by blast

lemma pages_ok_Cons:
  "pages_ok cmp (p # B) \<longleftrightarrow>
     bt_sorted cmp (entries p) \<and> entries p \<noteq> [] \<and> pages_ok cmp B \<and>
     (\<forall>x \<in> set (entries p). \<forall>y \<in> set (flat B). cmp (fst x) (fst y) = Less)"
  unfolding pages_ok_def list.map concat.simps bt_sorted_append list.set ball_simps by blast

lemma locate:
  assumes ok: "pages_ok cmp (segments m)" and i: "segment_index cmp k m = Some i"
  obtains A p B where "segments m = A @ p # B" "i = length A"
    "\<forall>e \<in> set (flat A). cmp (fst e) k = Less" "\<forall>e \<in> set (flat B). cmp k (fst e) = Less"
proof -
  let ?P = "last_key_is (\<lambda>l. cmp l k = Less)"
  let ?S = "segments m" and ?n = "length (takeWhile ?P (segments m))"
  from i have S: "?S \<noteq> []" and im: "i = min ?n (length ?S - 1)"
    by (auto simp: segment_index_def partition_point_def split: if_splits)
  then have il: "i < length ?S" by (cases ?S) auto
  define A p B where "A = take i ?S" and "p = ?S ! i" and "B = drop (Suc i) ?S"
  have seg: "?S = A @ p # B" unfolding A_def p_def B_def by (rule id_take_nth_drop [OF il])
  have "i \<le> ?n" using im by simp
  then have "\<forall>q \<in> set A. ?P q" unfolding A_def
    by (metis in_set_takeD set_takeWhileD takeWhile_eq_take take_take min.absorb1)
  moreover have "pages_ok cmp A" using ok unfolding seg pages_ok_append by blast
  ultimately have 1: "\<forall>e \<in> set (flat A). cmp (fst e) k = Less" using pages_below by blast
  have 2: "cmp k (fst e) = Less" if e: "e \<in> set (flat B)" for e
  proof -
    from e have "B \<noteq> []" by auto
    then have "Suc i < length ?S" unfolding B_def by simp
    then have "i = ?n" "?n < length ?S" using im by auto
    then have "\<not> ?P p" unfolding p_def using nth_length_takeWhile by metis
    moreover have P: "entries p \<noteq> []" "\<forall>x \<in> set (entries p). cmp (fst x) (fst e) = Less"
      using ok e unfolding seg pages_ok_append pages_ok_Cons by blast+
    ultimately have "cmp k (fst (last (entries p))) \<noteq> Greater"
      by (simp add: last_key_is_def cmp_Less_rev)
    with P show ?thesis by (meson cmp_le_lt_trans last_in_set)
  qed
  have "length A = i" unfolding A_def using il by simp
  with seg 1 2 show thesis by (intro that [of A p B]) auto
qed

lemma located_get:
  assumes "\<forall>e \<in> set (flat A). cmp (fst e) k = Less" "\<forall>e \<in> set (flat B). cmp k (fst e) = Less"
  shows "bt_get cmp k (flat (A @ p # B)) = bt_get cmp k (entries p)"
proof -
  from assms have "bt_get cmp k (flat A) = None" "bt_get cmp k (flat B) = None"
    unfolding bt_get_None_iff by (metis cmp_Equal_rev ordering.distinct(1))+
  then show ?thesis by (simp add: bt_get_append split: option.split)
qed

lemma cow_get_flat:
  assumes "pages_ok cmp (segments m)"
  shows "cow_get cmp k m = bt_get cmp k (cow_iter m)"
proof (cases "segment_index cmp k m")
  case None
  then have "segments m = []" by (auto simp: segment_index_def split: if_splits)
  then show ?thesis by (simp add: cow_get_def None cow_iter_def)
next
  case (Some i)
  obtain A p B where l: "segments m = A @ p # B" "i = length A"
    "\<forall>e \<in> set (flat A). cmp (fst e) k = Less" "\<forall>e \<in> set (flat B). cmp k (fst e) = Less"
    by (rule locate [OF assms Some])
  then show ?thesis
    using located_get [OF l(3,4), of p] by (simp add: cow_get_def Some cow_iter_def nth_append)
qed

end

section \<open>Pages keep their caches, splits keep their entries\<close>

lemma split_scan_Some:
  "split_scan W half i bytes es = Some k \<Longrightarrow> \<exists>j < length es. k = fst (es ! j) \<and> 0 < i + j"
proof (induction W half i bytes es rule: split_scan.induct)
  case (2 W half i bytes k' v es)
  show ?case
  proof (cases "0 < i \<and> (half \<le> bytes \<or> COW_MAP_MAX_SEGMENT_ENTRIES div 2 \<le> i)")
    case True
    with 2(2) show ?thesis by (intro exI [of _ 0]) auto
  next
    case False
    with 2 obtain j where "j < length es" "k = fst (es ! j)" by (auto split: if_splits)
    then show ?thesis by (intro exI [of _ "Suc j"]) simp
  qed
qed simp

lemma split_key_nth:
  assumes "1 < length (entries p)"
  shows "\<exists>j. 0 < j \<and> j < length (entries p) \<and> split_key W p = fst (entries p ! j)"
proof (cases "split_scan W (page_estimated_bytes W p div 2) 0 0 (entries p)")
  case None
  with assms show ?thesis
    by (intro exI [of _ "length (entries p) div 2"]) (auto simp: split_key_def)
next
  case (Some k)
  with split_scan_Some [OF Some] show ?thesis by (auto simp: split_key_def)
qed

context rust_ord
begin

lemma split_off_nth:
  assumes "bt_sorted cmp m" "j < length m"
  shows "bt_split_off cmp (fst (m ! j)) m = (take j m, drop j m)"
proof -
  obtain x where x: "x = m ! j" by simp
  have m: "m = take j m @ x # drop (Suc j) m" unfolding x using assms(2) by (rule id_take_nth_drop)
  have "bt_sorted cmp (take j m @ x # drop (Suc j) m)" using assms(1) m by simp
  then have "\<forall>e \<in> set (take j m). cmp (fst e) (fst x) = Less" by (simp add: bt_sorted_append)
  then have "takeWhile (\<lambda>e. cmp (fst e) (fst x) = Less) (take j m @ x # drop (Suc j) m) = take j m"
    by (simp add: takeWhile_append2 cmp_refl)
  then have "takeWhile (\<lambda>e. cmp (fst e) (fst x) = Less) m = take j m" using m by simp
  then show ?thesis
    using assms(2) unfolding x [symmetric] by (simp add: bt_split_off_def dropWhile_eq_drop)
qed

lemma page_insert_spec:
  assumes "bt_sorted cmp (entries p)" "cache_ok W p"
  shows "fst (page_insert W cmp k v p) = bt_get cmp k (entries p)"
    "entries (snd (page_insert W cmp k v p)) = bt_insert cmp k v (entries p)"
    "cache_ok W (snd (page_insert W cmp k v p))"
  using insert_payload [OF assms(1), of W k v] cache_ok_payload [OF assms(2)]
  by (auto simp: page_insert_def Let_def cache_ok_def split: option.splits)

lemma page_remove_spec:
  assumes "cache_ok W p"
  shows "fst (page_remove W cmp k p) = bt_get cmp k (entries p)"
    "entries (snd (page_remove W cmp k p)) = bt_remove cmp k (entries p)"
    "cache_ok W (snd (page_remove W cmp k p))"
  using cache_ok_payload [OF assms]
  by (simp_all add: page_remove_def Let_def cache_ok_def remove_sums split: option.splits)

lemma page_split_spec:
  assumes "bt_sorted cmp (entries p)" "cache_ok W p" "1 < length (entries p)"
    "length (entries p) \<le> Suc COW_MAP_MAX_SEGMENT_ENTRIES" "page_split_off W cmp (split_key W p) p = (l, r)"
  shows "entries l @ entries r = entries p" "page_ok W l" "page_ok W r"
proof -
  obtain j where j: "0 < j" "j < length (entries p)" "split_key W p = fst (entries p ! j)"
    using split_key_nth [OF assms(3), of W] by blast
  have lr: "entries l = take j (entries p)" "r = page_of (drop j (entries p))"
    "page_bytes l = Some (payload_bytes W p - payload_bytes W r)"
    using assms(5) split_off_nth [OF assms(1) j(2)] j(3) by (auto simp: page_split_off_def Let_def)
  then show app: "entries l @ entries r = entries p" by simp
  then have "payload_bytes W p - payload_bytes W r = entries_payload W (entries l)"
    using cache_ok_payload [OF assms(2)] cache_ok_payload [of W r] lr(2)
    by (metis add_diff_cancel_right' entries_sums(3) page_of_simps(2))
  with lr j assms(4) show "page_ok W l" "page_ok W r"
    by (auto simp: page_ok_def cache_ok_def page_of_def)
qed

lemma split_oversized_spec:
  assumes "bt_sorted cmp (entries p)" "cache_ok W p" "entries p \<noteq> []"
    "length (entries p) \<le> Suc COW_MAP_MAX_SEGMENT_ENTRIES"
  shows "\<exists>ps. split_oversized_segment W cmp (length A) (A @ p # B) = A @ ps @ B \<and>
    flat ps = entries p \<and> list_all (page_ok W) ps"
proof -
  let ?p = "page_make_mut p"
  have nth: "(A @ p # B) ! length A = p" by simp
  show ?thesis
  proof (cases "length (entries ?p) \<le> 1 \<or> (length (entries ?p) \<le> COW_MAP_MAX_SEGMENT_ENTRIES \<and>
             page_estimated_bytes W ?p \<le> COW_MAP_TARGET_SEGMENT_BYTES)")
    case True
    then have "length (entries p) \<le> COW_MAP_MAX_SEGMENT_ENTRIES" by (auto simp: COW_MAP_MAX_SEGMENT_ENTRIES_def)
    with True assms nth show ?thesis
      by (intro exI [of _ "[?p]"]) (simp add: split_oversized_segment_def Let_def page_ok_def)
  next
    case False
    obtain l r where lr: "page_split_off W cmp (split_key W ?p) ?p = (l, r)" by (rule prod.exhaust)
    have "entries l @ entries r = entries p" "page_ok W l" "page_ok W r"
      using page_split_spec [of ?p W l r] lr assms False by auto
    with False nth lr show ?thesis
      by (intro exI [of _ "[l, r]"]) (auto simp: split_oversized_segment_def Let_def)
  qed
qed

section \<open>The operations on the flat map\<close>

lemma located_insert:
  assumes "pages_ok cmp (A @ p # B)"
    "\<forall>e \<in> set (flat A). cmp (fst e) k = Less" "\<forall>e \<in> set (flat B). cmp k (fst e) = Less"
  shows "bt_insert cmp k v (flat (A @ p # B)) = flat A @ bt_insert cmp k v (entries p) @ flat B"
proof -
  have "bt_sorted cmp (entries p @ flat B)"
    using assms(1) by (auto simp: pages_ok_def bt_sorted_append)
  moreover have "flat B = [] \<or> cmp k (fst (hd (flat B))) = Less" using assms(3) by (metis hd_in_set)
  ultimately have "bt_insert cmp k v (entries p @ flat B) = bt_insert cmp k v (entries p) @ flat B"
    by (rule bt_insert_append_left)
  with bt_insert_append_right [OF assms(2), of v "entries p @ flat B"] show ?thesis by simp
qed

lemma located_remove:
  assumes "\<forall>e \<in> set (flat A). cmp (fst e) k = Less" "\<forall>e \<in> set (flat B). cmp k (fst e) = Less"
    "bt_get cmp k (entries p) \<noteq> None"
  shows "bt_remove cmp k (flat (A @ p # B)) = flat A @ bt_remove cmp k (entries p) @ flat B"
proof -
  have "bt_get cmp k (flat A) = None"
    using assms(1) unfolding bt_get_None_iff by (metis cmp_Equal_rev ordering.distinct(1))
  with assms(3) show ?thesis by (auto simp: bt_remove_append)
qed

lemma cow_insert_spec:
  assumes ok: "cow_ok W cmp m" and room: "Suc (map_len m) \<le> usize_max"
  shows "fst (cow_insert W cmp k v m) = bt_get cmp k (cow_iter m)"
    and "cow_iter (snd (cow_insert W cmp k v m)) = bt_insert cmp k v (cow_iter m)"
    and "cow_ok W cmp (snd (cow_insert W cmp k v m))"
proof -
  note pok = cow_ok_pages [OF ok]
  have sorted: "bt_sorted cmp (cow_iter m)" using ok by (simp add: cow_ok_def)
  have "fst (cow_insert W cmp k v m) = bt_get cmp k (cow_iter m) \<and>
      cow_iter (snd (cow_insert W cmp k v m)) = bt_insert cmp k v (cow_iter m) \<and>
      cow_ok W cmp (snd (cow_insert W cmp k v m))"
  proof (cases "segment_index cmp k m")
    case None
    then have "segments m = []" by (auto simp: segment_index_def split: if_splits)
    then show ?thesis
      by (simp add: cow_insert_def None cow_iter_def cow_ok_def page_ok_def COW_MAP_MAX_SEGMENT_ENTRIES_def)
  next
    case (Some i)
    obtain A p B where l: "segments m = A @ p # B" "i = length A"
      "\<forall>e \<in> set (flat A). cmp (fst e) k = Less" "\<forall>e \<in> set (flat B). cmp k (fst e) = Less"
      by (rule locate [OF pok Some])
    from pok have srt: "bt_sorted cmp (entries p)" by (simp add: l(1) pages_ok_append pages_ok_Cons)
    have pages: "page_ok W p" "list_all (page_ok W) A" "list_all (page_ok W) B" using ok by (simp_all add: cow_ok_def l(1))
    obtain prev q where q: "page_insert W cmp k v (page_make_mut p) = (prev, q)" by (rule prod.exhaust)
    have qs: "prev = bt_get cmp k (entries p)" "entries q = bt_insert cmp k v (entries p)" "cache_ok W q"
      using page_insert_spec [of "page_make_mut p" W k v] srt pages(1) by (simp_all add: q page_ok_def)
    have "length (entries q) \<le> Suc COW_MAP_MAX_SEGMENT_ENTRIES" "entries q \<noteq> []" "bt_sorted cmp (entries q)"
      using length_bt_insert [OF srt, of k v] pages(1) bt_sorted_insert [OF srt] qs(2)
      by (auto simp: page_ok_def split: if_splits)
    then obtain ps where ps: "split_oversized_segment W cmp (length A) (A @ q # B) = A @ ps @ B"
        "flat ps = entries q" "list_all (page_ok W) ps"
      using split_oversized_spec [of q W A B] qs(3) by blast
    have m': "cow_insert W cmp k v m = (prev,
        \<lparr> segments = A @ ps @ B, map_len = (if prev = None then sat_add (map_len m) 1 else map_len m),
          delta_pressure = delta_pressure m - (case prev of None \<Rightarrow> 0 | Some old \<Rightarrow> pressure_of W old) + pressure_of W v \<rparr>)"
      using Some l(1,2) q ps(1) by (simp add: cow_insert_def Let_def)
    have get: "prev = bt_get cmp k (cow_iter m)"
      using located_get [OF l(3,4), of p] qs(1) l(1) by (simp add: cow_iter_def)
    have it: "cow_iter (snd (cow_insert W cmp k v m)) = bt_insert cmp k v (cow_iter m)"
      using located_insert [of A p B k v] pok l ps(2) qs(2) by (simp add: m' cow_iter_def)
    then have "cow_ok W cmp (snd (cow_insert W cmp k v m))"
      using ok bt_sorted_insert [OF sorted, of k v] length_bt_insert [OF sorted, of k v]
        insert_pressure [OF sorted, of W k v] pages ps(3) room
      unfolding cow_ok_def it by (auto simp: m' get sat_add_def)
    with get it show ?thesis by (simp add: m')
  qed
  then show "fst (cow_insert W cmp k v m) = bt_get cmp k (cow_iter m)"
    "cow_iter (snd (cow_insert W cmp k v m)) = bt_insert cmp k v (cow_iter m)"
    "cow_ok W cmp (snd (cow_insert W cmp k v m))" by auto
qed

lemma cow_remove_spec:
  assumes ok: "cow_ok W cmp m"
  shows "fst (cow_remove W cmp k m) = bt_get cmp k (cow_iter m) \<and>
    cow_iter (snd (cow_remove W cmp k m)) = bt_remove cmp k (cow_iter m) \<and>
    cow_ok W cmp (snd (cow_remove W cmp k m))"
proof (cases "bt_get cmp k (cow_iter m)")
  case None
  then have "cow_remove W cmp k m = (None, m)"
    using cow_get_flat [OF cow_ok_pages [OF ok], of k]
    by (auto simp: cow_remove_def cow_get_def bt_contains_def split: option.splits)
  with None ok show ?thesis by (simp add: bt_remove_absent)
next
  case (Some old)
  note pok = cow_ok_pages [OF ok]
  have sorted: "bt_sorted cmp (cow_iter m)" using ok by (simp add: cow_ok_def)
  from Some cow_get_flat [OF pok, of k] obtain i where i: "segment_index cmp k m = Some i"
    by (auto simp: cow_get_def split: option.splits)
  obtain A p B where l: "segments m = A @ p # B" "i = length A"
    "\<forall>e \<in> set (flat A). cmp (fst e) k = Less" "\<forall>e \<in> set (flat B). cmp k (fst e) = Less"
    by (rule locate [OF pok i])
  have get: "bt_get cmp k (entries p) = Some old"
    using located_get [OF l(3,4), of p] Some l(1) by (simp add: cow_iter_def)
  have pages: "page_ok W p" "list_all (page_ok W) A" "list_all (page_ok W) B" using ok by (simp_all add: cow_ok_def l(1))
  obtain q where q: "page_remove W cmp k (page_make_mut p) = (Some old, q)"
    using page_remove_spec [of W "page_make_mut p" k] pages(1) get
    by (cases "page_remove W cmp k (page_make_mut p)") (simp add: page_ok_def)
  have qs: "entries q = bt_remove cmp k (entries p)" "cache_ok W q"
    using page_remove_spec [of W "page_make_mut p" k] pages(1) by (simp_all add: q page_ok_def)
  let ?segs = "A @ (if entries q = [] then [] else [q]) @ B"
  have m': "cow_remove W cmp k m = (Some old,
      \<lparr> segments = ?segs, map_len = map_len m - 1, delta_pressure = delta_pressure m - pressure_of W old \<rparr>)"
    using i l(1,2) q get by (simp add: cow_remove_def Let_def bt_contains_def)
  have it: "cow_iter (snd (cow_remove W cmp k m)) = bt_remove cmp k (cow_iter m)"
    using located_remove [OF l(3,4), of p] get l(1) qs(1) by (auto simp: m' cow_iter_def)
  have "page_ok W q" if "entries q \<noteq> []"
    using that pages(1) qs remove_sums(3) [of cmp k "entries p"] by (auto simp: page_ok_def)
  then have "cow_ok W cmp (snd (cow_remove W cmp k m))"
    using ok bt_sorted_remove [OF sorted, of k] Some pages
    unfolding cow_ok_def it by (auto simp: m' remove_sums)
  with it Some show ?thesis by (simp add: m')
qed

lemma bt_update_absent: "bt_get cmp k m = None \<Longrightarrow> bt_update cmp k f m = m"
  by (induction m) (auto simp: bt_update_def split: if_splits)

lemma bt_update_sorted: "bt_sorted cmp (bt_update cmp k f m) \<longleftrightarrow> bt_sorted cmp m"
proof -
  have "map fst (bt_update cmp k f m) = map fst m" by (simp add: bt_update_def)
  then show ?thesis unfolding bt_sorted_keys by simp
qed

lemma bt_update_sums:
  "bt_sorted cmp m \<Longrightarrow> bt_get_key_value cmp k m = Some (s, old) \<Longrightarrow>
   entries_payload W (bt_update cmp k f m) =
     entries_payload W m - (key_bytes W s + value_bytes_of W old) + key_bytes W s + value_bytes_of W (f old) \<and>
   entries_pressure W (bt_update cmp k f m) =
     entries_pressure W m - pressure_of W old + pressure_of W (f old)"
proof (induction m)
  case (Cons e m)
  show ?case
  proof (cases "cmp k (fst e) = Equal")
    case True
    with Cons.prems have "bt_get cmp k m = None"
      by (simp add: bt_get_None_iff cmp_Equal_left [of k "fst e"])
    with bt_update_absent [OF this, of f] True Cons.prems show ?thesis
      by (auto simp: bt_update_def entry_payload_def)
  next
    case False
    with Cons have IH: "entries_payload W (bt_update cmp k f m) =
       entries_payload W m - (key_bytes W s + value_bytes_of W old) + key_bytes W s + value_bytes_of W (f old)"
      "entries_pressure W (bt_update cmp k f m) = entries_pressure W m - pressure_of W old + pressure_of W (f old)"
      "bt_get_key_value cmp k m = Some (s, old)" by auto
    from IH(3) have "key_bytes W s + value_bytes_of W old \<le> entries_payload W m" "pressure_of W old \<le> entries_pressure W m"
      using bt_get_payload_le [of cmp k m _ W] sum_le(2) [of "(s, old)" m W] bt_get_key_value_Some
      by (fastforce simp: entry_payload_def)+
    with IH False show ?thesis by (auto simp: bt_update_def)
  qed
qed simp

lemma cow_get_mut_spec:
  assumes ok: "cow_ok W cmp m"
  shows "(case cow_get_mut W cmp k f m of
      None \<Rightarrow> bt_get cmp k (cow_iter m) = None
    | Some m' \<Rightarrow> bt_get cmp k (cow_iter m) \<noteq> None \<and> cow_iter m' = bt_update cmp k f (cow_iter m) \<and> cow_ok W cmp m')"
proof (cases "bt_get cmp k (cow_iter m)")
  case None
  then have "cow_get_mut W cmp k f m = None"
    using cow_get_flat [OF cow_ok_pages [OF ok], of k]
    by (auto simp: cow_get_mut_def cow_get_def split: option.splits dest: bt_get_key_value_Some)
  with None show ?thesis by simp
next
  case (Some old)
  note pok = cow_ok_pages [OF ok]
  have sorted: "bt_sorted cmp (cow_iter m)" using ok by (simp add: cow_ok_def)
  from Some cow_get_flat [OF pok, of k] obtain i where i: "segment_index cmp k m = Some i"
    by (auto simp: cow_get_def split: option.splits)
  obtain A p B where l: "segments m = A @ p # B" "i = length A"
    "\<forall>e \<in> set (flat A). cmp (fst e) k = Less" "\<forall>e \<in> set (flat B). cmp k (fst e) = Less"
    by (rule locate [OF pok i])
  have get: "bt_get cmp k (entries p) = Some old"
    using located_get [OF l(3,4), of p] Some l(1) by (simp add: cow_iter_def)
  then obtain s where kv: "bt_get_key_value cmp k (entries p) = Some (s, old)"
    using bt_get_key_value_None [of cmp k "entries p"] bt_get_key_value_Some [of cmp k "entries p"]
    by (cases "bt_get_key_value cmp k (entries p)") auto
  have pages: "page_ok W p" "list_all (page_ok W) A" "list_all (page_ok W) B" using ok by (simp_all add: cow_ok_def l(1))
  let ?q = "(page_make_mut p)\<lparr>entries := bt_update cmp k f (entries p),
      page_bytes := Some (payload_bytes W p - (key_bytes W s + value_bytes_of W old) + key_bytes W s + value_bytes_of W (f old)),
      epoch_bounds := None\<rparr>"
  have m': "cow_get_mut W cmp k f m = Some (m\<lparr>segments := A @ ?q # B,
      delta_pressure := delta_pressure m - pressure_of W old + pressure_of W (f old)\<rparr>)"
    using i l(1,2) kv by (simp add: cow_get_mut_def Let_def)
  have "bt_get cmp k (flat A) = None" "bt_get cmp k (flat B) = None"
    using l(3,4) unfolding bt_get_None_iff by (metis cmp_Equal_rev ordering.distinct(1))+
  then have "bt_update cmp k f (flat A) = flat A" "bt_update cmp k f (flat B) = flat B"
    by (simp_all add: bt_update_absent)
  then have it: "flat (A @ ?q # B) = bt_update cmp k f (cow_iter m)"
    by (simp add: cow_iter_def l(1) bt_update_def)
  have kvm: "bt_get_key_value cmp k (cow_iter m) = Some (s, old)"
    using \<open>bt_get cmp k (flat A) = None\<close> kv
    by (simp add: cow_iter_def l(1) bt_get_key_value_append bt_get_key_value_None [symmetric])
  have "bt_sorted cmp (entries p)" using pok by (simp add: l(1) pages_ok_append pages_ok_Cons)
  from bt_update_sums [OF this kv, of W f] pages(1) have "page_ok W ?q"
    using cache_ok_payload [of W p] by (simp add: page_ok_def cache_ok_def bt_update_def)
  moreover have "length (bt_update cmp k f (cow_iter m)) = length (cow_iter m)" by (simp add: bt_update_def)
  ultimately have "cow_ok W cmp (m\<lparr>segments := A @ ?q # B,
      delta_pressure := delta_pressure m - pressure_of W old + pressure_of W (f old)\<rparr>)"
    using ok pages bt_update_sums [OF sorted kvm, of W f] it
    by (simp add: cow_ok_def cow_iter_def bt_update_sorted)
  with it Some show ?thesis by (simp add: m' cow_iter_def)
qed

end

section \<open>Bulk operations\<close>

lemma bt_retain_append:
  "bt_retain keep s (m @ n) =
     (let (m', s1) = bt_retain keep s m; (n', s2) = bt_retain keep s1 n in (m' @ n', s2))"
proof (induction m arbitrary: s)
  case (Cons e m)
  obtain k v where e: "e = (k, v)" by (rule prod.exhaust)
  obtain b v' s1 where "keep s k v = (b, v', s1)" by (rule prod_cases3)
  with Cons [of s1] show ?case by (simp add: e Let_def split: prod.splits)
qed simp

lemma bt_retain_keys: "fst ` set (fst (bt_retain keep s m)) \<subseteq> fst ` set m \<and> length (fst (bt_retain keep s m)) \<le> length m"
proof (induction m arbitrary: s)
  case (Cons e m)
  obtain k v where e: "e = (k, v)" by (rule prod.exhaust)
  obtain b v' s1 where k: "keep s k v = (b, v', s1)" by (rule prod_cases3)
  obtain m' s2 where "bt_retain keep s1 m = (m', s2)" by (rule prod.exhaust)
  with Cons [of s1] show ?case by (auto simp: e k)
qed simp

lemma bt_retain_sorted: "bt_sorted c m \<Longrightarrow> bt_sorted c (fst (bt_retain keep s m))"
proof (induction m arbitrary: s)
  case (Cons e m)
  obtain k v where e: "e = (k, v)" by (rule prod.exhaust)
  obtain b v' s1 where k: "keep s k v = (b, v', s1)" by (rule prod_cases3)
  obtain m' s2 where m': "bt_retain keep s1 m = (m', s2)" by (rule prod.exhaust)
  have "c k (fst x) = Less" if x: "x \<in> set m'" for x
  proof -
    from x bt_retain_keys [of keep s1 m] have "fst x \<in> fst ` set m" by (auto simp: m')
    with Cons.prems show ?thesis by (auto simp: e)
  qed
  with Cons m' show ?case by (auto simp: e k Let_def dest: Cons.IH [of s1])
qed simp

lemma retain_loop_spec:
  assumes "retain_loop W keep s ps len pressure = (ps', len', pressure', s')"
    and "len = a + length (flat ps)" "pressure = b + entries_pressure W (flat ps)"
    and "\<forall>p \<in> set ps. length (entries p) \<le> COW_MAP_MAX_SEGMENT_ENTRIES"
  shows "bt_retain keep s (flat ps) = (flat ps', s') \<and> len' = a + length (flat ps') \<and>
    pressure' = b + entries_pressure W (flat ps') \<and>
    (\<forall>p \<in> set ps'. cache_ok W p \<and> length (entries p) \<le> COW_MAP_MAX_SEGMENT_ENTRIES)"
  using assms
proof (induction ps arbitrary: s len pressure a b ps' len' pressure' s')
  case (Cons p ps)
  obtain es s1 where es: "bt_retain keep s (entries p) = (es, s1)" by (rule prod.exhaust)
  let ?len = "len - length (entries p) + length es"
  let ?pr = "pressure - entries_pressure W (entries p) + entries_pressure W es"
  obtain qs len2 pr2 s2 where r: "retain_loop W keep s1 ps ?len ?pr = (qs, len2, pr2, s2)" by (rule prod_cases4)
  let ?q = "(page_deref_mut (page_make_mut p))\<lparr>entries := es\<rparr>"
  have out: "ps' = ?q # qs" "len' = len2" "pressure' = pr2" "s' = s2"
    using Cons.prems(1) r es by (auto simp: Let_def entries_pressure_def)
  have "bt_retain keep s1 (flat ps) = (flat qs, s2) \<and> len2 = (a + length es) + length (flat qs) \<and>
      pr2 = (b + entries_pressure W es) + entries_pressure W (flat qs) \<and>
      (\<forall>p \<in> set qs. cache_ok W p \<and> length (entries p) \<le> COW_MAP_MAX_SEGMENT_ENTRIES)"
    using Cons.prems(2-4) by (intro Cons.IH [OF r]) auto
  moreover have "length es \<le> COW_MAP_MAX_SEGMENT_ENTRIES"
    using bt_retain_keys [of keep s "entries p"] es Cons.prems(4) by auto
  ultimately show ?case
    by (simp add: out es bt_retain_append cache_ok_def page_deref_mut_def)
qed simp

lemma flat_filter: "flat (filter (\<lambda>p. entries p \<noteq> []) ps) = flat ps"
  by (induction ps) auto

lemma cow_retain_spec:
  assumes "cow_ok W c m"
  shows "cow_iter (fst (cow_retain W keep s m)) = fst (bt_retain keep s (cow_iter m)) \<and>
    snd (cow_retain W keep s m) = snd (bt_retain keep s (cow_iter m)) \<and>
    cow_ok W c (fst (cow_retain W keep s m))"
proof -
  obtain ps len pressure s' where r: "retain_loop W keep s (segments m) (map_len m) (delta_pressure m) =
      (ps, len, pressure, s')" by (rule prod_cases4)
  have spec: "bt_retain keep s (flat (segments m)) = (flat ps, s')" "len = length (flat ps)"
      "pressure = entries_pressure W (flat ps)"
      "\<forall>p \<in> set ps. cache_ok W p \<and> length (entries p) \<le> COW_MAP_MAX_SEGMENT_ENTRIES"
    using retain_loop_spec [OF r, of 0 0] assms by (auto simp: cow_ok_def cow_iter_def page_ok_def list_all_iff)
  have "bt_sorted c (flat ps)"
    using bt_retain_sorted [of c "flat (segments m)" keep s] assms spec(1) by (simp add: cow_ok_def cow_iter_def)
  with spec show ?thesis
    by (auto simp: cow_retain_def r cow_iter_def flat_filter cow_ok_def page_ok_def list_all_iff)
qed

context rust_ord
begin

lemma ordered_loop_spec:
  assumes "bt_sorted cmp (flat pages @ seg @ es)" "list_all (page_ok W) pages"
    and "length seg \<le> COW_MAP_MAX_SEGMENT_ENTRIES" "n = length (flat pages @ seg)"
    and "pressure = entries_pressure W (flat pages @ seg)"
  shows "cow_iter (ordered_loop W cmp es pages seg sb n pressure) = flat pages @ seg @ es \<and>
    cow_ok W cmp (ordered_loop W cmp es pages seg sb n pressure)"
  using assms
proof (induction es arbitrary: pages seg sb n pressure)
  case Nil
  then show ?case by (auto simp: cow_iter_def cow_ok_def page_ok_def list_all_iff)
next
  case (Cons e es)
  obtain k v where e: "e = (k, v)" by (rule prod.exhaust)
  define entry where "entry = cow_map_entry_bytes W k v"
  define full where "full \<longleftrightarrow> seg \<noteq> [] \<and> (length seg \<ge> COW_MAP_MAX_SEGMENT_ENTRIES \<or>
                   sat_add sb entry > COW_MAP_TARGET_SEGMENT_BYTES)"
  define pages' seg' where "pages' = (if full then pages @ [page_of seg] else pages)"
    and "seg' = (if full then [] else seg)"
  have same: "flat pages' @ seg' = flat pages @ seg" by (simp add: pages'_def seg'_def)
  have pok: "list_all (page_ok W) pages'" using Cons.prems(2,3) by (auto simp: pages'_def full_def page_ok_def list_all_iff)
  have seg': "length seg' < COW_MAP_MAX_SEGMENT_ENTRIES"
    using Cons.prems(3) by (auto simp: seg'_def full_def COW_MAP_MAX_SEGMENT_ENTRIES_def)
  have srt: "bt_sorted cmp ((flat pages' @ seg') @ e # es)" using Cons.prems(1) unfolding same by simp
  then have below: "\<forall>x \<in> set seg'. cmp (fst x) k = Less" by (auto simp: bt_sorted_append e)
  have ins: "bt_insert cmp k v seg' = seg' @ [e]"
    using bt_insert_append_right [OF below, of v "[]"] by (simp add: e)
  have step: "ordered_loop W cmp (e # es) pages seg sb n pressure =
      ordered_loop W cmp es pages' (bt_insert cmp k v seg') (sat_add (if full then 0 else sb) entry) (n + 1)
        (pressure + pressure_of W v)"
    by (simp add: e pages'_def seg'_def full_def entry_def Let_def)
  have eq: "flat pages' @ (seg' @ [e]) @ es = flat pages @ seg @ e # es"
    using same by (metis append.assoc append_Cons append_Nil)
  have "cow_iter (ordered_loop W cmp (e # es) pages seg sb n pressure) = flat pages' @ (seg' @ [e]) @ es \<and>
      cow_ok W cmp (ordered_loop W cmp (e # es) pages seg sb n pressure)"
    unfolding step ins
  proof (rule Cons.IH)
    show "bt_sorted cmp (flat pages' @ (seg' @ [e]) @ es)" unfolding eq by (rule Cons.prems(1))
    show "length (seg' @ [e]) \<le> COW_MAP_MAX_SEGMENT_ENTRIES" using seg' by simp
    show "n + 1 = length (flat pages' @ seg' @ [e])"
      "pressure + pressure_of W v = entries_pressure W (flat pages' @ seg' @ [e])"
      using Cons.prems(4,5) same [THEN arg_cong, of length] same [THEN arg_cong, of "entries_pressure W"]
      by (simp_all add: e)
  qed (rule pok)
  then show ?case unfolding eq .
qed

lemma from_ordered_entries_spec:
  "bt_sorted cmp es \<Longrightarrow> cow_iter (from_ordered_entries W cmp es) = es \<and> cow_ok W cmp (from_ordered_entries W cmp es)"
  using ordered_loop_spec [of "[]" "[]" es W 0 0 0] by (simp add: from_ordered_entries_def)

lemma rebalance_key_spec:
  assumes "cow_ok W cmp m"
  shows "cow_iter (rebalance_key W cmp k m) = cow_iter m \<and> cow_ok W cmp (rebalance_key W cmp k m)"
proof (cases "segment_index cmp k m")
  case None
  with assms show ?thesis by (simp add: rebalance_key_def)
next
  case (Some i)
  note pok = cow_ok_pages [OF assms]
  obtain A p B where l: "segments m = A @ p # B" "i = length A" by (rule locate [OF pok Some])
  have pages: "page_ok W p" "list_all (page_ok W) A" "list_all (page_ok W) B" using assms by (simp_all add: cow_ok_def l(1))
  then obtain ps where ps: "split_oversized_segment W cmp (length A) (A @ p # B) = A @ ps @ B"
      "flat ps = entries p" "list_all (page_ok W) ps"
    using split_oversized_spec [of p W A B] pok by (auto simp: page_ok_def l(1) pages_ok_append pages_ok_Cons)
  with Some l pages assms show ?thesis by (simp add: rebalance_key_def cow_iter_def cow_ok_def)
qed

lemma cow_clone_spec: "cow_iter (cow_clone m) = cow_iter m" "cow_ok W cmp (cow_clone m) = cow_ok W cmp m"
proof -
  show it: "cow_iter (cow_clone m) = cow_iter m" by (simp add: cow_iter_def cow_clone_def comp_def)
  have "list_all (page_ok W) (segments (cow_clone m)) = list_all (page_ok W) (segments m)"
    by (simp add: cow_clone_def list_all_iff page_ok_def cache_ok_def)
  then show "cow_ok W cmp (cow_clone m) = cow_ok W cmp m" by (simp add: cow_ok_def it) (simp add: cow_clone_def)
qed

section \<open>Seeks and ranges\<close>

lemma first_key_bounds:
  assumes "bt_sorted cmp (entries p)" "e \<in> set (entries p)"
  shows "cmp (fst (hd (entries p))) (fst e) \<noteq> Greater"
  using assms by (cases "entries p") (auto simp: cmp_refl)

text \<open>The pages skipped in front hold only keys below, those cut off behind only keys above.\<close>

lemma skipped_pages:
  assumes "pages_ok cmp segs" "\<And>a b. cmp a b \<noteq> Greater \<Longrightarrow> P b \<Longrightarrow> P a"
    "e \<in> set (flat (take (partition_point (last_key_is P) segs) segs))"
  shows "P (fst e)"
proof -
  let ?n = "length (takeWhile (last_key_is P) segs)"
  from assms(3) obtain p where p: "p \<in> set (take ?n segs)" "e \<in> set (entries p)"
    by (auto simp: partition_point_def)
  then have "last_key_is P p" by (metis set_takeWhileD takeWhile_eq_take)
  moreover have "bt_sorted cmp (entries p)"
    using assms(1) p(1) [THEN in_set_takeD] by (auto simp: pages_ok_def in_set_conv_decomp bt_sorted_append)
  ultimately show ?thesis
    using p(2) assms(2) last_key_bounds [of p e] by (auto simp: last_key_is_def split: if_splits)
qed

lemma pages_behind:
  assumes "pages_ok cmp segs" "\<And>a b. cmp a b \<noteq> Greater \<Longrightarrow> P b \<Longrightarrow> P a"
    "e \<in> set (flat (drop (partition_point (first_key_is P) segs) segs))"
  shows "\<not> P (fst e)"
proof -
  let ?n = "length (takeWhile (first_key_is P) segs)"
  have "drop ?n segs \<noteq> []" using assms(3) by (auto simp: partition_point_def)
  then have n: "?n < length segs" by simp
  define p B where "p = segs ! ?n" and "B = drop (Suc ?n) segs"
  have seg: "drop ?n segs = p # B" unfolding p_def B_def using n by (simp add: Cons_nth_drop_Suc)
  have "\<not> first_key_is P p" unfolding p_def using n by (metis nth_length_takeWhile)
  have pok: "pages_ok cmp (p # B)" using assms(1) seg by (metis append_take_drop_id pages_ok_append)
  then have ne: "entries p \<noteq> []" and srt: "bt_sorted cmp (entries p)" by (simp_all add: pages_ok_Cons)
  have "cmp (fst (hd (entries p))) (fst e) \<noteq> Greater"
  proof (cases "e \<in> set (entries p)")
    case True
    then show ?thesis by (rule first_key_bounds [OF srt])
  next
    case False
    then have "e \<in> set (flat B)" using assms(3) seg by (auto simp: partition_point_def)
    with pok ne have "cmp (fst (hd (entries p))) (fst e) = Less"
      unfolding pages_ok_Cons by (meson hd_in_set)
    then show ?thesis by simp
  qed
  with \<open>\<not> first_key_is P p\<close> ne assms(2) show ?thesis by (auto simp: first_key_is_def)
qed

lemma flat_split: "flat segs = flat (take n segs) @ flat (drop n segs)"
  by (metis append_take_drop_id concat_append map_append)

lemma concat_filter: "concat (map (\<lambda>p. filter Q (entries p)) segs) = filter Q (flat segs)"
  by (induction segs) auto

lemma filter_flat_split: "filter Q (flat segs) = filter Q (flat (take n segs)) @ filter Q (flat (drop n segs))"
  by (metis flat_split filter_append)

lemma filter_skip:
  "(\<And>e. e \<in> set (flat (take n segs)) \<Longrightarrow> \<not> Q e) \<Longrightarrow> filter Q (flat (drop n segs)) = filter Q (flat segs)"
  using filter_flat_split [of Q segs n] by (simp add: filter_empty_conv)

lemma cow_iter_after_spec:
  assumes "pages_ok cmp (segments m)"
  shows "cow_iter_after cmp after m =
    filter (\<lambda>e. case after of None \<Rightarrow> True | Some a \<Rightarrow> cmp (fst e) a = Greater) (cow_iter m)"
proof (cases "Option.bind after (\<lambda>k. segment_index cmp k m)")
  case None
  then show ?thesis by (simp add: cow_iter_after_def cow_iter_def concat_filter)
next
  case (Some i)
  then obtain k where k: "after = Some k" "segment_index cmp k m = Some i" by (cases after) auto
  obtain A p B where l: "segments m = A @ p # B" "i = length A" "\<forall>e \<in> set (flat A). cmp (fst e) k = Less"
    by (rule locate [OF assms k(2)])
  have "filter (\<lambda>e. cmp (fst e) k = Greater) (flat (drop i (segments m))) =
      filter (\<lambda>e. cmp (fst e) k = Greater) (flat (segments m))"
    using l by (intro filter_skip) fastforce
  then show ?thesis using k by (simp add: cow_iter_after_def cow_iter_def concat_filter)
qed

lemma cow_range_spec:
  assumes "pages_ok cmp (segments m)" "cmp lo hi \<noteq> Greater"
  shows "cow_range cmp lo hi m =
    Some (filter (\<lambda>e. cmp (fst e) lo \<noteq> Less \<and> cmp (fst e) hi \<noteq> Greater) (cow_iter m))"
proof -
  let ?S = "segments m" and ?Q = "\<lambda>e. cmp (fst e) lo \<noteq> Less \<and> cmp (fst e) hi \<noteq> Greater"
  let ?lo = "last_key_is (\<lambda>k. cmp k lo = Less)" and ?hi = "first_key_is (\<lambda>k. cmp k hi \<noteq> Greater)"
  let ?s = "partition_point ?lo ?S" and ?e = "partition_point ?hi ?S"
  have page: "?hi p" if "p \<in> set ?S" "?lo p" for p
  proof -
    from that(1) assms(1) have "bt_sorted cmp (entries p)"
      by (auto simp: pages_ok_def in_set_conv_decomp bt_sorted_append)
    with that(2) last_key_bounds [of p "hd (entries p)"] have "cmp (fst (hd (entries p))) lo = Less" "entries p \<noteq> []"
      by (auto simp: last_key_is_def split: if_splits intro: cmp_le_lt_trans)
    with assms(2) show ?thesis by (simp add: first_key_is_def cmp_lt_le_trans)
  qed
  have "length (takeWhile P xs) \<le> length (takeWhile Q xs)" if "\<And>x. x \<in> set xs \<Longrightarrow> P x \<Longrightarrow> Q x"
    for P Q :: "('a, 'b) cow_page \<Rightarrow> bool" and xs
    using that by (induction xs) auto
  then have le: "?s \<le> ?e" using page by (auto simp: partition_point_def)
  have front: "\<not> ?Q e" if "e \<in> set (flat (take ?s ?S))" for e
    using skipped_pages [OF assms(1) _ that] cmp_le_lt_trans by auto
  have "\<not> ?Q e" if "e \<in> set (flat (drop ?e ?S))" for e
    using pages_behind [OF assms(1) _ that] cmp_le_trans by metis
  then have "filter ?Q (flat (take ?e ?S)) = filter ?Q (flat ?S)"
    using filter_flat_split [of ?Q ?S ?e] by (simp add: filter_empty_conv)
  moreover have "filter ?Q (flat (drop ?s (take ?e ?S))) = filter ?Q (flat (take ?e ?S))"
    using front le by (intro filter_skip) (simp add: min_absorb1)
  ultimately show ?thesis
    using assms(2) le by (simp add: cow_range_def Let_def concat_filter cow_iter_def)
qed

lemma find_filter: "List.find Q xs = (case filter Q xs of [] \<Rightarrow> None | e # _ \<Rightarrow> Some e)"
  by (induction xs) auto

lemma find_pages:
  "(case List.find (\<lambda>p. List.find Q (entries p) \<noteq> None) segs of None \<Rightarrow> None | Some p \<Rightarrow> List.find Q (entries p)) =
     List.find Q (flat segs)"
proof (induction segs)
  case (Cons p segs)
  have "List.find Q (xs @ ys) = (case List.find Q xs of None \<Rightarrow> List.find Q ys | Some e \<Rightarrow> Some e)" for xs ys
    by (induction xs) auto
  with Cons show ?case by (auto split: option.splits)
qed simp

lemma first_after_spec:
  assumes "pages_ok cmp (segments m)"
  shows "first_after cmp lower m =
    List.find (\<lambda>e. case lower of None \<Rightarrow> True | Some lo \<Rightarrow> cmp (fst e) lo = Greater) (cow_iter m)"
proof (cases lower)
  case None
  have "(if es = [] then None else Some (hd es)) = List.find (\<lambda>e. True) es" for es :: "('a \<times> 'b) list"
    by (cases es) auto
  then show ?thesis
    using find_pages [of "\<lambda>e. True" "segments m"] None by (simp add: first_after_def cow_iter_def)
next
  case (Some lo)
  let ?n = "partition_point (last_key_is (\<lambda>k. cmp k lo \<noteq> Greater)) (segments m)"
  have "\<not> cmp (fst e) lo = Greater" if "e \<in> set (flat (take ?n (segments m)))" for e
    using skipped_pages [OF assms _ that] cmp_le_trans by metis
  then have "filter (\<lambda>e. cmp (fst e) lo = Greater) (flat (drop ?n (segments m))) =
      filter (\<lambda>e. cmp (fst e) lo = Greater) (flat (segments m))"
    by (intro filter_skip) auto
  then have "List.find (\<lambda>e. cmp (fst e) lo = Greater) (flat (drop ?n (segments m))) =
      List.find (\<lambda>e. cmp (fst e) lo = Greater) (flat (segments m))"
    by (simp only: find_filter)
  then show ?thesis
    using find_pages [of "\<lambda>e. cmp (fst e) lo = Greater" "drop ?n (segments m)"] Some
    by (simp add: first_after_def Let_def cow_iter_def)
qed

lemma entry_or_default_spec:
  assumes "cow_ok W cmp m" "Suc (map_len m) \<le> usize_max"
  shows "\<exists>m'. entry_or_default W cmp d k f m = Some m' \<and> cow_ok W cmp m' \<and>
    cow_iter m' = bt_update cmp k f
      (if bt_contains cmp k (cow_iter m) then cow_iter m else bt_insert cmp k d (cow_iter m))"
proof -
  let ?m = "if cow_contains cmp k m then m else snd (cow_insert W cmp k d m)"
  have sorted: "bt_sorted cmp (cow_iter m)" using assms(1) by (simp add: cow_ok_def)
  have "cow_contains cmp k m = bt_contains cmp k (cow_iter m)"
    by (simp add: cow_contains_def bt_contains_def cow_get_flat [OF cow_ok_pages [OF assms(1)]])
  then have m: "cow_ok W cmp ?m"
    "cow_iter ?m = (if bt_contains cmp k (cow_iter m) then cow_iter m else bt_insert cmp k d (cow_iter m))"
    using assms cow_insert_spec [OF assms, of k d] by simp_all
  then have "bt_get cmp k (cow_iter ?m) \<noteq> None"
    by (simp add: bt_get_insert [OF sorted] cmp_refl bt_contains_def)
  with cow_get_mut_spec [OF m(1), of k f] m(2) show ?thesis
    by (auto simp: entry_or_default_def split: option.splits)
qed

end

section \<open>Properties\<close>

text \<open>
  C6. The segmented map refines one ordered map. On a well-formed map, every operation acts on the
  concatenation of the pages as the \<open>BTreeMap\<close> operation does, and returns what it returns: \<open>get\<close>,
  \<open>insert\<close> (which keeps the resident key), \<open>remove\<close>, the mutation through \<open>get_mut\<close> and
  \<open>entry_or_default\<close>, \<open>retain\<close>, \<open>rebalance_key\<close> and the bulk construction from ordered entries.
\<close>

theorem cow_map_refines:
  assumes "rust_ord c" "cow_ok W c m" "Suc (map_len m) \<le> usize_max"
  shows "cow_get c k m = bt_get c k (cow_iter m) \<and>
    (case cow_insert W c k v m of (r, m') \<Rightarrow>
       r = bt_get c k (cow_iter m) \<and> cow_iter m' = bt_insert c k v (cow_iter m)) \<and>
    (case cow_remove W c k m of (r, m') \<Rightarrow>
       r = bt_get c k (cow_iter m) \<and> cow_iter m' = bt_remove c k (cow_iter m)) \<and>
    map_option cow_iter (cow_get_mut W c k f m) =
      (if bt_get c k (cow_iter m) = None then None else Some (bt_update c k f (cow_iter m))) \<and>
    map_option cow_iter (entry_or_default W c d k f m) =
      Some (bt_update c k f (if bt_contains c k (cow_iter m) then cow_iter m else bt_insert c k d (cow_iter m))) \<and>
    map_prod cow_iter id (cow_retain W keep s m) = bt_retain keep s (cow_iter m) \<and>
    cow_iter (rebalance_key W c k m) = cow_iter m \<and>
    (bt_sorted c es \<longrightarrow> cow_iter (from_ordered_entries W c es) = es)"
  using rust_ord.cow_get_flat [OF assms(1) cow_ok_pages [OF assms(2)], of k]
    rust_ord.cow_insert_spec [OF assms, of k v] rust_ord.cow_remove_spec [OF assms(1,2), of k]
    rust_ord.cow_get_mut_spec [OF assms(1,2), of k f] rust_ord.entry_or_default_spec [OF assms, of d k f]
    cow_retain_spec [OF assms(2), of keep s] rust_ord.rebalance_key_spec [OF assms(1,2), of k]
    rust_ord.from_ordered_entries_spec [OF assms(1), of es W]
  by (auto simp: prod_eq_iff split: prod.splits option.splits)

theorem cow_map_refines_witness:
  "\<exists>m. cow_ok \<lparr>key_bytes = \<lambda>_. 8, value_bytes_of = \<lambda>_. 8, pressure_of = id\<rparr> cmp_lin m \<and>
     cow_iter m = [(1, 10), (3, 30)] \<and>
     cow_get cmp_lin (3 :: nat) m = Some (30 :: nat) \<and>
     cow_iter (snd (cow_insert \<lparr>key_bytes = \<lambda>_. 8, value_bytes_of = \<lambda>_. 8, pressure_of = id\<rparr> cmp_lin 2 20 m)) =
       [(1, 10), (2, 20), (3, 30)]"
proof -
  let ?W = "\<lparr>key_bytes = \<lambda>_ :: nat. 8, value_bytes_of = \<lambda>_ :: nat. 8, pressure_of = id\<rparr>"
  let ?m = "from_ordered_entries ?W cmp_lin [(1 :: nat, 10 :: nat), (3, 30)]"
  have o: "rust_ord (cmp_lin :: nat \<Rightarrow> nat \<Rightarrow> ordering)" by unfold_locales
  have spec: "cow_iter ?m = [(1, 10), (3, 30)]" "cow_ok ?W cmp_lin ?m"
    using rust_ord.from_ordered_entries_spec [OF o, of "[(1, 10), (3, 30)]" ?W] by (simp_all add: cmp_lin_def)
  then have "map_len ?m = 2" by (simp add: cow_ok_def)
  then have "Suc (map_len ?m) \<le> usize_max" by (simp add: usize_max_def)
  from cow_map_refines [OF o spec(2) this, of 3 0 id 0 "\<lambda>s k v. (True, v, s)" "()" "[]"]
    cow_map_refines [OF o spec(2) this, of 2 20 id 0 "\<lambda>s k v. (True, v, s)" "()" "[]"] spec
  show ?thesis by (intro exI [of _ ?m]) (auto simp: cmp_lin_def split: prod.splits)
qed

text \<open>
  C16. Every operation keeps the well-formedness of the segmented map: entries in ascending key order
  across pages, no empty page, at most 512 entries in a page, every cached page size equal to the sum
  of its entries' weights, and the maintained entry count and pressure equal to the actual ones
  (so that no subtraction of the accounting underflows).
\<close>

theorem cow_map_invariant:
  assumes "rust_ord c" "cow_ok W c m" "Suc (map_len m) \<le> usize_max"
  shows "cow_ok W c cow_empty \<and>
    cow_ok W c (snd (cow_insert W c k v m)) \<and>
    cow_ok W c (snd (cow_remove W c k m)) \<and>
    pred_option (cow_ok W c) (cow_get_mut W c k f m) \<and>
    pred_option (cow_ok W c) (entry_or_default W c d k f m) \<and>
    cow_ok W c (fst (cow_retain W keep s m)) \<and>
    cow_ok W c (rebalance_key W c k m) \<and>
    cow_ok W c (cow_clone m) \<and>
    (bt_sorted c es \<longrightarrow> cow_ok W c (from_ordered_entries W c es))"
  using assms(2) rust_ord.cow_insert_spec [OF assms, of k v] rust_ord.cow_remove_spec [OF assms(1,2), of k]
    rust_ord.cow_get_mut_spec [OF assms(1,2), of k f] rust_ord.entry_or_default_spec [OF assms, of d k f]
    cow_retain_spec [OF assms(2), of keep s] rust_ord.rebalance_key_spec [OF assms(1,2), of k]
    rust_ord.from_ordered_entries_spec [OF assms(1), of es W] rust_ord.cow_clone_spec(2) [OF assms(1), of W m]
  by (auto simp: cow_empty_def cow_iter_def cow_ok_def split: option.splits)

theorem cow_map_invariant_witness:
  "cow_ok \<lparr>key_bytes = \<lambda>_. 8, value_bytes_of = \<lambda>_. 8, pressure_of = id\<rparr> (cmp_lin :: nat \<Rightarrow> nat \<Rightarrow> ordering)
     (snd (cow_insert \<lparr>key_bytes = \<lambda>_. 8, value_bytes_of = \<lambda>_. 8, pressure_of = id\<rparr> cmp_lin 2 20 cow_empty))"
proof -
  let ?W = "\<lparr>key_bytes = \<lambda>_ :: nat. 8, value_bytes_of = \<lambda>_ :: nat. 8, pressure_of = id\<rparr>"
  have "rust_ord (cmp_lin :: nat \<Rightarrow> nat \<Rightarrow> ordering)" by unfold_locales
  moreover have "cow_ok ?W cmp_lin cow_empty" by (simp add: cow_empty_def cow_ok_def cow_iter_def)
  moreover have "Suc (map_len (cow_empty :: (nat, nat) cow_map)) \<le> usize_max"
    by (simp add: cow_empty_def usize_max_def)
  ultimately show ?thesis
    using cow_map_invariant [of cmp_lin ?W cow_empty 2 20 id 0 "\<lambda>s k v. (True, v, s)" "()" "[]"] by blast
qed

text \<open>
  C30. Seeks visit the right interval: on a well-formed map \<open>range\<close> returns exactly the entries between
  its bounds in order and never slices backwards, \<open>iter_after\<close> exactly the entries above its key, and
  \<open>first_after\<close> the first entry above its key; an inverted interval panics.
\<close>

theorem cow_map_seek:
  assumes "rust_ord c" "cow_ok W c m"
  shows "cow_range c lo hi m =
      (if c lo hi = Greater then None
       else Some (filter (\<lambda>e. c (fst e) lo \<noteq> Less \<and> c (fst e) hi \<noteq> Greater) (cow_iter m))) \<and>
    cow_iter_after c (Some k) m = filter (\<lambda>e. c (fst e) k = Greater) (cow_iter m) \<and>
    first_after c (Some k) m = List.find (\<lambda>e. c (fst e) k = Greater) (cow_iter m) \<and>
    first_after c None m = List.find (\<lambda>_. True) (cow_iter m)"
  using rust_ord.cow_range_spec [OF assms(1) cow_ok_pages [OF assms(2)], of lo hi]
    rust_ord.cow_iter_after_spec [OF assms(1) cow_ok_pages [OF assms(2)], of "Some k"]
    rust_ord.first_after_spec [OF assms(1) cow_ok_pages [OF assms(2)], of "Some k"]
    rust_ord.first_after_spec [OF assms(1) cow_ok_pages [OF assms(2)], of None]
  by (auto simp: cow_range_def)

theorem cow_map_seek_witness:
  "\<exists>m. cow_iter m = [(1, 10), (3, 30), (5, 50)] \<and>
     cow_range cmp_lin 2 (5 :: nat) m = Some [(3, 30), (5, 50 :: nat)]"
proof -
  let ?W = "\<lparr>key_bytes = \<lambda>_ :: nat. 8, value_bytes_of = \<lambda>_ :: nat. 8, pressure_of = id\<rparr>"
  let ?m = "from_ordered_entries ?W cmp_lin [(1 :: nat, 10 :: nat), (3, 30), (5, 50)]"
  have o: "rust_ord (cmp_lin :: nat \<Rightarrow> nat \<Rightarrow> ordering)" by unfold_locales
  have spec: "cow_iter ?m = [(1, 10), (3, 30), (5, 50)]" "cow_ok ?W cmp_lin ?m"
    using rust_ord.from_ordered_entries_spec [OF o, of "[(1, 10), (3, 30), (5, 50)]" ?W] by (simp_all add: cmp_lin_def)
  from cow_map_seek [OF o spec(2), of 2 5] spec(1) show ?thesis
    by (intro exI [of _ ?m]) (simp add: cmp_lin_def)
qed

end
