(* ===== verification/Version_Key.thy ===== *)
theory Version_Key
  imports Graph_Value Cow_Map
begin

text \<open>
  The identities of optimistic transaction validation (\<open>VersionKey\<close> of
  \<open>crates/storage/src/version.rs\<close>), their order and weights, the bounded keys that summarise reads, and
  the bounded write set of a transaction (\<open>VersionWriteSet\<close>). Theorems: the derived order is an \<open>Ord\<close>;
  a write set never exceeds its limits, accounts its bytes exactly, refuses atomically, and refuses
  only when a limit leaves no other choice.

  \<^item> \<open>size_of\<close> of the types involved is a parameter (\<open>version_layout\<close>).
  \<^item> Epochs are natural numbers; the only arithmetic on them is \<open>saturating_sub(1)\<close> and a checked
    increment, both written out.
\<close>

record version_layout =
  sizeof_key :: nat
  sizeof_value :: nat
  sizeof_rkey :: nat
  sizeof_rvalue :: nat
  sizeof_overflow :: nat
  sizeof_stamp :: nat
  sizeof_write :: nat

section \<open>Keys\<close>

datatype adjacency_direction = AdjOutgoing | AdjIncoming

datatype version_key =
    VDatabase
  | VSchema
  | VReadBarrier
  | VReadNodeDomain "bytes option"
  | VReadRelationshipDomain "bytes option"
  | VReadRelationalTableDomain bytes
  | VReadNodeProperty bytes bytes gvalue
  | VReadRelationalIndexPrefix bytes bytes rkey
  | VGraphNode u64
  | VGraphRelationship u64
  | VGraphAdjacency u64 adjacency_direction
  | VRelationalRow bytes rkey
  | VRelationalIndex bytes bytes rkey
  | VForeignKey bytes rkey
  | VAppendTable bytes

primrec adj_index :: "adjacency_direction \<Rightarrow> nat" where
  "adj_index AdjOutgoing = 0"
| "adj_index AdjIncoming = 1"

text \<open>The derived \<open>Ord\<close>: by declaration order of the variants, then field by field.\<close>

primrec version_key_rank :: "version_key \<Rightarrow> nat" where
  "version_key_rank VDatabase = 0"
| "version_key_rank VSchema = 1"
| "version_key_rank VReadBarrier = 2"
| "version_key_rank (VReadNodeDomain _) = 3"
| "version_key_rank (VReadRelationshipDomain _) = 4"
| "version_key_rank (VReadRelationalTableDomain _) = 5"
| "version_key_rank (VReadNodeProperty _ _ _) = 6"
| "version_key_rank (VReadRelationalIndexPrefix _ _ _) = 7"
| "version_key_rank (VGraphNode _) = 8"
| "version_key_rank (VGraphRelationship _) = 9"
| "version_key_rank (VGraphAdjacency _ _) = 10"
| "version_key_rank (VRelationalRow _ _) = 11"
| "version_key_rank (VRelationalIndex _ _ _) = 12"
| "version_key_rank (VForeignKey _ _) = 13"
| "version_key_rank (VAppendTable _) = 14"

abbreviation str_cmp :: "bytes \<Rightarrow> bytes \<Rightarrow> ordering" where
  "str_cmp \<equiv> lex_cmp cmp_lin"

definition version_key_cmp :: "version_key \<Rightarrow> version_key \<Rightarrow> ordering" where
  "version_key_cmp l r =
     ord_then (cmp_lin (version_key_rank l) (version_key_rank r))
       (case (l, r) of
          (VReadNodeDomain a, VReadNodeDomain b) \<Rightarrow> option_cmp str_cmp a b
        | (VReadRelationshipDomain a, VReadRelationshipDomain b) \<Rightarrow> option_cmp str_cmp a b
        | (VReadRelationalTableDomain a, VReadRelationalTableDomain b) \<Rightarrow> str_cmp a b
        | (VReadNodeProperty a p v, VReadNodeProperty b q w) \<Rightarrow>
            ord_then (str_cmp a b) (ord_then (str_cmp p q) (gvalue_cmp v w))
        | (VReadRelationalIndexPrefix a i k, VReadRelationalIndexPrefix b j l) \<Rightarrow>
            ord_then (str_cmp a b) (ord_then (str_cmp i j) (key_cmp k l))
        | (VGraphNode a, VGraphNode b) \<Rightarrow> cmp_lin a b
        | (VGraphRelationship a, VGraphRelationship b) \<Rightarrow> cmp_lin a b
        | (VGraphAdjacency a d, VGraphAdjacency b e) \<Rightarrow>
            ord_then (cmp_lin a b) (cmp_lin (adj_index d) (adj_index e))
        | (VRelationalRow a k, VRelationalRow b l) \<Rightarrow> ord_then (str_cmp a b) (key_cmp k l)
        | (VRelationalIndex a i k, VRelationalIndex b j l) \<Rightarrow>
            ord_then (str_cmp a b) (ord_then (str_cmp i j) (key_cmp k l))
        | (VForeignKey a k, VForeignKey b l) \<Rightarrow> ord_then (str_cmp a b) (key_cmp k l)
        | (VAppendTable a, VAppendTable b) \<Rightarrow> str_cmp a b
        | _ \<Rightarrow> Equal)"

fun is_read_summary_key :: "version_key \<Rightarrow> bool" where
  "is_read_summary_key (VReadNodeDomain _) = True"
| "is_read_summary_key (VReadRelationshipDomain _) = True"
| "is_read_summary_key (VReadRelationalTableDomain _) = True"
| "is_read_summary_key (VReadNodeProperty _ _ _) = True"
| "is_read_summary_key (VReadRelationalIndexPrefix _ _ _) = True"
| "is_read_summary_key _ = False"

text \<open>The two identities kept inline, outside the map.\<close>

definition is_barrier_key :: "version_key \<Rightarrow> bool" where
  "is_barrier_key k \<longleftrightarrow> k = VDatabase \<or> k = VReadBarrier"

subsection \<open>The laws of the order\<close>

lemma key_cmp_laws:
  "key_cmp k k = Equal" "key_cmp l k = ord_reverse (key_cmp k l)" "trans3 (key_cmp k l) (key_cmp l n) (key_cmp k n)"
  by (rule key_ord.cmp_refl, rule key_ord.cmp_rev, simp add: key_cmp_image trans3_lin)

lemma option_cmp_laws:
  assumes "\<And>x. c x x = Equal" "\<And>x y. c y x = ord_reverse (c x y)" "\<And>x y z. trans3 (c x y) (c y z) (c x z)"
  shows "option_cmp c a a = Equal" "option_cmp c b a = ord_reverse (option_cmp c a b)"
    "trans3 (option_cmp c a b) (option_cmp c b d) (option_cmp c a d)"
proof -
  show "option_cmp c a a = Equal" by (cases a) (simp_all add: assms(1))
  show "option_cmp c b a = ord_reverse (option_cmp c a b)"
    using assms(2) [of "the b" "the a"] by (cases a; cases b) simp_all
  show "trans3 (option_cmp c a b) (option_cmp c b d) (option_cmp c a d)"
    by (cases a; cases b; cases d) (simp_all add: assms(3))
qed

lemma version_key_cmp_ranks:
  "version_key_rank a \<noteq> version_key_rank b \<Longrightarrow> version_key_cmp a b = cmp_lin (version_key_rank a) (version_key_rank b)"
  by (simp add: version_key_cmp_def cmp_lin_def)

lemmas opt_laws = option_cmp_laws [of str_cmp, OF refl_lex [OF lin_ord.cmp_refl] rev_lex_lin trans3_lex_lin]

lemma version_key_cmp_refl: "version_key_cmp k k = Equal"
  by (cases k) (simp_all add: version_key_cmp_def lin_ord.cmp_refl refl_lex key_cmp_laws(1) gvalue_cmp_refl opt_laws(1))

lemma rev_then: "a' = ord_reverse a \<Longrightarrow> b' = ord_reverse b \<Longrightarrow> ord_then a' b' = ord_reverse (ord_then a b)"
  by (simp add: ord_reverse_then)

lemmas rev_laws = rev_then opt_laws(2) rev_lex_lin key_cmp_laws(2) gvalue_cmp_rev rev_lin

lemma version_key_cmp_rev: "version_key_cmp b a = ord_reverse (version_key_cmp a b)"
proof (cases "version_key_rank a = version_key_rank b")
  case True
  show ?thesis
    by (insert True, cases a; cases b; ((simp; fail) | (simp add: version_key_cmp_def lin_ord.cmp_refl del: ord_reverse_simps;
          intro rev_laws)))
next
  case False
  then show ?thesis by (metis version_key_cmp_ranks rev_lin)
qed

lemma version_key_trans_ranks:
  assumes "version_key_rank a \<noteq> version_key_rank b \<or> version_key_rank b \<noteq> version_key_rank d"
  shows "trans3 (version_key_cmp a b) (version_key_cmp b d) (version_key_cmp a d)"
proof (cases "version_key_rank a = version_key_rank d")
  case True
  with assms have "version_key_rank a \<noteq> version_key_rank b" "version_key_rank b \<noteq> version_key_rank d" by auto
  with True show ?thesis by (auto simp: version_key_cmp_ranks cmp_lin_def)
next
  case False
  then have r: "version_key_cmp a d = cmp_lin (version_key_rank a) (version_key_rank d)"
    by (rule version_key_cmp_ranks)
  consider "version_key_rank a = version_key_rank b" "version_key_rank b \<noteq> version_key_rank d"
    | "version_key_rank a \<noteq> version_key_rank b" "version_key_rank b = version_key_rank d"
    | "version_key_rank a \<noteq> version_key_rank b" "version_key_rank b \<noteq> version_key_rank d" using assms by blast
  then show ?thesis
  proof cases
    case 3
    with r show ?thesis by (simp add: version_key_cmp_ranks trans3_lin)
  qed (use r in \<open>auto simp: version_key_cmp_ranks cmp_lin_def\<close>)
qed

lemma version_key_cmp_trans: "trans3 (version_key_cmp a b) (version_key_cmp b d) (version_key_cmp a d)"
proof (cases "version_key_rank a = version_key_rank b \<and> version_key_rank b = version_key_rank d")
  case True
  show ?thesis
    by (insert True, cases a; cases b; (simp; fail)?; cases d;
        ((simp; fail) | (simp add: version_key_cmp_def lin_ord.cmp_refl;
          intro trans3_intros opt_laws(3) key_cmp_laws(3) gvalue_cmp_trans)))
qed (rule version_key_trans_ranks, blast)

interpretation vkey_ord: rust_ord version_key_cmp
  by (rule rust_ord_trans3) (rule version_key_cmp_refl version_key_cmp_rev version_key_cmp_trans)+

lemma version_key_cmp_Equal_rank: "version_key_cmp a b = Equal \<Longrightarrow> version_key_rank a = version_key_rank b"
  by (simp add: version_key_cmp_def cmp_simps)

lemma summary_rank: "is_read_summary_key k \<longleftrightarrow> 3 \<le> version_key_rank k \<and> version_key_rank k \<le> 7"
  by (cases k) simp_all

lemma barrier_rank: "is_barrier_key k \<longleftrightarrow> version_key_rank k = 0 \<or> version_key_rank k = 2"
  by (cases k) (simp_all add: is_barrier_key_def)

lemma version_key_Equal_kind:
  assumes "version_key_cmp a b = Equal"
  shows "is_read_summary_key a = is_read_summary_key b" "is_barrier_key a = is_barrier_key b"
    "a = VDatabase \<longleftrightarrow> b = VDatabase" "a = VReadBarrier \<longleftrightarrow> b = VReadBarrier" "a = VSchema \<longleftrightarrow> b = VSchema"
proof -
  note r = version_key_cmp_Equal_rank [OF assms]
  show "is_read_summary_key a = is_read_summary_key b" "is_barrier_key a = is_barrier_key b"
    by (simp_all add: summary_rank barrier_rank r)
  show "a = VDatabase \<longleftrightarrow> b = VDatabase" "a = VReadBarrier \<longleftrightarrow> b = VReadBarrier" "a = VSchema \<longleftrightarrow> b = VSchema"
    using r by (cases a; cases b; simp)+
qed

section \<open>Weights and read keys\<close>

definition relational_key_bytes :: "version_layout \<Rightarrow> rkey \<Rightarrow> nat" where
  "relational_key_bytes L k =
     sat_add (sizeof_rkey L)
       (foldl sat_add 0 (map (\<lambda>v. sat_add (sizeof_rvalue L) (estimated_payload_bytes (sizeof_overflow L) v)) k))"

primrec version_key_bytes :: "version_layout \<Rightarrow> version_key \<Rightarrow> nat" where
  "version_key_bytes L VDatabase = sizeof_key L"
| "version_key_bytes L VSchema = sizeof_key L"
| "version_key_bytes L VReadBarrier = sizeof_key L"
| "version_key_bytes L (VReadNodeDomain label) =
     sat_add (sizeof_key L) (case label of None \<Rightarrow> 0 | Some s \<Rightarrow> length s)"
| "version_key_bytes L (VReadRelationshipDomain label) =
     sat_add (sizeof_key L) (case label of None \<Rightarrow> 0 | Some s \<Rightarrow> length s)"
| "version_key_bytes L (VReadRelationalTableDomain table) = sat_add (sizeof_key L) (length table)"
| "version_key_bytes L (VReadNodeProperty label property v) =
     sat_add (sat_add (sat_add (sat_add (sizeof_key L) (length label)) (length property)) (sizeof_value L))
       (estimated_value_bytes v)"
| "version_key_bytes L (VReadRelationalIndexPrefix table index prefix) =
     sat_add (sat_add (sat_add (sizeof_key L) (length table)) (length index)) (relational_key_bytes L prefix)"
| "version_key_bytes L (VGraphNode _) = sizeof_key L"
| "version_key_bytes L (VGraphRelationship _) = sizeof_key L"
| "version_key_bytes L (VGraphAdjacency _ _) = sizeof_key L"
| "version_key_bytes L (VRelationalRow table k) =
     sat_add (sat_add (sizeof_key L) (length table)) (relational_key_bytes L k)"
| "version_key_bytes L (VRelationalIndex table index k) =
     sat_add (sat_add (sat_add (sizeof_key L) (length table)) (length index)) (relational_key_bytes L k)"
| "version_key_bytes L (VForeignKey table k) =
     sat_add (sat_add (sizeof_key L) (length table)) (relational_key_bytes L k)"
| "version_key_bytes L (VAppendTable table) = sat_add (sizeof_key L) (length table)"

definition MAX_NODE_PROPERTY_READ_KEY_BYTES :: nat where "MAX_NODE_PROPERTY_READ_KEY_BYTES = 4096"
definition MAX_RELATIONAL_INDEX_READ_KEY_BYTES :: nat where "MAX_RELATIONAL_INDEX_READ_KEY_BYTES = 4096"

definition node_property_read_key :: "version_layout \<Rightarrow> bytes \<Rightarrow> bytes \<Rightarrow> gvalue \<Rightarrow> version_key option" where
  "node_property_read_key L label property v =
     (case v of
        GList _ \<Rightarrow> None
      | GMap _ \<Rightarrow> None
      | _ \<Rightarrow>
          let bytes = sat_add (sat_add (sat_add (sat_add (sizeof_key L) (length label)) (length property))
                        (sizeof_value L)) (estimated_value_bytes v)
          in if bytes \<le> MAX_NODE_PROPERTY_READ_KEY_BYTES then Some (VReadNodeProperty label property v) else None)"

primrec prefix_value_admitted :: "rvalue \<Rightarrow> bool" where
  "prefix_value_admitted (Boolean _) = True"
| "prefix_value_admitted (BigInt _) = True"
| "prefix_value_admitted (DecimalV _) = True"
| "prefix_value_admitted (Text _) = True"
| "prefix_value_admitted (Bytea _) = True"
| "prefix_value_admitted (Uuid _) = True"
| "prefix_value_admitted (Timestamp _) = True"
| "prefix_value_admitted (TimestampTz _) = True"
| "prefix_value_admitted Null = False"
| "prefix_value_admitted (DoublePrecision _) = False"
| "prefix_value_admitted (VectorV _) = False"
| "prefix_value_admitted (Overflow _) = False"

fun prefix_loop :: "version_layout \<Rightarrow> rkey \<Rightarrow> nat \<Rightarrow> nat \<Rightarrow> nat option" where
  "prefix_loop L [] count bytes = (if 0 < count then Some bytes else None)"
| "prefix_loop L (v # vs) count bytes =
     (if 32 < count + 1 \<or> \<not> prefix_value_admitted v then None
      else let bytes' = sat_add (sat_add bytes (sizeof_rvalue L)) (estimated_payload_bytes (sizeof_overflow L) v)
           in if MAX_RELATIONAL_INDEX_READ_KEY_BYTES < bytes' then None else prefix_loop L vs (count + 1) bytes')"

definition relational_index_prefix_read_key_bytes :: "version_layout \<Rightarrow> bytes \<Rightarrow> bytes \<Rightarrow> rkey \<Rightarrow> nat option" where
  "relational_index_prefix_read_key_bytes L table index vs =
     prefix_loop L vs 0 (sat_add (sat_add (sat_add (sizeof_key L) (length table)) (length index)) (sizeof_rkey L))"

definition relational_index_prefix_read_key :: "version_layout \<Rightarrow> bytes \<Rightarrow> bytes \<Rightarrow> rkey \<Rightarrow> version_key option" where
  "relational_index_prefix_read_key L table index vs =
     (case relational_index_prefix_read_key_bytes L table index vs of
        None \<Rightarrow> None
      | Some _ \<Rightarrow> Some (VReadRelationalIndexPrefix table index vs))"

section \<open>The write set of a transaction\<close>

datatype version_disposition = Live | Tombstone

text \<open>A \<open>VersionWrite\<close> has the disposition as its only field.\<close>

record version_write_set =
  writes :: "(version_key, version_disposition) btree"
  ws_max_entries :: nat
  ws_max_bytes :: nat
  ws_bytes :: nat

datatype write_set_error = LimitExceeded nat | ByteLimitExceeded nat

definition ws_with_limits :: "nat \<Rightarrow> nat \<Rightarrow> version_write_set" where
  "ws_with_limits max_entries max_bytes =
     \<lparr> writes = [], ws_max_entries = max_entries, ws_max_bytes = max_bytes, ws_bytes = 0 \<rparr>"

definition DEFAULT_MAX_VERSION_WRITE_SET_BYTES :: nat where
  "DEFAULT_MAX_VERSION_WRITE_SET_BYTES = 16 * 1024 * 1024"

definition ws_new :: "nat \<Rightarrow> version_write_set" where
  "ws_new max_entries = ws_with_limits max_entries DEFAULT_MAX_VERSION_WRITE_SET_BYTES"

definition ws_contains :: "version_key \<Rightarrow> version_write_set \<Rightarrow> bool" where
  "ws_contains k ws \<longleftrightarrow> bt_contains version_key_cmp k (writes ws)"

definition ws_keys_from :: "version_key \<Rightarrow> version_write_set \<Rightarrow> version_key list" where
  "ws_keys_from start ws = map fst (filter (\<lambda>e. version_key_cmp (fst e) start \<noteq> Less) (writes ws))"

definition ws_record ::
    "version_layout \<Rightarrow> version_key \<Rightarrow> version_disposition \<Rightarrow> version_write_set \<Rightarrow> write_set_error + version_write_set" where
  "ws_record L k d ws =
     (if bt_contains version_key_cmp k (writes ws) then
        Inr (ws\<lparr>writes := bt_update version_key_cmp k (\<lambda>_. d) (writes ws)\<rparr>)
      else if ws_max_entries ws \<le> length (writes ws) then Inl (LimitExceeded (ws_max_entries ws))
      else case Option.bind (checked_add (version_key_bytes L k) (sizeof_write L)) (checked_add (ws_bytes ws)) of
             None \<Rightarrow> Inl (ByteLimitExceeded (ws_max_bytes ws))
           | Some next_bytes \<Rightarrow>
               if next_bytes \<le> ws_max_bytes ws then
                 Inr (ws\<lparr>writes := bt_insert version_key_cmp k d (writes ws), ws_bytes := next_bytes\<rparr>)
               else Inl (ByteLimitExceeded (ws_max_bytes ws)))"

definition record_live :: "version_layout \<Rightarrow> version_key \<Rightarrow> version_write_set \<Rightarrow> write_set_error + version_write_set" where
  "record_live L k = ws_record L k Live"

definition record_tombstone :: "version_layout \<Rightarrow> version_key \<Rightarrow> version_write_set \<Rightarrow> write_set_error + version_write_set" where
  "record_tombstone L k = ws_record L k Tombstone"

definition ws_weight :: "version_layout \<Rightarrow> (version_key, version_disposition) btree \<Rightarrow> nat" where
  "ws_weight L m = sum_list (map (\<lambda>k. version_key_bytes L k + sizeof_write L) (map fst m))"

definition ws_ok :: "version_layout \<Rightarrow> version_write_set \<Rightarrow> bool" where
  "ws_ok L ws \<longleftrightarrow>
     bt_sorted version_key_cmp (writes ws) \<and> length (writes ws) \<le> ws_max_entries ws \<and>
     ws_bytes ws = ws_weight L (writes ws) \<and> ws_bytes ws \<le> ws_max_bytes ws"

lemma bt_update_keys: "map fst (bt_update c k f m) = map fst m"
  by (induction m) (auto simp: bt_update_def)

lemma ws_weight_keys: "map fst m = map fst n \<Longrightarrow> ws_weight L m = ws_weight L n"
  by (simp only: ws_weight_def)

lemma ws_weight_insert:
  "bt_get version_key_cmp k m = None \<Longrightarrow>
   ws_weight L (bt_insert version_key_cmp k d m) = version_key_bytes L k + sizeof_write L + ws_weight L m"
  by (induction m) (auto simp: ws_weight_def split: ordering.split)

lemma bt_get_update:
  "bt_sorted version_key_cmp m \<Longrightarrow> bt_contains version_key_cmp k m \<Longrightarrow>
   bt_get version_key_cmp k' (bt_update version_key_cmp k (\<lambda>_. d) m) =
     (if version_key_cmp k' k = Equal then Some d else bt_get version_key_cmp k' m)"
proof (induction m)
  case (Cons e m)
  have eq: "version_key_cmp k' k = version_key_cmp k' (fst e)" if "version_key_cmp k (fst e) = Equal"
    using vkey_ord.cmp_Equal_right [OF that] .
  have ne: "bt_update version_key_cmp k f m = m" if "version_key_cmp k (fst e) = Equal" for f
    using Cons.prems(1) vkey_ord.cmp_Equal_left [OF that] by (auto simp: bt_update_def intro!: map_idI)
  show ?case
  proof (cases "version_key_cmp k (fst e) = Equal")
    case True
    then show ?thesis using eq [OF True] ne [OF True, of "\<lambda>_. d"] by (simp add: bt_update_def)
  next
    case False
    then have "version_key_cmp k' k = Equal \<Longrightarrow> version_key_cmp k' (fst e) \<noteq> Equal"
      by (simp add: vkey_ord.cmp_Equal_left [of k' k])
    with False Cons show ?thesis by (auto simp: bt_update_def bt_contains_def)
  qed
qed (simp add: bt_contains_def)

lemma ws_record_ok:
  assumes "ws_ok L ws" "ws_record L k d ws = Inr ws'"
  shows "ws_ok L ws'" "ws_max_entries ws' = ws_max_entries ws" "ws_max_bytes ws' = ws_max_bytes ws"
    "bt_get version_key_cmp k' (writes ws') =
       (if version_key_cmp k' k = Equal then Some d else bt_get version_key_cmp k' (writes ws))"
proof -
  have "ws_ok L ws' \<and> ws_max_entries ws' = ws_max_entries ws \<and> ws_max_bytes ws' = ws_max_bytes ws \<and>
    bt_get version_key_cmp k' (writes ws') =
       (if version_key_cmp k' k = Equal then Some d else bt_get version_key_cmp k' (writes ws))"
  proof (cases "bt_contains version_key_cmp k (writes ws)")
    case True
    then have ws': "ws' = ws\<lparr>writes := bt_update version_key_cmp k (\<lambda>_. d) (writes ws)\<rparr>"
      using assms(2) by (simp add: ws_record_def)
    have keys: "map fst (writes ws') = map fst (writes ws)" by (simp add: ws' bt_update_keys)
    then have "bt_sorted version_key_cmp (writes ws')"
      using assms(1) by (simp add: ws_ok_def bt_sorted_keys)
    moreover have "length (writes ws') = length (writes ws)" by (simp add: ws' bt_update_def)
    moreover have "ws_weight L (writes ws') = ws_weight L (writes ws)" by (rule ws_weight_keys [OF keys])
    ultimately show ?thesis using assms(1) True by (simp add: ws_ok_def ws' bt_get_update)
  next
    case False
    with assms(2) have ws': "ws' = ws\<lparr>writes := bt_insert version_key_cmp k d (writes ws),
        ws_bytes := ws_bytes ws + (version_key_bytes L k + sizeof_write L)\<rparr>"
      and le: "\<not> ws_max_entries ws \<le> length (writes ws)" "ws_bytes ws' \<le> ws_max_bytes ws"
      by (auto simp: ws_record_def checked_add_Some_iff split: if_splits option.splits bind_splits)
    from False show ?thesis
      using assms(1) le vkey_ord.length_bt_insert [of "writes ws" k d]
      by (simp add: ws_ok_def ws' vkey_ord.bt_sorted_insert ws_weight_insert bt_contains_def vkey_ord.bt_get_insert)
  qed
  then show "ws_ok L ws'" "ws_max_entries ws' = ws_max_entries ws" "ws_max_bytes ws' = ws_max_bytes ws"
    "bt_get version_key_cmp k' (writes ws') =
       (if version_key_cmp k' k = Equal then Some d else bt_get version_key_cmp k' (writes ws))"
    by blast+
qed

lemma ws_record_error:
  assumes "ws_ok L ws" "ws_record L k d ws = Inl e" "ws_max_bytes ws \<le> usize_max"
  shows "bt_get version_key_cmp k (writes ws) = None"
    "if length (writes ws) = ws_max_entries ws then e = LimitExceeded (ws_max_entries ws)
     else e = ByteLimitExceeded (ws_max_bytes ws) \<and>
       ws_max_bytes ws < ws_bytes ws + version_key_bytes L k + sizeof_write L"
  using assms by (auto simp: ws_record_def ws_ok_def bt_contains_def checked_add_def bind_eq_Some_conv bind_eq_None_conv
      split: if_splits option.splits)

text \<open>A sequence of recordings; a refused one leaves the set as it was, and the caller may go on.\<close>

fun ws_run :: "version_layout \<Rightarrow> (version_key \<times> version_disposition) list \<Rightarrow> version_write_set \<Rightarrow> version_write_set" where
  "ws_run L [] ws = ws"
| "ws_run L ((k, d) # ops) ws = ws_run L ops (case ws_record L k d ws of Inl _ \<Rightarrow> ws | Inr ws' \<Rightarrow> ws')"

lemma ws_run_ok:
  "ws_ok L ws \<Longrightarrow> ws_ok L (ws_run L ops ws) \<and> ws_max_entries (ws_run L ops ws) = ws_max_entries ws \<and>
     ws_max_bytes (ws_run L ops ws) = ws_max_bytes ws"
proof (induction ops arbitrary: ws)
  case (Cons op ops)
  obtain k d where op: "op = (k, d)" by fastforce
  show ?case
  proof (cases "ws_record L k d ws")
    case (Inr ws')
    with Cons.IH [of ws'] ws_record_ok(1-3) [OF Cons.prems Inr] show ?thesis by (simp add: op)
  qed (use Cons in \<open>simp add: op\<close>)
qed simp

text \<open>
  C25. The write set of a transaction stays within its limits and accounts its bytes exactly, after any
  sequence of recordings. A recording that succeeds sets the disposition of its key and changes no
  other; one that is refused concerns a new key only, and the refusal is necessary: the entry limit is
  reached, or the key's bytes would exceed the byte limit. Replacing the disposition of a key that is
  present is never refused.
\<close>

theorem write_set_bounded:
  assumes "max_bytes \<le> usize_max"
  shows "case ws_run L ops (ws_with_limits max_entries max_bytes) of ws \<Rightarrow>
    length (writes ws) \<le> max_entries \<and> ws_bytes ws \<le> max_bytes \<and>
    ws_bytes ws = sum_list (map (\<lambda>k. version_key_bytes L k + sizeof_write L) (map fst (writes ws))) \<and>
    bt_sorted version_key_cmp (writes ws) \<and>
    (case ws_record L k d ws of
       Inr ws' \<Rightarrow> (\<forall>k'. bt_get version_key_cmp k' (writes ws') =
         (if version_key_cmp k' k = Equal then Some d else bt_get version_key_cmp k' (writes ws)))
     | Inl e \<Rightarrow> bt_get version_key_cmp k (writes ws) = None \<and>
         (if length (writes ws) = max_entries then e = LimitExceeded max_entries
          else e = ByteLimitExceeded max_bytes \<and>
            max_bytes < ws_bytes ws + version_key_bytes L k + sizeof_write L))"
proof -
  define ws where "ws = ws_run L ops (ws_with_limits max_entries max_bytes)"
  have "ws_ok L (ws_with_limits max_entries max_bytes)" by (simp add: ws_ok_def ws_with_limits_def ws_weight_def)
  then have ok: "ws_ok L ws" and lim: "ws_max_entries ws = max_entries" "ws_max_bytes ws = max_bytes"
    using ws_run_ok [of L "ws_with_limits max_entries max_bytes" ops] by (simp_all add: ws_def ws_with_limits_def)
  have "case ws_record L k d ws of
       Inr ws' \<Rightarrow> (\<forall>k'. bt_get version_key_cmp k' (writes ws') =
         (if version_key_cmp k' k = Equal then Some d else bt_get version_key_cmp k' (writes ws)))
     | Inl e \<Rightarrow> bt_get version_key_cmp k (writes ws) = None \<and>
         (if length (writes ws) = max_entries then e = LimitExceeded max_entries
          else e = ByteLimitExceeded max_bytes \<and> max_bytes < ws_bytes ws + version_key_bytes L k + sizeof_write L)"
    using ws_record_ok(4) [OF ok] ws_record_error [OF ok] assms by (auto simp: lim split: sum.split)
  with ok lim show ?thesis unfolding ws_def [symmetric] by (simp add: ws_ok_def ws_weight_def)
qed

definition demo_vlayout :: version_layout where
  "demo_vlayout = \<lparr>sizeof_key = 72, sizeof_value = 32, sizeof_rkey = 24, sizeof_rvalue = 32, sizeof_overflow = 48,
     sizeof_stamp = 16, sizeof_write = 1\<rparr>"

lemma demo_key_bytes [simp]: "sizeof_key demo_vlayout = 72" "sizeof_write demo_vlayout = 1"
  by (simp_all add: demo_vlayout_def)

theorem write_set_bounded_witness:
  "ws_bytes (ws_run demo_vlayout [(VGraphNode 1, Live)] (ws_with_limits 9 100)) \<le> 100 \<and>
   ws_record demo_vlayout (VGraphNode 2) Live (ws_run demo_vlayout [(VGraphNode 1, Live)] (ws_with_limits 9 100)) =
     Inl (ByteLimitExceeded 100)"
proof -
  let ?ws = "ws_run demo_vlayout [(VGraphNode 1, Live)] (ws_with_limits 9 100)"
  have ws: "?ws = \<lparr> writes = [(VGraphNode 1, Live)], ws_max_entries = 9, ws_max_bytes = 100, ws_bytes = 73 \<rparr>"
    by (simp add: ws_record_def ws_with_limits_def bt_contains_def checked_add_def usize_max_def)
  have "\<exists>e. ws_record demo_vlayout (VGraphNode 2) Live ?ws = Inl e"
    unfolding ws by (simp add: ws_record_def bt_contains_def checked_add_def usize_max_def version_key_cmp_def cmp_lin_def)
  then obtain e where "ws_record demo_vlayout (VGraphNode 2) Live ?ws = Inl e" by blast
  with write_set_bounded [of 100 demo_vlayout "[(VGraphNode 1, Live)]" 9 "VGraphNode 2" Live]
  show ?thesis unfolding ws by (simp add: usize_max_def Let_def)
qed

end
