(* ===== verification/Version_Pages.thy ===== *)
theory Version_Pages
  imports Version_Key
begin

text \<open>
  The pages of the version index and the credit they hold (\<open>version/history_budget.rs\<close> and
  \<open>cow/version_pages.rs\<close> of \<open>crates/storage/src\<close>). A budget bounds the bytes of all pages that any
  snapshot can still reach. A new page takes its share out of a reservation made before anything is
  copied, so the reservation must cover every page that the edit will create: the lemmas of this theory
  show that it does, exactly, for edits of a map all of whose pages are shared.

  \<^item> The budget sits behind a mutex; it is passed as a state and returned. \<open>None\<close> is a panic.
  \<^item> A lease is its number of bytes; \<open>Drop\<close> of the lease of a page happens with the last owner of the
    page, which is this map exactly when the page is not shared.
  \<^item> The identity of a page (its address) is its index in the directory.
  \<^item> \<open>usize::try_from\<close> of a weight fails above \<open>usize_max\<close>.
\<close>

record version_stamp =
  stamp_epoch :: nat
  stamp_disposition :: version_disposition

type_synonym version_page = "(version_key, version_stamp) cow_page"
type_synonym version_map = "(version_key, version_stamp) cow_map"

definition version_weight :: "version_layout \<Rightarrow> (version_key, version_stamp) page_weight" where
  "version_weight L = \<lparr> key_bytes = version_key_bytes L, value_bytes_of = \<lambda>_. sizeof_stamp L, pressure_of = \<lambda>_. 0 \<rparr>"

section \<open>The budget\<close>

record history_budget =
  hb_used :: nat
  hb_limit :: nat

definition budget_new :: "nat \<Rightarrow> history_budget" where
  "budget_new limit = \<lparr> hb_used = 0, hb_limit = limit \<rparr>"

definition budget_reserve :: "nat \<Rightarrow> history_budget \<Rightarrow> history_budget option" where
  "budget_reserve bytes b =
     (case checked_add (hb_used b) bytes of
        None \<Rightarrow> None
      | Some next' \<Rightarrow> if hb_limit b < next' then None else Some (b\<lparr>hb_used := next'\<rparr>))"

definition lease_split :: "nat \<Rightarrow> nat \<Rightarrow> nat option" where
  "lease_split bytes lease = (if bytes \<le> lease then Some (lease - bytes) else None)"

definition lease_drop :: "nat \<Rightarrow> history_budget \<Rightarrow> history_budget option" where
  "lease_drop lease b = (if lease \<le> hb_used b then Some (b\<lparr>hb_used := hb_used b - lease\<rparr>) else None)"

definition lease_shrink :: "nat \<Rightarrow> nat \<Rightarrow> history_budget \<Rightarrow> history_budget option" where
  "lease_shrink bytes lease b = (if bytes \<le> lease then lease_drop (lease - bytes) b else None)"

section \<open>Charging and pruning pages\<close>

definition admitted_weight :: "version_layout \<Rightarrow> version_page \<Rightarrow> nat option" where
  "admitted_weight L p = (let b = payload_bytes (version_weight L) p in if b \<le> usize_max then Some b else None)"

text \<open>Per page: its weight, whether an edit would detach it, and whether it holds credit.\<close>

fun version_page_layout :: "version_layout \<Rightarrow> version_page list \<Rightarrow> (nat \<times> bool \<times> bool) list option" where
  "version_page_layout L [] = Some []"
| "version_page_layout L (p # ps) =
     (case admitted_weight L p of
        None \<Rightarrow> None
      | Some b \<Rightarrow> map_option (\<lambda>rest. (b, page_shared p, history_lease p \<noteq> None) # rest) (version_page_layout L ps))"

fun charge_version_pages ::
    "version_layout \<Rightarrow> version_page list \<Rightarrow> nat option \<Rightarrow> (version_page list \<times> nat option) option" where
  "charge_version_pages L [] res = Some ([], res)"
| "charge_version_pages L (p # ps) res =
     (if history_lease p \<noteq> None then
        map_option (\<lambda>(ps', r). (p # ps', r)) (charge_version_pages L ps res)
      else case (admitted_weight L p, res) of
             (Some b, Some credit) \<Rightarrow>
               (case lease_split b credit of
                  None \<Rightarrow> None
                | Some credit' \<Rightarrow>
                    map_option (\<lambda>(ps', r). (p\<lparr>history_lease := Some b\<rparr> # ps', r))
                      (charge_version_pages L ps (Some credit')))
           | _ \<Rightarrow> None)"

definition version_page_for_key :: "version_key \<Rightarrow> version_map \<Rightarrow> nat option" where
  "version_page_for_key k m = segment_index version_key_cmp k m"

datatype page_retention = Keep | Drop | Mixed

definition page_epoch_bounds :: "version_page \<Rightarrow> nat \<times> nat" where
  "page_epoch_bounds p =
     (case epoch_bounds p of
        Some b \<Rightarrow> b
      | None \<Rightarrow> foldl (\<lambda>(lo, hi) s. (min lo (stamp_epoch s), max hi (stamp_epoch s))) (u64_max, 0) (map snd (entries p)))"

definition page_action :: "(version_stamp \<Rightarrow> bool) \<Rightarrow> nat option \<Rightarrow> version_page \<Rightarrow> page_retention" where
  "page_action keep floor' p =
     (case floor' of
        Some f \<Rightarrow> (case page_epoch_bounds p of (lo, hi) \<Rightarrow> if f \<le> lo then Keep else if hi < f then Drop else Mixed)
      | None \<Rightarrow>
          if list_all (\<lambda>e. keep (snd e)) (entries p) then Keep
          else if list_all (\<lambda>e. \<not> keep (snd e)) (entries p) then Drop
          else Mixed)"

definition version_retention_plan ::
    "(version_stamp \<Rightarrow> bool) \<Rightarrow> nat option \<Rightarrow> version_map \<Rightarrow> page_retention list" where
  "version_retention_plan keep floor' m = map (page_action keep floor') (segments m)"

text \<open>The \<open>Mixed\<close> action on one page: \<open>make_mut\<close>, \<open>retain\<close>, and the shrinking of a lease it still has.\<close>

definition retain_page ::
    "version_layout \<Rightarrow> (version_stamp \<Rightarrow> bool) \<Rightarrow> version_page \<Rightarrow> history_budget \<Rightarrow> (version_page \<times> history_budget) option" where
  "retain_page L keep p b =
     (let q = (page_deref_mut (page_make_mut p))\<lparr>entries := filter (\<lambda>e. keep (snd e)) (entries p)\<rparr>
      in case admitted_weight L q of
           None \<Rightarrow> None
         | Some bytes \<Rightarrow>
             (case history_lease q of
                None \<Rightarrow> Some (q, b)
              | Some lease \<Rightarrow>
                  map_option (\<lambda>b'. (q\<lparr>history_lease := Some bytes\<rparr>, b')) (lease_shrink bytes lease b)))"

text \<open>A page leaves the map: its lease is returned when this map was the last owner.\<close>

definition release_page :: "version_page \<Rightarrow> history_budget \<Rightarrow> history_budget option" where
  "release_page p b =
     (if page_shared p then Some b
      else case history_lease p of None \<Rightarrow> Some b | Some lease \<Rightarrow> lease_drop lease b)"

fun retain_loop_pages ::
    "version_layout \<Rightarrow> (version_stamp \<Rightarrow> bool) \<Rightarrow> page_retention list \<Rightarrow> version_page list \<Rightarrow> history_budget \<Rightarrow>
     (version_page list \<times> history_budget) option" where
  "retain_loop_pages L keep (a # plan) (p # ps) b =
     (case a of
        Keep \<Rightarrow> map_option (\<lambda>(ps', b'). (p # ps', b')) (retain_loop_pages L keep plan ps b)
      | Drop \<Rightarrow>
          (case release_page p b of None \<Rightarrow> None | Some b1 \<Rightarrow> retain_loop_pages L keep plan ps b1)
      | Mixed \<Rightarrow>
          (case retain_page L keep p b of
             None \<Rightarrow> None
           | Some (q, b1) \<Rightarrow>
               if entries q = [] then
                 (case release_page q b1 of None \<Rightarrow> None | Some b2 \<Rightarrow> retain_loop_pages L keep plan ps b2)
               else map_option (\<lambda>(ps', b'). (q # ps', b')) (retain_loop_pages L keep plan ps b1)))"
| "retain_loop_pages L keep _ [] b = Some ([], b)"
| "retain_loop_pages L keep [] (p # ps) b = None"

definition retain_version_pages ::
    "version_layout \<Rightarrow> (version_stamp \<Rightarrow> bool) \<Rightarrow> page_retention list \<Rightarrow> version_map \<Rightarrow> history_budget \<Rightarrow>
     (version_map \<times> history_budget) option" where
  "retain_version_pages L keep plan m b =
     map_option (\<lambda>(ps, b'). (m\<lparr>segments := ps, map_len := sum_list (map (\<lambda>p. length (entries p)) ps)\<rparr>, b'))
       (retain_loop_pages L keep plan (segments m) b)"

section \<open>What charging does\<close>

abbreviation vpayload :: "version_layout \<Rightarrow> (version_key, version_stamp) btree \<Rightarrow> nat" where
  "vpayload L \<equiv> entries_payload (version_weight L)"

definition page_uncharged :: "('k, 'v) page_weight \<Rightarrow> ('k, 'v) cow_page \<Rightarrow> nat" where
  "page_uncharged W p = (if history_lease p = None then entries_payload W (entries p) else 0)"

definition uncharged :: "('k, 'v) page_weight \<Rightarrow> ('k, 'v) cow_page list \<Rightarrow> nat" where
  "uncharged W ps = sum_list (map (page_uncharged W) ps)"

definition charged_page :: "version_layout \<Rightarrow> version_page \<Rightarrow> version_page" where
  "charged_page L p = (if history_lease p = None then p\<lparr>history_lease := Some (vpayload L (entries p))\<rparr> else p)"

lemma uncharged_simps [simp]:
  "uncharged W [] = 0" "uncharged W (p # ps) = page_uncharged W p + uncharged W ps"
  "uncharged W (ps @ qs) = uncharged W ps + uncharged W qs"
  by (simp_all add: uncharged_def)

lemma charged_page_simps [simp]:
  "entries (charged_page L p) = entries p" "page_bytes (charged_page L p) = page_bytes p"
  "epoch_bounds (charged_page L p) = epoch_bounds p" "page_shared (charged_page L p) = page_shared p"
  "history_lease (charged_page L p) \<noteq> None"
  by (simp_all add: charged_page_def)

lemma entry_le_payload: "e \<in> set es \<Longrightarrow> entry_payload W e \<le> entries_payload W es"
  by (rule sum_le)

lemma payload_le_flat: "p \<in> set ps \<Longrightarrow> entries_payload W (entries p) \<le> entries_payload W (flat ps)"
  by (induction ps) auto

lemma uncharged_le_flat: "uncharged W ps \<le> entries_payload W (flat ps)"
  by (induction ps) (auto simp: page_uncharged_def)

lemma charge_spec:
  assumes "\<forall>p \<in> set ps. cache_ok (version_weight L) p" "vpayload L (flat ps) \<le> usize_max"
    "(\<exists>p \<in> set ps. history_lease p = None) \<Longrightarrow> res \<noteq> None" "\<And>c. res = Some c \<Longrightarrow> uncharged (version_weight L) ps \<le> c"
  shows "charge_version_pages L ps res =
    Some (map (charged_page L) ps, map_option (\<lambda>c. c - uncharged (version_weight L) ps) res)"
  using assms
proof (induction ps arbitrary: res)
  case Nil
  then show ?case by (cases res) simp_all
next
  case (Cons p ps)
  note cache = cache_ok_payload [of "version_weight L" p]
  show ?case
  proof (cases "history_lease p")
    case None
    with Cons.prems(3) obtain c where c: "res = Some c" by auto
    from Cons.prems(4) [OF c] None have le: "vpayload L (entries p) \<le> c"
      "uncharged (version_weight L) ps \<le> c - vpayload L (entries p)" by (simp_all add: page_uncharged_def)
    have "charge_version_pages L ps (Some (c - vpayload L (entries p))) =
        Some (map (charged_page L) ps, Some (c - vpayload L (entries p) - uncharged (version_weight L) ps))"
      using Cons.IH [of "Some (c - vpayload L (entries p))"] Cons.prems(1,2) le(2) by auto
    moreover have "admitted_weight L p = Some (vpayload L (entries p))"
      using Cons.prems(1,2) cache by (simp add: admitted_weight_def)
    ultimately show ?thesis using None le(1) c by (simp add: lease_split_def charged_page_def page_uncharged_def)
  next
    case (Some l)
    with Cons.IH [of res] Cons.prems show ?thesis by (auto simp: page_uncharged_def charged_page_def)
  qed
qed

lemma layout_spec:
  assumes "\<forall>p \<in> set ps. cache_ok (version_weight L) p" "vpayload L (flat ps) \<le> usize_max"
  shows "version_page_layout L ps =
    Some (map (\<lambda>p. (vpayload L (entries p), page_shared p, history_lease p \<noteq> None)) ps)"
  using assms
proof (induction ps)
  case (Cons p ps)
  then show ?case using cache_ok_payload [of "version_weight L" p] by (simp add: admitted_weight_def)
qed simp

section \<open>Inserting into shared pages\<close>

lemma length_takeWhile_mono: "(\<And>x. P x \<Longrightarrow> Q x) \<Longrightarrow> length (takeWhile P xs) \<le> length (takeWhile Q xs)"
  by (induction xs) auto

lemma nth_middle_cases:
  assumes "j < length (A @ p # B)" "(A @ p # B) ! j \<notin> set A" "(A @ p # B) ! j \<notin> set B"
  shows "j = length A"
proof (rule ccontr)
  assume "j \<noteq> length A"
  then consider "j < length A" | "length A < j" by linarith
  then show False
  proof cases
    case 2
    then obtain i where "j = Suc (length A + i)" using less_imp_Suc_add by blast
    with assms show False by (simp add: nth_append)
  qed (use assms in \<open>simp add: nth_append\<close>)
qed

text \<open>
  Inserting keys one by one into a map \<open>m\<close> that started as \<open>m\<^sub>0\<close>. The keys of one page of \<open>m\<close> all
  route to the same page of \<open>m\<^sub>0\<close> (their group), and a page that still has its lease is that page
  itself, untouched.
\<close>

definition groups_ok ::
    "('k \<Rightarrow> 'k \<Rightarrow> ordering) \<Rightarrow> ('k, 'v) cow_map \<Rightarrow> nat option set \<Rightarrow> ('k, 'v) cow_map \<Rightarrow> bool" where
  "groups_ok c m\<^sub>0 T m \<longleftrightarrow>
     (\<forall>q \<in> set (segments m). \<exists>g. (\<forall>e \<in> set (entries q). segment_index c (fst e) m\<^sub>0 = g) \<and>
        (if history_lease q = None then g \<in> T \<and> epoch_bounds q = None
         else g \<notin> T \<and> (\<exists>j < length (segments m\<^sub>0). g = Some j \<and> q = segments m\<^sub>0 ! j))) \<and>
     fst ` set (cow_iter m\<^sub>0) \<subseteq> fst ` set (cow_iter m)"

definition group_payload :: "('k, 'v) page_weight \<Rightarrow> ('k, 'v) cow_map \<Rightarrow> nat option \<Rightarrow> nat" where
  "group_payload W m\<^sub>0 g = (case g of None \<Rightarrow> 0 | Some j \<Rightarrow> entries_payload W (entries (segments m\<^sub>0 ! j)))"

context rust_ord
begin

lemma segment_index_mono:
  fixes m :: "('a, 'b) cow_map"
  assumes "cmp k k' \<noteq> Greater" "segment_index cmp k m = Some i" "segment_index cmp k' m = Some j"
  shows "i \<le> j"
proof -
  have "last_key_is (\<lambda>l. cmp l k' = Less) p" if "last_key_is (\<lambda>l. cmp l k = Less) p" for p :: "('a, 'b) cow_page"
    using that assms(1) by (auto simp: last_key_is_def split: if_splits intro: cmp_lt_le_trans)
  then have "length (takeWhile (last_key_is (\<lambda>l. cmp l k = Less)) (segments m)) \<le>
      length (takeWhile (last_key_is (\<lambda>l. cmp l k' = Less)) (segments m))"
    by (rule length_takeWhile_mono)
  with assms(2,3) show ?thesis
    by (auto simp: segment_index_def partition_point_def intro: min.coboundedI1 split: if_splits)
qed

lemma segment_index_less: "segment_index cmp k m = Some i \<Longrightarrow> i < length (segments m)"
  by (cases "segments m") (auto simp: segment_index_def split: if_splits)

lemma segment_index_last:
  assumes "pages_ok cmp (segments m)" "segment_index cmp k m = Some i" "Suc i < length (segments m)"
  shows "cmp k (fst (last (entries (segments m ! i)))) \<noteq> Greater"
proof -
  let ?P = "last_key_is (\<lambda>l. cmp l k = Less)"
  from assms(2,3) have "i = length (takeWhile ?P (segments m))" "i < length (segments m)"
    by (auto simp: segment_index_def partition_point_def split: if_splits)
  then have "\<not> ?P (segments m ! i)" using nth_length_takeWhile by metis
  moreover have "entries (segments m ! i) \<noteq> []" using assms(1) \<open>i < _\<close> by (simp add: pages_ok_def)
  ultimately show ?thesis by (simp add: last_key_is_def cmp_Less_rev)
qed

lemma segment_index_member:
  assumes "pages_ok cmp (segments m)" "j < length (segments m)" "e \<in> set (entries (segments m ! j))"
  shows "segment_index cmp (fst e) m = Some j"
proof -
  have "segments m \<noteq> []" using assms(2) by auto
  then obtain i where i: "segment_index cmp (fst e) m = Some i" by (simp add: segment_index_def)
  obtain A p B where l: "segments m = A @ p # B" "i = length A"
    "\<forall>x \<in> set (flat A). cmp (fst x) (fst e) = Less" "\<forall>x \<in> set (flat B). cmp (fst e) (fst x) = Less"
    by (rule locate [OF assms(1) i])
  have "e \<notin> set (flat A)" "e \<notin> set (flat B)" using l(3,4) cmp_refl by fastforce+
  then have "segments m ! j \<notin> set A" "segments m ! j \<notin> set B" using assms(3) by auto
  then have "j = length A"
    using assms(2) unfolding l(1) by (intro nth_middle_cases)
  with i l(2) show ?thesis by simp
qed

lemma member_group:
  assumes "groups_ok cmp m\<^sub>0 T m" "q \<in> set (segments m)" "x \<in> set (entries q)" "y \<in> set (entries q)"
  shows "segment_index cmp (fst x) m\<^sub>0 = segment_index cmp (fst y) m\<^sub>0"
  using assms unfolding groups_ok_def by metis

text \<open>A key routes to a page of its own group.\<close>

lemma route_group:
  assumes ok\<^sub>0: "pages_ok cmp (segments m\<^sub>0)" and ok: "pages_ok cmp (segments m)" and groups: "groups_ok cmp m\<^sub>0 T m"
    and seg: "segments m = A @ q # B" and idx: "segment_index cmp k m = Some (length A)"
    and below: "\<forall>e \<in> set (flat A). cmp (fst e) k = Less" and e: "e \<in> set (entries q)"
  shows "segment_index cmp (fst e) m\<^sub>0 = segment_index cmp k m\<^sub>0"
proof (cases "segments m\<^sub>0 = []")
  case False
  then obtain i j where ij: "segment_index cmp k m\<^sub>0 = Some i" "segment_index cmp (fst e) m\<^sub>0 = Some j"
    by (simp add: segment_index_def)
  have q: "q \<in> set (segments m)" by (simp add: seg)
  have have_key: "\<exists>x' \<in> set (flat A) \<union> set (entries q) \<union> set (flat B). fst x' = fst x"
    if "n < length (segments m\<^sub>0)" "x \<in> set (entries (segments m\<^sub>0 ! n))" for n x
  proof -
    have "x \<in> set (cow_iter m\<^sub>0)" using that by (auto simp: cow_iter_def)
    then have "fst x \<in> fst ` set (cow_iter m)" using groups unfolding groups_ok_def by blast
    moreover have "set (cow_iter m) = set (flat A) \<union> set (entries q) \<union> set (flat B)"
      by (simp add: cow_iter_def seg Un_assoc)
    ultimately show ?thesis by (metis imageE)
  qed
  have ok': "\<forall>x \<in> set (flat A). \<forall>y \<in> set (flat (q # B)). cmp (fst x) (fst y) = Less"
    "\<forall>x \<in> set (entries q). \<forall>y \<in> set (flat B). cmp (fst x) (fst y) = Less"
    using ok unfolding seg pages_ok_append pages_ok_Cons by blast+
  have order: "cmp (fst x) (fst y) = Less" if "x \<in> set (flat A)" "y \<in> set (entries q)" for x y
    using that ok'(1) [rule_format, of x y] by simp
  have order': "cmp (fst x) (fst y) = Less" if "x \<in> set (entries q)" "y \<in> set (flat B)" for x y
    using that ok'(2) by blast
  have "i = j"
  proof (rule ccontr)
    assume "i \<noteq> j"
    then consider "j < i" | "i < j" by linarith
    then show False
    proof cases
      case 1
      have i: "i < length (segments m\<^sub>0)" by (rule segment_index_less [OF ij(1)])
      then have "entries (segments m\<^sub>0 ! i) \<noteq> []" using ok\<^sub>0 by (simp add: pages_ok_def)
      then obtain x where x: "x \<in> set (entries (segments m\<^sub>0 ! i))" by (meson last_in_set)
      from have_key [OF i x] obtain x' where x': "x' \<in> set (flat A) \<union> set (entries q) \<union> set (flat B)" "fst x' = fst x" by blast
      have gx: "segment_index cmp (fst x') m\<^sub>0 = Some i" using segment_index_member [OF ok\<^sub>0 i x] x'(2) by simp
      have "x' \<notin> set (entries q)" using member_group [OF groups q e, of x'] ij(2) gx 1 by auto
      moreover have "x' \<notin> set (flat A)"
        using order [of x' e] e segment_index_mono [OF _ gx ij(2)] 1 by force
      ultimately have "B \<noteq> []" using x'(1) by auto
      then have "cmp k (fst (last (entries q))) \<noteq> Greater"
        using segment_index_last [OF ok idx] by (simp add: seg)
      moreover have "last (entries q) \<in> set (entries q)" using e by (intro last_in_set) auto
      then have "segment_index cmp (fst (last (entries q))) m\<^sub>0 = Some j"
        using member_group [OF groups q _ e] ij(2) by simp
      ultimately show False using segment_index_mono [OF _ ij(1)] 1 by fastforce
    next
      case 2
      have j: "j < length (segments m\<^sub>0)" by (rule segment_index_less [OF ij(2)])
      with 2 have i: "i < length (segments m\<^sub>0)" "Suc i < length (segments m\<^sub>0)" by linarith+
      let ?u = "last (entries (segments m\<^sub>0 ! i))"
      have "entries (segments m\<^sub>0 ! i) \<noteq> []" using ok\<^sub>0 i by (simp add: pages_ok_def)
      then have u: "?u \<in> set (entries (segments m\<^sub>0 ! i))" by simp
      have ku: "cmp k (fst ?u) \<noteq> Greater" by (rule segment_index_last [OF ok\<^sub>0 ij(1) i(2)])
      from have_key [OF i(1) u] obtain x' where x': "x' \<in> set (flat A) \<union> set (entries q) \<union> set (flat B)" "fst x' = fst ?u" by blast
      have gx: "segment_index cmp (fst x') m\<^sub>0 = Some i" using segment_index_member [OF ok\<^sub>0 i(1) u] x'(2) by simp
      have "x' \<notin> set (entries q)" using member_group [OF groups q e, of x'] ij(2) gx 2 by auto
      moreover have "x' \<notin> set (flat B)"
        using order' [OF e, of x'] segment_index_mono [OF _ ij(2) gx] 2 by force
      ultimately have "cmp (fst x') k = Less" using x'(1) below by blast
      with ku x'(2) show False by (simp add: cmp_Less_rev)
    qed
  qed
  with ij show ?thesis by simp
qed (simp add: segment_index_def)

lemma split_oversized_leases:
  assumes "split_oversized_segment W cmp (length A) (A @ q # B) = A @ ps @ B" "x \<in> set ps" "history_lease q = None"
  shows "history_lease x = None" "epoch_bounds x = None \<or> epoch_bounds x = epoch_bounds q \<and> entries x = entries q"
proof -
  let ?p = "page_make_mut q"
  have lease: "history_lease ?p = None" "epoch_bounds ?p = epoch_bounds q" using assms(3) by (simp_all add: page_make_mut_def)
  obtain l r where lr: "page_split_off W cmp (split_key W ?p) ?p = (l, r)" by (rule prod.exhaust)
  then have new: "history_lease l = None" "epoch_bounds l = None" "history_lease r = None" "epoch_bounds r = None"
    using lease by (auto simp: page_split_off_def Let_def page_of_def split: prod.splits)
  have "ps = [?p] \<or> ps = [l, r]"
    using assms(1) lr by (auto simp: split_oversized_segment_def Let_def split: if_splits)
  with assms(2) new lease show "history_lease x = None" "epoch_bounds x = None \<or> epoch_bounds x = epoch_bounds q \<and> entries x = entries q"
    by auto
qed

lemma cow_insert_pages:
  assumes ok: "cow_ok W cmp m" and room: "Suc (map_len m) \<le> usize_max" and i: "segment_index cmp k m = Some i"
    and lease: "page_shared (segments m ! i) \<or> history_lease (segments m ! i) = None"
  obtains A p B ps where "segments m = A @ p # B" "i = length A" "\<forall>e \<in> set (flat A). cmp (fst e) k = Less"
    "segments (snd (cow_insert W cmp k v m)) = A @ ps @ B" "flat ps = bt_insert cmp k v (entries p)"
    "\<forall>x \<in> set ps. history_lease x = None \<and> epoch_bounds x = None" "bt_get cmp k (cow_iter m) = bt_get cmp k (entries p)"
proof -
  note pok = cow_ok_pages [OF ok]
  obtain A p B where l: "segments m = A @ p # B" "i = length A"
    "\<forall>e \<in> set (flat A). cmp (fst e) k = Less" "\<forall>e \<in> set (flat B). cmp k (fst e) = Less"
    by (rule locate [OF pok i])
  from pok have srt: "bt_sorted cmp (entries p)" by (simp add: l(1) pages_ok_append pages_ok_Cons)
  have pg: "page_ok W p" using ok by (simp add: cow_ok_def l(1))
  obtain prev q where q: "page_insert W cmp k v (page_make_mut p) = (prev, q)" by (rule prod.exhaust)
  have qs: "entries q = bt_insert cmp k v (entries p)" "cache_ok W q"
    using page_insert_spec [of "page_make_mut p" W k v] srt pg by (simp_all add: q page_ok_def)
  have ql: "history_lease q = None" "epoch_bounds q = None"
    using q lease by (auto simp: l(1,2) page_insert_def Let_def page_make_mut_def split: option.splits prod.splits if_splits)
  have "length (entries q) \<le> Suc COW_MAP_MAX_SEGMENT_ENTRIES" "entries q \<noteq> []" "bt_sorted cmp (entries q)"
    using length_bt_insert [OF srt, of k v] pg bt_sorted_insert [OF srt] qs(1) by (auto simp: page_ok_def split: if_splits)
  then obtain ps where ps: "split_oversized_segment W cmp (length A) (A @ q # B) = A @ ps @ B" "flat ps = entries q"
    using split_oversized_spec [of q W A B] qs(2) by blast
  have "segments (snd (cow_insert W cmp k v m)) = A @ ps @ B"
    using i l(1,2) q ps(1) by (simp add: cow_insert_def Let_def)
  moreover have "\<forall>x \<in> set ps. history_lease x = None \<and> epoch_bounds x = None"
    using split_oversized_leases [OF ps(1) _ ql(1)] ql(2) by metis
  moreover have "bt_get cmp k (cow_iter m) = bt_get cmp k (entries p)"
    using located_get [OF l(3,4), of p] by (simp add: cow_iter_def l(1))
  ultimately show thesis using that [of A p B ps] l ps(2) qs(1) by simp
qed

lemma insert_keeps_keys: "fst ` set m \<subseteq> fst ` set (bt_insert cmp k v m)"
  by (induction m) (auto split: ordering.split)

lemma uncharged_all: "\<forall>p \<in> set ps. history_lease p = None \<Longrightarrow> uncharged W ps = entries_payload W (flat ps)"
  by (induction ps) (auto simp: page_uncharged_def)

lemma insert_payload_const:
  assumes "bt_sorted cmp m" "\<And>v v'. value_bytes_of W v = value_bytes_of W v'"
  shows "entries_payload W (bt_insert cmp k v m) =
    entries_payload W m + (if bt_get cmp k m = None then key_bytes W k + value_bytes_of W v else 0)"
proof (cases "bt_get_key_value cmp k m")
  case (Some e)
  have "value_bytes_of W v = value_bytes_of W (snd e)" by (rule assms(2))
  then show ?thesis
    using Some insert_payload [OF assms(1), of W k v] bt_get_payload_le [OF Some, of W] bt_get_key_value_Some [OF Some]
    by (simp add: case_prod_beta entry_payload_def)
next
  case None
  then have "bt_get cmp k m = None" by (simp add: bt_get_key_value_None)
  with None insert_payload [OF assms(1), of W k v] show ?thesis by simp
qed

lemma group_of_page:
  assumes "groups_ok cmp m\<^sub>0 T m" "p \<in> set (segments m)" "entries p \<noteq> []" "\<forall>e \<in> set (entries p). segment_index cmp (fst e) m\<^sub>0 = g"
  shows "if history_lease p = None then g \<in> T \<and> epoch_bounds p = None
    else g \<notin> T \<and> (\<exists>j < length (segments m\<^sub>0). g = Some j \<and> p = segments m\<^sub>0 ! j)"
proof -
  from assms(1,2) obtain g' where g': "\<forall>e \<in> set (entries p). segment_index cmp (fst e) m\<^sub>0 = g'"
    "if history_lease p = None then g' \<in> T \<and> epoch_bounds p = None
     else g' \<notin> T \<and> (\<exists>j < length (segments m\<^sub>0). g' = Some j \<and> p = segments m\<^sub>0 ! j)"
    unfolding groups_ok_def by blast
  have "g' = g" using assms(3,4) g'(1) by (metis last_in_set)
  with g'(2) show ?thesis by (simp only:)
qed

text \<open>Replacing a page by unleased pages of its group.\<close>

lemma groups_replace:
  assumes groups: "groups_ok cmp m\<^sub>0 T m" and ok: "pages_ok cmp (segments m)" and seg: "segments m = A @ p # B"
    and p: "\<forall>e \<in> set (entries p). segment_index cmp (fst e) m\<^sub>0 = g"
    and seg': "segments m' = A @ ps @ B" and ps: "\<forall>x \<in> set ps. history_lease x = None \<and> epoch_bounds x = None"
    and pse: "\<forall>e \<in> set (flat ps). segment_index cmp (fst e) m\<^sub>0 = g"
    and keys: "fst ` set (cow_iter m) \<subseteq> fst ` set (cow_iter m')"
  shows "groups_ok cmp m\<^sub>0 (insert g T) m'"
proof -
  have ne: "entries p \<noteq> []" using ok by (simp add: seg pages_ok_append pages_ok_Cons)
  have gp: "if history_lease p = None then g \<in> T \<and> epoch_bounds p = None
      else g \<notin> T \<and> (\<exists>j < length (segments m\<^sub>0). g = Some j \<and> p = segments m\<^sub>0 ! j)"
    by (rule group_of_page [OF groups _ ne p]) (simp add: seg)
  have apart: "x \<noteq> p" if "x \<in> set A \<union> set B" for x
  proof
    assume "x = p"
    define e where "e = last (entries p)"
    have e: "e \<in> set (entries p)" using ne by (simp add: e_def)
    with that \<open>x = p\<close> have "e \<in> set (flat A) \<or> e \<in> set (flat B)" by auto
    moreover have "\<forall>x \<in> set (flat A). \<forall>y \<in> set (flat (p # B)). cmp (fst x) (fst y) = Less"
      "\<forall>x \<in> set (entries p). \<forall>y \<in> set (flat B). cmp (fst x) (fst y) = Less"
      using ok unfolding seg pages_ok_append pages_ok_Cons by blast+
    moreover have "e \<in> set (flat (p # B))" using e by simp
    ultimately show False using e cmp_refl [of "fst e"] by (metis ordering.distinct(1))
  qed
  have "\<exists>h. (\<forall>e \<in> set (entries x). segment_index cmp (fst e) m\<^sub>0 = h) \<and>
      (if history_lease x = None then h \<in> insert g T \<and> epoch_bounds x = None
       else h \<notin> insert g T \<and> (\<exists>j < length (segments m\<^sub>0). h = Some j \<and> x = segments m\<^sub>0 ! j))"
    if x: "x \<in> set (segments m')" for x
  proof (cases "x \<in> set ps")
    case True
    then have "\<forall>e \<in> set (entries x). e \<in> set (flat ps)" by auto
    with True ps pse show ?thesis by (intro exI [of _ g]) auto
  next
    case False
    then have AB: "x \<in> set A \<union> set B" using x by (auto simp: seg')
    then have "x \<in> set (segments m)" by (auto simp: seg)
    with groups obtain h where h: "\<forall>e \<in> set (entries x). segment_index cmp (fst e) m\<^sub>0 = h"
      "if history_lease x = None then h \<in> T \<and> epoch_bounds x = None
       else h \<notin> T \<and> (\<exists>j < length (segments m\<^sub>0). h = Some j \<and> x = segments m\<^sub>0 ! j)"
      unfolding groups_ok_def by blast
    have "h \<noteq> g" if "history_lease x \<noteq> None"
      using that h(2) gp apart [OF AB] by (auto split: if_splits)
    with h show ?thesis by (intro exI [of _ h]) auto
  qed
  moreover have "fst ` set (cow_iter m\<^sub>0) \<subseteq> fst ` set (cow_iter m')"
    using groups keys unfolding groups_ok_def by blast
  ultimately show ?thesis unfolding groups_ok_def by blast
qed

lemma insert_groups:
  assumes ok\<^sub>0: "pages_ok cmp (segments m\<^sub>0)" and shared: "\<forall>p \<in> set (segments m\<^sub>0). page_shared p"
    and ok: "cow_ok W cmp m" and room: "Suc (map_len m) \<le> usize_max" and groups: "groups_ok cmp m\<^sub>0 T m"
    and const: "\<And>v v'. value_bytes_of W v = value_bytes_of W v'"
  shows "groups_ok cmp m\<^sub>0 (insert (segment_index cmp k m\<^sub>0) T) (snd (cow_insert W cmp k v m)) \<and>
    uncharged W (segments (snd (cow_insert W cmp k v m))) =
      uncharged W (segments m) +
      (if segment_index cmp k m\<^sub>0 \<in> T then 0 else group_payload W m\<^sub>0 (segment_index cmp k m\<^sub>0)) +
      (if bt_get cmp k (cow_iter m) = None then key_bytes W k + value_bytes_of W v else 0)"
proof (cases "segment_index cmp k m")
  case None
  then have m: "segments m = []" by (auto simp: segment_index_def split: if_splits)
  then have "cow_iter m\<^sub>0 = []" using groups by (simp add: groups_ok_def cow_iter_def)
  then have m\<^sub>0: "segments m\<^sub>0 = []" using ok\<^sub>0 by (cases "segments m\<^sub>0") (auto simp: cow_iter_def pages_ok_def)
  show ?thesis
    by (simp add: cow_insert_def None m groups_ok_def segment_index_def m\<^sub>0 page_of_def cow_iter_def page_uncharged_def
        entry_payload_def group_payload_def)
next
  case (Some i)
  let ?g = "segment_index cmp k m\<^sub>0" and ?m = "snd (cow_insert W cmp k v m)"
  note pok = cow_ok_pages [OF ok]
  obtain A p B where l: "segments m = A @ p # B" "i = length A" "\<forall>e \<in> set (flat A). cmp (fst e) k = Less"
    by (rule locate [OF pok Some])
  have pg: "\<forall>e \<in> set (entries p). segment_index cmp (fst e) m\<^sub>0 = ?g"
    using route_group [OF ok\<^sub>0 pok groups l(1) Some [unfolded l(2)] l(3)] by blast
  have ne: "entries p \<noteq> []" and srt: "bt_sorted cmp (entries p)" using pok by (simp_all add: l(1) pages_ok_append pages_ok_Cons)
  have p: "if history_lease p = None then ?g \<in> T \<and> epoch_bounds p = None
      else ?g \<notin> T \<and> (\<exists>j < length (segments m\<^sub>0). ?g = Some j \<and> p = segments m\<^sub>0 ! j)"
    by (rule group_of_page [OF groups _ ne pg]) (simp add: l(1))
  then have lease: "page_shared (segments m ! i) \<or> history_lease (segments m ! i) = None"
    using shared by (auto simp: l(1,2) split: if_splits)
  obtain A' p' B' ps where n: "segments m = A' @ p' # B'" "i = length A'"
    "segments ?m = A' @ ps @ B'" "flat ps = bt_insert cmp k v (entries p')"
    "\<forall>x \<in> set ps. history_lease x = None \<and> epoch_bounds x = None" "bt_get cmp k (cow_iter m) = bt_get cmp k (entries p')"
    by (rule cow_insert_pages [OF ok room Some lease])
  with l(1,2) have same: "A' = A" "p' = p" "B' = B" by auto
  have "\<forall>e \<in> set (flat ps). segment_index cmp (fst e) m\<^sub>0 = ?g"
    using pg keys_bt_insert [of _ k v "entries p"] unfolding n(4) same by force
  moreover have "fst ` set (cow_iter m) \<subseteq> fst ` set (cow_iter ?m)"
    unfolding cow_insert_spec(2) [OF ok room] by (rule insert_keeps_keys)
  ultimately have "groups_ok cmp m\<^sub>0 (insert ?g T) ?m"
    using groups_replace [OF groups pok l(1) pg] n(3,5) same by blast
  moreover have "uncharged W (segments ?m) = uncharged W A + uncharged W B + entries_payload W (bt_insert cmp k v (entries p))"
    using uncharged_all [of ps W] n(3-5) same by simp
  ultimately show ?thesis
    using p insert_payload_const [OF srt const, of k v] n(6) same
    by (auto simp: l(1) page_uncharged_def group_payload_def split: if_splits)
qed

end

end
