(* ===== verification/Version_Index.thy ===== *)
theory Version_Index
  imports Version_Pages
begin

text \<open>
  The index of committed versions (\<open>VersionIndex\<close> of \<open>crates/storage/src/version.rs\<close>): the newest
  stamp of every identity written, two inline barriers, and the floor below which history has been
  reclaimed. Theorems: staging a commit never panics, because the credit reserved up front is exactly
  the weight of the pages it creates, and it either refuses with the index untouched or returns an index
  within its byte limit. What pruning keeps is the subject of \<open>Version_Prune\<close>.

  \<^item> An operation that can panic (an assertion, an \<open>expect\<close>) returns an option, \<open>None\<close> for the panic;
    staging, which can also refuse, returns a \<open>staging\<close>.
  \<^item> Debug assertions are not part of the model: they appear as hypotheses.
\<close>

record version_index =
  history_floor :: nat
  database_barrier :: "version_stamp option"
  read_barrier :: "version_stamp option"
  stamps :: version_map
  vi_bytes :: nat
  vi_max_bytes :: nat

record version_conflict =
  conflict_key :: version_key
  committed_epoch :: nat

definition version_stamp_bytes :: "version_layout \<Rightarrow> version_key \<Rightarrow> nat" where
  "version_stamp_bytes L k = sat_add (version_key_bytes L k) (sizeof_stamp L)"

definition inline_barrier_bytes :: "version_layout \<Rightarrow> nat" where
  "inline_barrier_bytes L = version_stamp_bytes L VDatabase + version_stamp_bytes L VReadBarrier"

section \<open>Construction and lookup\<close>

definition with_history_limit :: "version_layout \<Rightarrow> nat \<Rightarrow> nat \<Rightarrow> (version_index \<times> history_budget) option" where
  "with_history_limit L max_bytes max_history =
     (if max_bytes < inline_barrier_bytes L then None
      else Some (\<lparr> history_floor = 0, database_barrier = None, read_barrier = None, stamps = cow_empty,
                   vi_bytes = inline_barrier_bytes L, vi_max_bytes = max_bytes \<rparr>,
                 budget_new max_history))"

definition DEFAULT_MAX_VERSION_INDEX_BYTES :: nat where "DEFAULT_MAX_VERSION_INDEX_BYTES = 64 * 1024 * 1024"
definition DEFAULT_MAX_RETAINED_VERSION_HISTORY_BYTES :: nat where
  "DEFAULT_MAX_RETAINED_VERSION_HISTORY_BYTES = 256 * 1024 * 1024"

definition version_index_default :: "version_layout \<Rightarrow> (version_index \<times> history_budget) option" where
  "version_index_default L =
     with_history_limit L DEFAULT_MAX_VERSION_INDEX_BYTES DEFAULT_MAX_RETAINED_VERSION_HISTORY_BYTES"

definition insert_stamp :: "version_layout \<Rightarrow> version_key \<Rightarrow> version_stamp \<Rightarrow> version_index \<Rightarrow> version_index" where
  "insert_stamp L k s vi =
     (case k of
        VDatabase \<Rightarrow> vi\<lparr>database_barrier := Some s\<rparr>
      | VReadBarrier \<Rightarrow> vi\<lparr>read_barrier := Some s\<rparr>
      | _ \<Rightarrow>
          vi\<lparr>vi_bytes := (if cow_contains version_key_cmp k (stamps vi) then vi_bytes vi
                           else sat_add (vi_bytes vi) (version_stamp_bytes L k)),
              stamps := snd (cow_insert (version_weight L) version_key_cmp k s (stamps vi))\<rparr>)"

definition apply_database_barrier :: "version_layout \<Rightarrow> nat \<Rightarrow> version_index \<Rightarrow> version_index" where
  "apply_database_barrier L epoch vi =
     insert_stamp L VDatabase \<lparr> stamp_epoch = epoch, stamp_disposition = Live \<rparr> vi"

definition read_baseline :: "version_layout \<Rightarrow> nat \<Rightarrow> version_index \<Rightarrow> version_index" where
  "read_baseline L epoch vi =
     (let baseline = \<lparr> history_floor = epoch, database_barrier = None, read_barrier = None, stamps = cow_empty,
                       vi_bytes = inline_barrier_bytes L, vi_max_bytes = vi_max_bytes vi \<rparr>
      in if 0 < epoch then apply_database_barrier L epoch baseline else baseline)"

definition version_len :: "version_index \<Rightarrow> nat" where
  "version_len vi =
     map_len (stamps vi) + (if database_barrier vi \<noteq> None then 1 else 0) + (if read_barrier vi \<noteq> None then 1 else 0)"

definition version_is_empty :: "version_index \<Rightarrow> bool" where
  "version_is_empty vi \<longleftrightarrow> map_len (stamps vi) = 0 \<and> database_barrier vi = None \<and> read_barrier vi = None"

definition stamp :: "version_key \<Rightarrow> version_index \<Rightarrow> version_stamp option" where
  "stamp k vi =
     (case k of
        VDatabase \<Rightarrow> database_barrier vi
      | VReadBarrier \<Rightarrow> read_barrier vi
      | _ \<Rightarrow> cow_get version_key_cmp k (stamps vi))"

definition stamps_in_range ::
    "version_key \<Rightarrow> version_key \<Rightarrow> version_index \<Rightarrow> (version_key \<times> version_stamp) list option" where
  "stamps_in_range lo hi vi = cow_range version_key_cmp lo hi (stamps vi)"

fun conflict_scan :: "version_index \<Rightarrow> nat \<Rightarrow> version_key list \<Rightarrow> version_conflict option" where
  "conflict_scan vi read_epoch [] = None"
| "conflict_scan vi read_epoch (k # ks) =
     (case stamp k vi of
        None \<Rightarrow> conflict_scan vi read_epoch ks
      | Some s \<Rightarrow>
          if read_epoch < stamp_epoch s then Some \<lparr> conflict_key = k, committed_epoch = stamp_epoch s \<rparr>
          else conflict_scan vi read_epoch ks)"

definition first_conflict :: "version_index \<Rightarrow> version_write_set \<Rightarrow> nat \<Rightarrow> version_conflict option" where
  "first_conflict vi ws read_epoch =
     (if writes ws \<noteq> [] \<and> read_epoch < history_floor vi then
        Some \<lparr> conflict_key = VDatabase, committed_epoch = history_floor vi \<rparr>
      else conflict_scan vi read_epoch (map fst (writes ws)))"

definition history_reclaimed_after :: "version_index \<Rightarrow> nat \<Rightarrow> bool" where
  "history_reclaimed_after vi read_epoch \<longleftrightarrow> read_epoch < history_floor vi"

section \<open>Staging a commit\<close>

fun admits_loop :: "version_layout \<Rightarrow> version_index \<Rightarrow> version_key list \<Rightarrow> nat \<Rightarrow> bool" where
  "admits_loop L vi [] bytes \<longleftrightarrow> bytes \<le> vi_max_bytes vi"
| "admits_loop L vi (k # ks) bytes \<longleftrightarrow>
     (if \<not> is_barrier_key k \<and> \<not> cow_contains version_key_cmp k (stamps vi) then
        (case checked_add bytes (version_stamp_bytes L k) of
           None \<Rightarrow> False
         | Some next' \<Rightarrow> next' \<le> vi_max_bytes vi \<and> admits_loop L vi ks next')
      else bytes \<le> vi_max_bytes vi \<and> admits_loop L vi ks bytes)"

definition admits :: "version_layout \<Rightarrow> version_index \<Rightarrow> version_write_set \<Rightarrow> bool" where
  "admits L vi ws \<longleftrightarrow> admits_loop L vi (map fst (writes ws)) (vi_bytes vi)"

text \<open>The weight of the keys that a write set adds, on top of \<open>bytes\<close>; \<open>None\<close> on overflow.\<close>

fun new_key_bytes :: "version_layout \<Rightarrow> version_map \<Rightarrow> version_key list \<Rightarrow> nat \<Rightarrow> nat option" where
  "new_key_bytes L m [] bytes = Some bytes"
| "new_key_bytes L m (k # ks) bytes =
     (if \<not> is_barrier_key k \<and> \<not> cow_contains version_key_cmp k m then
        Option.bind (checked_add bytes (version_stamp_bytes L k)) (new_key_bytes L m ks)
      else new_key_bytes L m ks bytes)"

text \<open>The pages to pay for: those without credit, and those that the edit will copy.\<close>

fun page_credit :: "nat set \<Rightarrow> nat \<Rightarrow> (nat \<times> bool \<times> bool) list \<Rightarrow> nat \<Rightarrow> nat option" where
  "page_credit touched i [] bytes = Some bytes"
| "page_credit touched i ((payload, shared, charged) # pages) bytes =
     Option.bind (if charged then Some bytes else checked_add bytes payload)
       (\<lambda>b. Option.bind (if i \<in> touched then checked_add b payload else Some b)
         (page_credit touched (Suc i) pages))"

definition preflight :: "nat \<Rightarrow> history_budget \<Rightarrow> (history_budget \<times> nat option) option" where
  "preflight bytes b =
     (if 0 < bytes then map_option (\<lambda>b'. (b', Some bytes)) (budget_reserve bytes b) else Some (b, None))"

definition refund :: "nat option \<Rightarrow> history_budget \<Rightarrow> history_budget option" where
  "refund res b = (case res of None \<Rightarrow> Some b | Some credit \<Rightarrow> lease_drop credit b)"

definition apply_prepared :: "version_layout \<Rightarrow> version_write_set \<Rightarrow> nat \<Rightarrow> version_index \<Rightarrow> version_index" where
  "apply_prepared L ws epoch vi =
     foldl (\<lambda>vi (k, d). insert_stamp L k \<lparr> stamp_epoch = epoch, stamp_disposition = d \<rparr> vi) vi (writes ws)"

text \<open>A staged commit: the index it was staged from (whose pages may have received credit), the new
  index, and the budget.\<close>

datatype staging = Panicked | Refused | Staged version_index version_index history_budget

definition charge_index :: "version_layout \<Rightarrow> version_index \<Rightarrow> nat option \<Rightarrow> (version_index \<times> nat option) option" where
  "charge_index L vi res =
     map_option (\<lambda>(ps, r). (vi\<lparr>stamps := (stamps vi)\<lparr>segments := ps\<rparr>\<rparr>, r))
       (charge_version_pages L (segments (stamps vi)) res)"

definition touched_pages :: "version_index \<Rightarrow> version_key list \<Rightarrow> nat set" where
  "touched_pages vi ks =
     set (List.map_filter (\<lambda>k. if is_barrier_key k then None else version_page_for_key k (stamps vi)) ks)"

definition stage :: "version_layout \<Rightarrow> history_budget \<Rightarrow> version_index \<Rightarrow> version_write_set \<Rightarrow> nat \<Rightarrow> staging" where
  "stage L b vi ws epoch =
     (if \<not> admits L vi ws then Refused
      else case version_page_layout L (segments (stamps vi)) of
        None \<Rightarrow> Panicked
      | Some pages \<Rightarrow>
        (case Option.bind (new_key_bytes L (stamps vi) (map fst (writes ws)) 0)
                (page_credit (touched_pages vi (map fst (writes ws))) 0 pages) of
           None \<Rightarrow> Refused
         | Some bytes \<Rightarrow>
           (case preflight bytes b of
              None \<Rightarrow> Refused
            | Some (b1, res) \<Rightarrow>
              (case charge_index L vi res of
                 None \<Rightarrow> Panicked
               | Some (self, res1) \<Rightarrow>
                 (let shared = self\<lparr>stamps := cow_clone (stamps self)\<rparr> in
                  case charge_index L (apply_prepared L ws epoch shared) res1 of
                    None \<Rightarrow> Panicked
                  | Some (staged, res2) \<Rightarrow>
                    (case refund res2 b1 of
                       None \<Rightarrow> Panicked
                     | Some b2 \<Rightarrow> Staged shared staged b2))))))"

text \<open>The weight left when every read summary is dropped, and that weight with the new keys.\<close>

fun retained_key_bytes :: "version_layout \<Rightarrow> version_key list \<Rightarrow> nat \<Rightarrow> nat option" where
  "retained_key_bytes L [] bytes = Some bytes"
| "retained_key_bytes L (k # ks) bytes =
     (if is_read_summary_key k then retained_key_bytes L ks bytes
      else Option.bind (checked_add bytes (version_stamp_bytes L k)) (retained_key_bytes L ks))"

definition collapsed_write_bytes :: "version_layout \<Rightarrow> version_index \<Rightarrow> version_write_set \<Rightarrow> (nat \<times> nat) option" where
  "collapsed_write_bytes L vi ws =
     Option.bind (retained_key_bytes L (map fst (cow_iter (stamps vi))) (inline_barrier_bytes L))
       (\<lambda>retained. Option.bind (new_key_bytes L (stamps vi) (map fst (writes ws)) retained)
         (\<lambda>bytes. if bytes \<le> vi_max_bytes vi then Some (retained, bytes) else None))"

definition admits_after_read_summary_collapse :: "version_layout \<Rightarrow> version_index \<Rightarrow> version_write_set \<Rightarrow> bool" where
  "admits_after_read_summary_collapse L vi ws \<longleftrightarrow> collapsed_write_bytes L vi ws \<noteq> None"

definition collapsed_index :: "version_layout \<Rightarrow> nat \<Rightarrow> version_index \<Rightarrow> version_index" where
  "collapsed_index L retained_bytes vi =
     vi\<lparr>stamps := from_ordered_entries (version_weight L) version_key_cmp
                   (filter (\<lambda>e. \<not> is_read_summary_key (fst e)) (cow_iter (stamps vi))),
        vi_bytes := retained_bytes\<rparr>"

definition stage_with_read_barrier ::
    "version_layout \<Rightarrow> history_budget \<Rightarrow> version_index \<Rightarrow> version_write_set \<Rightarrow> nat \<Rightarrow> staging" where
  "stage_with_read_barrier L b vi ws epoch =
     (case collapsed_write_bytes L vi ws of
        None \<Rightarrow> Refused
      | Some (retained_bytes, bytes) \<Rightarrow>
        (case version_page_layout L (segments (stamps vi)) of
           None \<Rightarrow> Panicked
         | Some pages \<Rightarrow>
           (case page_credit {} 0 pages (bytes - inline_barrier_bytes L) of
              None \<Rightarrow> Refused
            | Some history_bytes \<Rightarrow>
              (case preflight history_bytes b of
                 None \<Rightarrow> Refused
               | Some (b1, res) \<Rightarrow>
                 (case charge_index L vi res of
                    None \<Rightarrow> Panicked
                  | Some (self, res1) \<Rightarrow>
                    (case charge_index L (apply_prepared L ws epoch (collapsed_index L retained_bytes self)) res1 of
                       None \<Rightarrow> Panicked
                     | Some (staged, res2) \<Rightarrow>
                       (case refund res2 b1 of
                          None \<Rightarrow> Panicked
                        | Some b2 \<Rightarrow>
                            Staged self
                              (insert_stamp L VReadBarrier \<lparr> stamp_epoch = epoch, stamp_disposition = Live \<rparr> staged)
                              b2)))))))"

section \<open>Recovery and pruning\<close>

definition recount_bytes :: "version_layout \<Rightarrow> version_index \<Rightarrow> version_index option" where
  "recount_bytes L vi =
     map_option (\<lambda>pages. vi\<lparr>vi_bytes := foldl (\<lambda>bytes (payload, _). sat_add bytes payload) (inline_barrier_bytes L) pages\<rparr>)
       (version_page_layout L (segments (stamps vi)))"

definition from_live_keys_at_epoch ::
    "version_layout \<Rightarrow> version_key list \<Rightarrow> nat \<Rightarrow> (version_index \<times> history_budget) option" where
  "from_live_keys_at_epoch L keys epoch =
     (let live = \<lparr> stamp_epoch = epoch, stamp_disposition = Live \<rparr>;
          all = fold (\<lambda>k. bt_insert version_key_cmp k live) keys [];
          database = bt_get version_key_cmp VDatabase all;
          all1 = bt_remove version_key_cmp VDatabase all;
          barrier = bt_get version_key_cmp VReadBarrier all1;
          rest = bt_remove version_key_cmp VReadBarrier all1
      in Option.bind (version_index_default L) (\<lambda>(vi, b).
           map_option (\<lambda>vi'. (vi', b))
             (recount_bytes L (vi\<lparr>database_barrier := database, read_barrier := barrier,
                stamps := from_ordered_entries (version_weight L) version_key_cmp rest\<rparr>))))"

text \<open>\<open>apply\<close> refuses an index that holds credit.\<close>

definition apply_unmanaged :: "version_layout \<Rightarrow> version_write_set \<Rightarrow> nat \<Rightarrow> version_index \<Rightarrow> version_index option" where
  "apply_unmanaged L ws epoch vi =
     Option.bind (version_page_layout L (segments (stamps vi))) (\<lambda>pages.
       if list_ex (\<lambda>(_, _, charged). charged) pages then None else Some (apply_prepared L ws epoch vi))"

definition barrier_after :: "(version_stamp \<Rightarrow> bool) \<Rightarrow> version_stamp option \<Rightarrow> version_stamp option" where
  "barrier_after keep s = (case s of None \<Rightarrow> None | Some t \<Rightarrow> if keep t then Some t else None)"

text \<open>The last step of \<open>prune_map\<close>: edit the pages, charge the copies, recount, and return what is left of
  the reservation.\<close>

definition prune_pages ::
    "version_layout \<Rightarrow> (version_stamp \<Rightarrow> bool) \<Rightarrow> page_retention list \<Rightarrow> bool \<Rightarrow> nat option \<Rightarrow> version_index \<Rightarrow>
     history_budget \<Rightarrow> (version_index \<times> history_budget) option" where
  "prune_pages L keep plan managed res vi b =
     Option.bind (retain_version_pages L keep plan (stamps vi) b) (\<lambda>(m, b1).
       Option.bind (if managed then charge_index L (vi\<lparr>stamps := m\<rparr>) res else Some (vi\<lparr>stamps := m\<rparr>, res)) (\<lambda>(vi1, res1).
         Option.bind (recount_bytes L vi1) (\<lambda>vi2. map_option (\<lambda>b2. (vi2, b2)) (refund res1 b1))))"

definition prune_map ::
    "version_layout \<Rightarrow> (version_stamp \<Rightarrow> bool) \<Rightarrow> nat option \<Rightarrow> version_index \<Rightarrow> history_budget \<Rightarrow>
     (version_index \<times> history_budget) option" where
  "prune_map L keep floor' vi b =
     (let plan = version_retention_plan keep floor' (stamps vi)
      in if list_all (\<lambda>a. a = Keep) plan then Some (vi, b)
         else Option.bind (version_page_layout L (segments (stamps vi))) (\<lambda>pages.
           let managed = list_ex (\<lambda>(_, _, charged). charged) pages;
               bytes = (if managed then usize_sum (map (\<lambda>((payload, _), _). payload)
                          (filter (\<lambda>((_, shared, _), a). shared \<and> a = Mixed) (zip pages plan))) else 0);
               reserved = (if 0 < bytes then budget_reserve bytes b else None);
               refused = 0 < bytes \<and> reserved = None;
               plan' = (if refused then map (\<lambda>a. if a = Mixed then Keep else a) plan else plan);
               b1 = (case reserved of None \<Rightarrow> b | Some b' \<Rightarrow> b');
               res = (case reserved of None \<Rightarrow> None | Some _ \<Rightarrow> Some bytes)
           in if refused \<and> Drop \<notin> set plan' then Some (vi, b)
              else prune_pages L keep plan' managed res vi b1))"

definition prune_tombstones_before ::
    "version_layout \<Rightarrow> nat \<Rightarrow> version_index \<Rightarrow> history_budget \<Rightarrow> (version_index \<times> history_budget) option" where
  "prune_tombstones_before L oldest vi b =
     (let keep = (\<lambda>s. stamp_disposition s \<noteq> Tombstone \<or> oldest \<le> stamp_epoch s)
      in prune_map L keep None
           (vi\<lparr>history_floor := max (history_floor vi) (oldest - 1),
               database_barrier := barrier_after keep (database_barrier vi),
               read_barrier := barrier_after keep (read_barrier vi)\<rparr>) b)"

definition prune_before ::
    "version_layout \<Rightarrow> nat \<Rightarrow> version_index \<Rightarrow> history_budget \<Rightarrow> (version_index \<times> history_budget) option" where
  "prune_before L oldest vi b =
     (let keep = (\<lambda>s. oldest \<le> stamp_epoch s)
      in prune_map L keep (Some oldest)
           (vi\<lparr>history_floor := max (history_floor vi) (oldest - 1),
               database_barrier := barrier_after keep (database_barrier vi),
               read_barrier := barrier_after keep (read_barrier vi)\<rparr>) b)"

section \<open>Invariant\<close>

definition layout_ok :: "version_layout \<Rightarrow> bool" where
  "layout_ok L \<longleftrightarrow> 0 < sizeof_key L \<and> 2 * (sizeof_key L + sizeof_stamp L) \<le> usize_max"

text \<open>The stamps: an ordered map without barriers whose weight is accounted exactly.\<close>

definition stamps_ok :: "version_layout \<Rightarrow> version_index \<Rightarrow> bool" where
  "stamps_ok L vi \<longleftrightarrow>
     cow_ok (version_weight L) version_key_cmp (stamps vi) \<and>
     (\<forall>e \<in> set (cow_iter (stamps vi)). \<not> is_barrier_key (fst e)) \<and>
     vi_bytes vi = inline_barrier_bytes L + vpayload L (cow_iter (stamps vi)) \<and> vi_bytes vi \<le> usize_max"

definition bounds_ok :: "version_page \<Rightarrow> bool" where
  "bounds_ok p \<longleftrightarrow>
     (case epoch_bounds p of
        None \<Rightarrow> True
      | Some (lo, hi) \<Rightarrow> \<forall>e \<in> set (entries p). lo \<le> stamp_epoch (snd e) \<and> stamp_epoch (snd e) \<le> hi)"

definition lease_ok :: "version_layout \<Rightarrow> version_page \<Rightarrow> bool" where
  "lease_ok L p \<longleftrightarrow> (case history_lease p of None \<Rightarrow> True | Some r \<Rightarrow> r = vpayload L (entries p))"

definition index_ok :: "version_layout \<Rightarrow> version_index \<Rightarrow> bool" where
  "index_ok L vi \<longleftrightarrow>
     stamps_ok L vi \<and> vi_max_bytes vi \<le> usize_max \<and>
     (\<forall>p \<in> set (segments (stamps vi)). lease_ok L p \<and> bounds_ok p) \<and>
     ((\<forall>p \<in> set (segments (stamps vi)). history_lease p \<noteq> None) \<or>
      (\<forall>p \<in> set (segments (stamps vi)). history_lease p = None))"

subsection \<open>Weights\<close>

lemma version_weight_simps [simp]:
  "key_bytes (version_weight L) = version_key_bytes L" "value_bytes_of (version_weight L) v = sizeof_stamp L"
  "pressure_of (version_weight L) v = 0"
  by (simp_all add: version_weight_def)

lemma version_key_bytes_pos: "layout_ok L \<Longrightarrow> 0 < version_key_bytes L k"
  by (cases k) (auto simp: layout_ok_def sat_add_def usize_max_def)

lemma inline_pos: "layout_ok L \<Longrightarrow> 0 < inline_barrier_bytes L" "layout_ok L \<Longrightarrow> inline_barrier_bytes L \<le> usize_max"
  by (auto simp: layout_ok_def inline_barrier_bytes_def version_stamp_bytes_def sat_add_def usize_max_def)

lemma entry_payload_version [simp]: "entry_payload (version_weight L) e = version_key_bytes L (fst e) + sizeof_stamp L"
  by (simp add: entry_payload_def)

lemma version_stamp_bytes_exact:
  "version_stamp_bytes L k < usize_max \<Longrightarrow> version_stamp_bytes L k = version_key_bytes L k + sizeof_stamp L"
  by (auto simp: version_stamp_bytes_def sat_add_def)

lemma payload_pos: "layout_ok L \<Longrightarrow> es \<noteq> [] \<Longrightarrow> 0 < vpayload L es"
  by (cases es) (auto simp: version_key_bytes_pos)

lemma length_le_payload: "layout_ok L \<Longrightarrow> length es \<le> vpayload L es"
proof (induction es)
  case (Cons e es)
  then show ?case using version_key_bytes_pos [of L "fst e"] by simp
qed simp

lemma stamps_ok_room: "layout_ok L \<Longrightarrow> stamps_ok L vi \<Longrightarrow> Suc (map_len (stamps vi)) \<le> usize_max"
  using length_le_payload [of L "cow_iter (stamps vi)"] inline_pos(1) [of L] by (auto simp: stamps_ok_def cow_ok_def)

lemma stamps_ok_pages:
  assumes "stamps_ok L vi"
  shows "\<forall>p \<in> set (segments (stamps vi)). cache_ok (version_weight L) p"
    "vpayload L (flat (segments (stamps vi))) \<le> usize_max" "\<forall>p \<in> set (segments (stamps vi)). entries p \<noteq> []"
    "pages_ok version_key_cmp (segments (stamps vi))"
  using assms cow_ok_pages by (auto simp: stamps_ok_def cow_ok_def list_all_iff page_ok_def cow_iter_def)

lemma uncharged_zero:
  assumes "layout_ok L" "\<forall>p \<in> set ps. entries p \<noteq> []"
  shows "uncharged (version_weight L) ps = 0 \<longleftrightarrow> (\<forall>p \<in> set ps. history_lease p \<noteq> None)"
  using assms by (induction ps) (auto simp: page_uncharged_def dest: payload_pos)

subsection \<open>Keys that a write set adds\<close>

definition new_keys :: "version_map \<Rightarrow> version_key list \<Rightarrow> version_key list" where
  "new_keys m ks = filter (\<lambda>k. \<not> is_barrier_key k \<and> \<not> cow_contains version_key_cmp k m) ks"

definition new_bytes :: "version_layout \<Rightarrow> version_map \<Rightarrow> version_key list \<Rightarrow> nat" where
  "new_bytes L m ks = sum_list (map (version_stamp_bytes L) (new_keys m ks))"

lemma new_bytes_simps [simp]:
  "new_bytes L m [] = 0"
  "new_bytes L m (k # ks) =
     (if \<not> is_barrier_key k \<and> \<not> cow_contains version_key_cmp k m then version_stamp_bytes L k else 0) + new_bytes L m ks"
  by (simp_all add: new_bytes_def new_keys_def)

lemma new_bytes_none: "new_keys m ks = [] \<Longrightarrow> new_bytes L m ks = 0"
  by (simp add: new_bytes_def)

lemma new_key_bytes_iff:
  "new_key_bytes L m ks bytes = Some n \<longleftrightarrow>
     n = bytes + new_bytes L m ks \<and> (new_keys m ks = [] \<or> n \<le> usize_max)"
proof (induction ks arbitrary: bytes)
  case (Cons k ks)
  show ?case
  proof (cases "\<not> is_barrier_key k \<and> \<not> cow_contains version_key_cmp k m")
    case True
    have "new_keys m (k # ks) \<noteq> []" using True by (simp add: new_keys_def)
    then show ?thesis
      using True Cons.IH [of "bytes + version_stamp_bytes L k"]
      by (cases "bytes + version_stamp_bytes L k \<le> usize_max") (auto simp: checked_add_def new_bytes_none)
  next
    case False
    then have "new_keys m (k # ks) = new_keys m ks" by (auto simp: new_keys_def)
    with False Cons.IH [of bytes] show ?thesis by auto
  qed
qed (auto simp: new_keys_def)

lemma admits_loop_iff:
  "vi_max_bytes vi \<le> usize_max \<Longrightarrow>
   admits_loop L vi ks bytes \<longleftrightarrow> bytes + new_bytes L (stamps vi) ks \<le> vi_max_bytes vi"
proof (induction ks arbitrary: bytes)
  case (Cons k ks)
  show ?case
  proof (cases "\<not> is_barrier_key k \<and> \<not> cow_contains version_key_cmp k (stamps vi)")
    case True
    then show ?thesis
      using Cons.IH [OF Cons.prems, of "bytes + version_stamp_bytes L k"] Cons.prems
      by (cases "bytes + version_stamp_bytes L k \<le> usize_max") (simp_all add: checked_add_def, linarith+)
  next
    case False
    then show ?thesis using Cons.IH [OF Cons.prems, of bytes] by auto
  qed
qed simp

lemma admits_iff:
  "vi_max_bytes vi \<le> usize_max \<Longrightarrow>
   admits L vi ws \<longleftrightarrow> vi_bytes vi + new_bytes L (stamps vi) (map fst (writes ws)) \<le> vi_max_bytes vi"
  by (simp add: admits_def admits_loop_iff)

lemma member_le_sum: "k \<in> set ks \<Longrightarrow> f k \<le> sum_list (map f ks)" for f :: "'a \<Rightarrow> nat"
  by (induction ks) auto

lemma new_stamp_bytes:
  assumes "layout_ok L" "stamps_ok L vi" "vi_bytes vi + new_bytes L (stamps vi) ks \<le> usize_max" "k \<in> set (new_keys (stamps vi) ks)"
  shows "version_stamp_bytes L k = version_key_bytes L k + sizeof_stamp L"
proof (rule version_stamp_bytes_exact)
  have "version_stamp_bytes L k \<le> new_bytes L (stamps vi) ks"
    unfolding new_bytes_def by (rule member_le_sum [OF assms(4)])
  with assms(2,3) inline_pos(1) [OF assms(1)] show "version_stamp_bytes L k < usize_max" by (simp add: stamps_ok_def)
qed

subsection \<open>Inserting stamps\<close>

lemma cow_get_iter: "stamps_ok L vi \<Longrightarrow> cow_get version_key_cmp k (stamps vi) = bt_get version_key_cmp k (cow_iter (stamps vi))"
  by (rule vkey_ord.cow_get_flat) (rule stamps_ok_pages(4))

lemma insert_stamp_cases:
  "insert_stamp L VDatabase s vi = vi\<lparr>database_barrier := Some s\<rparr>"
  "insert_stamp L VReadBarrier s vi = vi\<lparr>read_barrier := Some s\<rparr>"
  "\<not> is_barrier_key k \<Longrightarrow> insert_stamp L k s vi =
     vi\<lparr>vi_bytes := (if cow_contains version_key_cmp k (stamps vi) then vi_bytes vi
                           else sat_add (vi_bytes vi) (version_stamp_bytes L k)),
         stamps := snd (cow_insert (version_weight L) version_key_cmp k s (stamps vi))\<rparr>"
  by (cases k; simp add: insert_stamp_def is_barrier_key_def)+

lemma stamp_cases:
  "stamp VDatabase vi = database_barrier vi" "stamp VReadBarrier vi = read_barrier vi"
  "\<not> is_barrier_key k \<Longrightarrow> stamp k vi = cow_get version_key_cmp k (stamps vi)"
  by (cases k; simp add: stamp_def is_barrier_key_def)+

lemma barrier_Equal:
  "version_key_cmp k VDatabase = Equal \<longleftrightarrow> k = VDatabase" "version_key_cmp k VReadBarrier = Equal \<longleftrightarrow> k = VReadBarrier"
  using version_key_Equal_kind(3,4) version_key_cmp_refl by metis+

lemma insert_narrow_stamp:
  assumes L: "layout_ok L" and ok: "stamps_ok L vi" and room: "vi_bytes vi + new_bytes L (stamps vi) [k] \<le> usize_max"
    and k: "\<not> is_barrier_key k"
  shows "stamps_ok L (insert_stamp L k s vi) \<and> vi_bytes (insert_stamp L k s vi) = vi_bytes vi + new_bytes L (stamps vi) [k] \<and>
    cow_iter (stamps (insert_stamp L k s vi)) = bt_insert version_key_cmp k s (cow_iter (stamps vi))"
proof -
  let ?m = "stamps vi" and ?W = "version_weight L"
  have cow: "cow_ok ?W version_key_cmp ?m" and bytes: "vi_bytes vi = inline_barrier_bytes L + vpayload L (cow_iter ?m)"
    and nob: "\<forall>e \<in> set (cow_iter ?m). \<not> is_barrier_key (fst e)" using ok by (simp_all add: stamps_ok_def)
  note ins = vkey_ord.cow_insert_spec [OF cow stamps_ok_room [OF L ok], of k s]
  have has: "cow_contains version_key_cmp k ?m \<longleftrightarrow> bt_get version_key_cmp k (cow_iter ?m) \<noteq> None"
    using cow_get_iter [OF ok] by (simp add: cow_contains_def)
  have new: "version_stamp_bytes L k = version_key_bytes L k + sizeof_stamp L" if "\<not> cow_contains version_key_cmp k ?m"
    by (rule new_stamp_bytes [OF L ok room]) (use that k in \<open>simp add: new_keys_def\<close>)
  have "vpayload L (bt_insert version_key_cmp k s (cow_iter ?m)) =
      vpayload L (cow_iter ?m) + (if cow_contains version_key_cmp k ?m then 0 else version_stamp_bytes L k)"
    using vkey_ord.insert_payload_const [of "cow_iter ?m" ?W k s] cow has new by (auto simp: cow_ok_def)
  moreover have "\<forall>e \<in> set (bt_insert version_key_cmp k s (cow_iter ?m)). \<not> is_barrier_key (fst e)"
    using nob k vkey_ord.keys_bt_insert by fastforce
  ultimately show ?thesis
    using ins k room bytes by (auto simp: stamps_ok_def insert_stamp_cases)
qed

lemma insert_stamp_ok:
  assumes L: "layout_ok L" and ok: "stamps_ok L vi" and room: "vi_bytes vi + new_bytes L (stamps vi) [k] \<le> usize_max"
  shows "stamps_ok L (insert_stamp L k s vi)"
    "vi_bytes (insert_stamp L k s vi) = vi_bytes vi + new_bytes L (stamps vi) [k]"
    "stamp k' (insert_stamp L k s vi) = (if version_key_cmp k' k = Equal then Some s else stamp k' vi)"
    "history_floor (insert_stamp L k s vi) = history_floor vi" "vi_max_bytes (insert_stamp L k s vi) = vi_max_bytes vi"
proof -
  have "stamps_ok L (insert_stamp L k s vi) \<and> vi_bytes (insert_stamp L k s vi) = vi_bytes vi + new_bytes L (stamps vi) [k] \<and>
    stamp k' (insert_stamp L k s vi) = (if version_key_cmp k' k = Equal then Some s else stamp k' vi) \<and>
    history_floor (insert_stamp L k s vi) = history_floor vi \<and> vi_max_bytes (insert_stamp L k s vi) = vi_max_bytes vi"
  proof (cases "is_barrier_key k")
    case True
    then consider "k = VDatabase" | "k = VReadBarrier" by (auto simp: is_barrier_key_def)
    then show ?thesis
    proof cases
      case 1
      then show ?thesis
        using ok True by (cases "k' = VReadBarrier \<or> k' = VDatabase")
          (auto simp: insert_stamp_cases stamps_ok_def barrier_Equal stamp_cases is_barrier_key_def)
    next
      case 2
      then show ?thesis
        using ok True by (cases "k' = VReadBarrier \<or> k' = VDatabase")
          (auto simp: insert_stamp_cases stamps_ok_def barrier_Equal stamp_cases is_barrier_key_def)
    qed
  next
    case False
    note ins = insert_narrow_stamp [OF L ok room False, of s]
    have "stamp k' (insert_stamp L k s vi) = (if version_key_cmp k' k = Equal then Some s else stamp k' vi)"
    proof (cases "is_barrier_key k'")
      case True
      then have "version_key_cmp k' k \<noteq> Equal" using False version_key_Equal_kind(2) by blast
      with True False show ?thesis by (auto simp: is_barrier_key_def stamp_cases insert_stamp_cases)
    next
      case k': False
      have "bt_sorted version_key_cmp (cow_iter (stamps vi))" using ok by (simp add: stamps_ok_def cow_ok_def)
      with ins k' ok show ?thesis
        by (simp add: stamp_cases(3) cow_get_iter [of L] vkey_ord.bt_get_insert)
    qed
    moreover have "history_floor (insert_stamp L k s vi) = history_floor vi" "vi_max_bytes (insert_stamp L k s vi) = vi_max_bytes vi"
      using False by (simp_all add: insert_stamp_cases)
    ultimately show ?thesis using ins by blast
  qed
  then show "stamps_ok L (insert_stamp L k s vi)"
    "vi_bytes (insert_stamp L k s vi) = vi_bytes vi + new_bytes L (stamps vi) [k]"
    "stamp k' (insert_stamp L k s vi) = (if version_key_cmp k' k = Equal then Some s else stamp k' vi)"
    "history_floor (insert_stamp L k s vi) = history_floor vi" "vi_max_bytes (insert_stamp L k s vi) = vi_max_bytes vi"
    by blast+
qed

lemma contains_stamp: "\<not> is_barrier_key k \<Longrightarrow> cow_contains version_key_cmp k (stamps vi) \<longleftrightarrow> stamp k vi \<noteq> None"
  by (simp add: stamp_cases cow_contains_def)

lemma new_bytes_other:
  assumes "layout_ok L" "stamps_ok L vi" "vi_bytes vi + new_bytes L (stamps vi) [k] \<le> usize_max"
    "\<forall>k' \<in> set ks. version_key_cmp k k' \<noteq> Equal"
  shows "new_bytes L (stamps (insert_stamp L k s vi)) ks = new_bytes L (stamps vi) ks"
proof -
  have "cow_contains version_key_cmp k' (stamps (insert_stamp L k s vi)) = cow_contains version_key_cmp k' (stamps vi)"
    if "k' \<in> set ks" "\<not> is_barrier_key k'" for k'
    using assms(4) that insert_stamp_ok(3) [OF assms(1-3), of k' s] vkey_ord.cmp_Equal_rev [of k' k]
    by (simp add: contains_stamp)
  then have "new_keys (stamps (insert_stamp L k s vi)) ks = new_keys (stamps vi) ks"
    unfolding new_keys_def by (intro filter_cong) auto
  then show ?thesis by (simp add: new_bytes_def)
qed

abbreviation insert_all :: "version_layout \<Rightarrow> nat \<Rightarrow> (version_key \<times> version_disposition) list \<Rightarrow> version_index \<Rightarrow> version_index" where
  "insert_all L epoch kvs vi \<equiv>
     foldl (\<lambda>vi (k, d). insert_stamp L k \<lparr> stamp_epoch = epoch, stamp_disposition = d \<rparr> vi) vi kvs"

lemma insert_first:
  assumes "layout_ok L" "stamps_ok L vi" "bt_sorted version_key_cmp ((k, d) # kvs)"
    "vi_bytes vi + new_bytes L (stamps vi) (map fst ((k, d) # kvs)) \<le> usize_max"
  shows "vi_bytes vi + new_bytes L (stamps vi) [k] \<le> usize_max"
    "new_bytes L (stamps (insert_stamp L k s vi)) (map fst kvs) = new_bytes L (stamps vi) (map fst kvs)"
    "vi_bytes (insert_stamp L k s vi) + new_bytes L (stamps (insert_stamp L k s vi)) (map fst kvs) \<le> usize_max"
proof -
  show r: "vi_bytes vi + new_bytes L (stamps vi) [k] \<le> usize_max" using assms(4) by auto
  have "\<forall>k' \<in> set (map fst kvs). version_key_cmp k k' \<noteq> Equal" using assms(3) by auto
  then show n: "new_bytes L (stamps (insert_stamp L k s vi)) (map fst kvs) = new_bytes L (stamps vi) (map fst kvs)"
    by (rule new_bytes_other [OF assms(1,2) r])
  show "vi_bytes (insert_stamp L k s vi) + new_bytes L (stamps (insert_stamp L k s vi)) (map fst kvs) \<le> usize_max"
    using assms(4) insert_stamp_ok(2) [OF assms(1,2) r, of s] unfolding n by simp
qed

lemma insert_all_ok:
  assumes "layout_ok L" "stamps_ok L vi" "bt_sorted version_key_cmp kvs"
    "vi_bytes vi + new_bytes L (stamps vi) (map fst kvs) \<le> usize_max"
  shows "stamps_ok L (insert_all L epoch kvs vi) \<and>
    vi_bytes (insert_all L epoch kvs vi) = vi_bytes vi + new_bytes L (stamps vi) (map fst kvs) \<and>
    history_floor (insert_all L epoch kvs vi) = history_floor vi \<and>
    vi_max_bytes (insert_all L epoch kvs vi) = vi_max_bytes vi \<and>
    (\<forall>k. stamp k (insert_all L epoch kvs vi) =
       (case bt_get version_key_cmp k kvs of None \<Rightarrow> stamp k vi | Some d \<Rightarrow> Some \<lparr> stamp_epoch = epoch, stamp_disposition = d \<rparr>))"
  using assms(2-)
proof (induction kvs arbitrary: vi)
  case (Cons e kvs)
  obtain k d where e: "e = (k, d)" by fastforce
  let ?s = "\<lparr> stamp_epoch = epoch, stamp_disposition = d \<rparr>"
  note prems = Cons.prems [unfolded e]
  note first = insert_first(1) [OF assms(1) prems] insert_first(2,3) [OF assms(1) prems, where s = ?s]
  note ins = insert_stamp_ok [OF assms(1) prems(1) first(1), where s = ?s]
  note IH = Cons.IH [OF ins(1) _ first(3)]
  have srt: "bt_sorted version_key_cmp kvs" using prems(2) by simp
  have none: "bt_get version_key_cmp k' kvs = None" if "version_key_cmp k' k = Equal" for k'
    using prems(2) vkey_ord.cmp_Equal_left [OF that] by (auto simp: bt_get_None_iff)
  have "bt_get version_key_cmp k' ((k, d) # kvs) =
      (if version_key_cmp k' k = Equal then Some d else bt_get version_key_cmp k' kvs)" for k' by simp
  then show ?case using IH [OF srt] ins(2-5) first(2) none by (auto simp: e split: option.split)
qed simp

lemma insert_one_groups:
  assumes L: "layout_ok L" and ok\<^sub>0: "pages_ok version_key_cmp (segments m\<^sub>0)" and shared: "\<forall>p \<in> set (segments m\<^sub>0). page_shared p"
    and ok: "stamps_ok L vi" and room: "vi_bytes vi + new_bytes L (stamps vi) [k] \<le> usize_max"
    and groups: "groups_ok version_key_cmp m\<^sub>0 T (stamps vi)" and fin: "finite T" and k: "\<not> is_barrier_key k"
    and sum: "uncharged (version_weight L) (segments (stamps vi)) = sum (group_payload (version_weight L) m\<^sub>0) T + c"
  shows "groups_ok version_key_cmp m\<^sub>0 (insert (segment_index version_key_cmp k m\<^sub>0) T) (stamps (insert_stamp L k s vi))"
    "uncharged (version_weight L) (segments (stamps (insert_stamp L k s vi))) =
      sum (group_payload (version_weight L) m\<^sub>0) (insert (segment_index version_key_cmp k m\<^sub>0) T) + (c + new_bytes L (stamps vi) [k])"
proof -
  let ?W = "version_weight L"
  have st: "stamps (insert_stamp L k s vi) = snd (cow_insert ?W version_key_cmp k s (stamps vi))"
    using k by (simp add: insert_stamp_cases)
  have "cow_ok ?W version_key_cmp (stamps vi)" using ok by (simp add: stamps_ok_def)
  note step = vkey_ord.insert_groups [OF ok\<^sub>0 shared this stamps_ok_room [OF L ok] groups, of k s, folded st]
  show "groups_ok version_key_cmp m\<^sub>0 (insert (segment_index version_key_cmp k m\<^sub>0) T) (stamps (insert_stamp L k s vi))"
    using step by simp
  have "new_bytes L (stamps vi) [k] =
      (if bt_get version_key_cmp k (cow_iter (stamps vi)) = None then version_key_bytes L k + sizeof_stamp L else 0)"
    using k new_stamp_bytes [OF L ok room] cow_get_iter [OF ok, of k] by (auto simp: new_keys_def cow_contains_def)
  then show "uncharged ?W (segments (stamps (insert_stamp L k s vi))) =
      sum (group_payload ?W m\<^sub>0) (insert (segment_index version_key_cmp k m\<^sub>0) T) + (c + new_bytes L (stamps vi) [k])"
    using step sum fin by (auto simp: sum.insert_if)
qed

lemma insert_all_groups:
  assumes L: "layout_ok L" and ok\<^sub>0: "pages_ok version_key_cmp (segments m\<^sub>0)" and shared: "\<forall>p \<in> set (segments m\<^sub>0). page_shared p"
    and "stamps_ok L vi" "bt_sorted version_key_cmp kvs" "vi_bytes vi + new_bytes L (stamps vi) (map fst kvs) \<le> usize_max"
    and "groups_ok version_key_cmp m\<^sub>0 T (stamps vi)" "finite T"
    and "uncharged (version_weight L) (segments (stamps vi)) = sum (group_payload (version_weight L) m\<^sub>0) T + c"
  shows "case T \<union> (\<lambda>k. segment_index version_key_cmp k m\<^sub>0) ` {k \<in> fst ` set kvs. \<not> is_barrier_key k} of T' \<Rightarrow>
    groups_ok version_key_cmp m\<^sub>0 T' (stamps (insert_all L epoch kvs vi)) \<and>
    uncharged (version_weight L) (segments (stamps (insert_all L epoch kvs vi))) =
      sum (group_payload (version_weight L) m\<^sub>0) T' + c + new_bytes L (stamps vi) (map fst kvs)"
  using assms(4-)
proof (induction kvs arbitrary: vi T c)
  case (Cons e kvs)
  obtain k d where e: "e = (k, d)" by fastforce
  let ?s = "\<lparr> stamp_epoch = epoch, stamp_disposition = d \<rparr>" and ?W = "version_weight L"
  let ?vi = "insert_stamp L k ?s vi" and ?g = "segment_index version_key_cmp k m\<^sub>0"
  note prems = Cons.prems [unfolded e]
  note first = insert_first(1) [OF L prems(1-3)] insert_first(2,3) [OF L prems(1-3), where s = ?s]
  note ins = insert_stamp_ok [OF L prems(1) first(1), where s = ?s]
  have srt: "bt_sorted version_key_cmp kvs" using prems(2) by simp
  show ?case
  proof (cases "is_barrier_key k")
    case True
    then have "stamps ?vi = stamps vi" by (auto simp: is_barrier_key_def insert_stamp_cases)
    moreover have "{k' \<in> fst ` set (e # kvs). \<not> is_barrier_key k'} = {k' \<in> fst ` set kvs. \<not> is_barrier_key k'}"
      using True by (auto simp: e)
    ultimately show ?thesis using Cons.IH [OF ins(1) srt first(3) _ prems(5)] prems(4,6) True by (simp add: e)
  next
    case False
    note step = insert_one_groups [OF L ok\<^sub>0 shared prems(1) first(1) prems(4,5) False prems(6), where s = ?s]
    have "T \<union> (\<lambda>k. segment_index version_key_cmp k m\<^sub>0) ` {k' \<in> fst ` set (e # kvs). \<not> is_barrier_key k'} =
        insert ?g T \<union> (\<lambda>k. segment_index version_key_cmp k m\<^sub>0) ` {k' \<in> fst ` set kvs. \<not> is_barrier_key k'}"
      using False by (auto simp: e)
    then show ?thesis
      using Cons.IH [OF ins(1) srt first(3) step(1) _ step(2)] prems(5) first(2) False
      by (simp add: e add.assoc)
  qed
qed simp

subsection \<open>Changing only credit and sharing\<close>

definition map_pages :: "(version_page \<Rightarrow> version_page) \<Rightarrow> version_index \<Rightarrow> version_index" where
  "map_pages f vi = vi\<lparr>stamps := (stamps vi)\<lparr>segments := map f (segments (stamps vi))\<rparr>\<rparr>"

definition same_page :: "version_page \<Rightarrow> version_page \<Rightarrow> bool" where
  "same_page p q \<longleftrightarrow> entries q = entries p \<and> page_bytes q = page_bytes p \<and> epoch_bounds q = epoch_bounds p"

lemma map_pages_simps [simp]:
  "history_floor (map_pages f vi) = history_floor vi" "database_barrier (map_pages f vi) = database_barrier vi"
  "read_barrier (map_pages f vi) = read_barrier vi" "vi_bytes (map_pages f vi) = vi_bytes vi"
  "vi_max_bytes (map_pages f vi) = vi_max_bytes vi" "segments (stamps (map_pages f vi)) = map f (segments (stamps vi))"
  "map_len (stamps (map_pages f vi)) = map_len (stamps vi)" "delta_pressure (stamps (map_pages f vi)) = delta_pressure (stamps vi)"
  by (simp_all add: map_pages_def)

lemma map_pages_same:
  assumes "\<And>p. same_page p (f p)"
  shows "cow_iter (stamps (map_pages f vi)) = cow_iter (stamps vi)"
    "stamps_ok L (map_pages f vi) \<longleftrightarrow> stamps_ok L vi"
    "stamp k (map_pages f vi) = stamp k vi" "segment_index c k (stamps (map_pages f vi)) = segment_index c k (stamps vi)"
    "cow_contains version_key_cmp k (stamps (map_pages f vi)) = cow_contains version_key_cmp k (stamps vi)"
proof -
  have f: "entries (f p) = entries p" "page_ok W (f p) = page_ok W p" for p W
    using assms [of p] by (simp_all add: same_page_def page_ok_def cache_ok_def)
  have key: "last_key_is P (f p) = last_key_is P p" for P p by (simp add: last_key_is_def f)
  show iter: "cow_iter (stamps (map_pages f vi)) = cow_iter (stamps vi)" by (simp add: cow_iter_def f comp_def)
  then show "stamps_ok L (map_pages f vi) \<longleftrightarrow> stamps_ok L vi" by (simp add: stamps_ok_def cow_ok_def list_all_iff f)
  have "takeWhile P (map f ps) = map f (takeWhile (P \<circ> f) ps)" for P ps by (induction ps) auto
  then show idx: "segment_index c k (stamps (map_pages f vi)) = segment_index c k (stamps vi)" for c k
    by (simp add: segment_index_def partition_point_def comp_def key)
  have "cow_get version_key_cmp k (stamps (map_pages f vi)) = cow_get version_key_cmp k (stamps vi)" for k
  proof (cases "segment_index version_key_cmp k (stamps vi)")
    case (Some i)
    with vkey_ord.segment_index_less [OF Some] show ?thesis by (simp add: cow_get_def idx f)
  qed (simp add: cow_get_def idx)
  then show "stamp k (map_pages f vi) = stamp k vi"
    "cow_contains version_key_cmp k (stamps (map_pages f vi)) = cow_contains version_key_cmp k (stamps vi)"
    by (simp_all add: stamp_def cow_contains_def split: version_key.split)
qed

definition share :: "version_page \<Rightarrow> version_page" where
  "share p = p\<lparr>page_shared := True\<rparr>"

lemma same_pages [simp]: "same_page p (share p)" "same_page p (charged_page L p)"
  by (simp_all add: same_page_def share_def)

lemma clone_map_pages: "vi\<lparr>stamps := cow_clone (stamps vi)\<rparr> = map_pages share vi"
  by (simp add: cow_clone_def map_pages_def share_def [abs_def])

lemma charge_index_spec:
  assumes "layout_ok L" "stamps_ok L vi"
    "case res of None \<Rightarrow> uncharged (version_weight L) (segments (stamps vi)) = 0
       | Some c \<Rightarrow> uncharged (version_weight L) (segments (stamps vi)) \<le> c"
  shows "charge_index L vi res =
    Some (map_pages (charged_page L) vi, map_option (\<lambda>c. c - uncharged (version_weight L) (segments (stamps vi))) res)"
proof -
  note pages = stamps_ok_pages [OF assms(2)]
  have "res \<noteq> None" if "\<exists>p \<in> set (segments (stamps vi)). history_lease p = None"
    using that assms(3) uncharged_zero [OF assms(1) pages(3)] by (auto split: option.splits)
  moreover have "uncharged (version_weight L) (segments (stamps vi)) \<le> c" if "res = Some c" for c
    using that assms(3) by simp
  ultimately have "charge_version_pages L (segments (stamps vi)) res = Some (map (charged_page L) (segments (stamps vi)),
      map_option (\<lambda>c. c - uncharged (version_weight L) (segments (stamps vi))) res)"
    by (rule charge_spec [OF pages(1,2)])
  then show ?thesis by (simp add: charge_index_def map_pages_def)
qed

lemma charged_pages_ok:
  assumes "\<forall>p \<in> set (segments (stamps vi)). lease_ok L p \<and> bounds_ok p"
  shows "\<forall>p \<in> set (segments (stamps (map_pages (charged_page L) vi))). lease_ok L p \<and> bounds_ok p \<and> history_lease p \<noteq> None"
proof -
  have "bounds_ok (charged_page L p) = bounds_ok p" for p by (simp add: bounds_ok_def split: option.split)
  moreover have "lease_ok L p \<Longrightarrow> lease_ok L (charged_page L p)" for p by (simp add: lease_ok_def charged_page_def)
  ultimately show ?thesis using assms by (auto simp del: not_None_eq)
qed

subsection \<open>The credit that staging asks for\<close>

fun touched_weight :: "('k, 'v) page_weight \<Rightarrow> nat set \<Rightarrow> nat \<Rightarrow> ('k, 'v) cow_page list \<Rightarrow> nat" where
  "touched_weight W T i [] = 0"
| "touched_weight W T i (p # ps) = (if i \<in> T then entries_payload W (entries p) else 0) + touched_weight W T (Suc i) ps"

lemma touched_weight_sum:
  "touched_weight W T i ps = (\<Sum>j \<in> {j \<in> T. i \<le> j \<and> j < i + length ps}. entries_payload W (entries (ps ! (j - i))))"
proof (induction ps arbitrary: i)
  case (Cons p ps)
  have "(\<Sum>j \<in> {j \<in> T. Suc i \<le> j \<and> j < Suc i + length ps}. entries_payload W (entries (ps ! (j - Suc i)))) =
      (\<Sum>j \<in> {j \<in> T. Suc i \<le> j \<and> j < Suc i + length ps}. entries_payload W (entries ((p # ps) ! (j - i))))"
    by (intro sum.cong) (auto simp: nth_Cons' Suc_diff_Suc)
  moreover have "{j \<in> T. i \<le> j \<and> j < i + length (p # ps)} =
      (if i \<in> T then insert i {j \<in> T. Suc i \<le> j \<and> j < Suc i + length ps} else {j \<in> T. Suc i \<le> j \<and> j < Suc i + length ps})"
    by (auto simp: le_less Suc_le_eq)
  ultimately show ?case by (simp add: Cons.IH)
qed simp

lemma page_credit_spec:
  "bytes \<le> usize_max \<Longrightarrow>
   page_credit T i (map (\<lambda>p. (vpayload L (entries p), page_shared p, history_lease p \<noteq> None)) ps) bytes =
     checked_add bytes (uncharged (version_weight L) ps + touched_weight (version_weight L) T i ps)"
proof (induction ps arbitrary: i bytes)
  case (Cons p ps)
  let ?u = "page_uncharged (version_weight L) p" and ?t = "if i \<in> T then vpayload L (entries p) else 0"
  have 1: "(if history_lease p \<noteq> None then Some bytes else checked_add bytes (vpayload L (entries p))) = checked_add bytes ?u"
    using Cons.prems by (simp add: page_uncharged_def checked_add_def)
  have 2: "(if i \<in> T then checked_add b (vpayload L (entries p)) else Some b) = checked_add b ?t" if "b \<le> usize_max" for b
    using that by (simp add: checked_add_def)
  show ?case
  proof (cases "bytes + ?u + ?t \<le> usize_max")
    case True
    then show ?thesis
      using Cons.IH [of "bytes + ?u + ?t" "Suc i"] 1 2 [of "bytes + ?u"] by (simp add: checked_add_def add_ac)
  next
    case False
    then show ?thesis using 1 2 [of "bytes + ?u"] by (auto simp: checked_add_def)
  qed
qed (simp add: checked_add_def)

lemma groups_init:
  assumes "pages_ok version_key_cmp (segments m)" "\<forall>p \<in> set (segments m). history_lease p \<noteq> None"
  shows "groups_ok version_key_cmp m {} m"
proof -
  have "\<exists>g. (\<forall>e \<in> set (entries q). segment_index version_key_cmp (fst e) m = g) \<and>
      (if history_lease q = None then g \<in> {} \<and> epoch_bounds q = None else g \<notin> {} \<and> (\<exists>j < length (segments m). g = Some j \<and> q = segments m ! j))"
    if q: "q \<in> set (segments m)" for q
  proof -
    from q obtain j where j: "j < length (segments m)" "q = segments m ! j" by (auto simp: in_set_conv_nth)
    then have "\<forall>e \<in> set (entries q). segment_index version_key_cmp (fst e) m = Some j"
      using vkey_ord.segment_index_member [OF assms(1)] by blast
    with j q assms(2) show ?thesis by (intro exI [of _ "Some j"]) auto
  qed
  then show ?thesis unfolding groups_ok_def by blast
qed

lemma touched_groups:
  "sum (group_payload W m) ((\<lambda>k. segment_index version_key_cmp k m) ` {k \<in> set ks. \<not> is_barrier_key k}) =
   touched_weight W (set (List.map_filter (\<lambda>k. if is_barrier_key k then None else version_page_for_key k m) ks)) 0 (segments m)"
proof (cases "segments m = []")
  case True
  then have "(\<lambda>k. segment_index version_key_cmp k m) ` {k \<in> set ks. \<not> is_barrier_key k} \<subseteq> {None}"
    by (auto simp: segment_index_def)
  then have "sum (group_payload W m) ((\<lambda>k. segment_index version_key_cmp k m) ` {k \<in> set ks. \<not> is_barrier_key k}) = 0"
    by (intro sum.neutral) (auto simp: group_payload_def)
  then show ?thesis by (simp add: True)
next
  case False
  let ?T = "set (List.map_filter (\<lambda>k. if is_barrier_key k then None else version_page_for_key k m) ks)"
  have some: "\<exists>i. segment_index version_key_cmp k m = Some i" for k using False by (simp add: segment_index_def)
  have T: "?T = {i. \<exists>k \<in> set ks. \<not> is_barrier_key k \<and> segment_index version_key_cmp k m = Some i}"
    by (force simp: List.map_filter_def version_page_for_key_def image_iff split: if_splits)
  have "(\<lambda>k. segment_index version_key_cmp k m) ` {k \<in> set ks. \<not> is_barrier_key k} = Some ` ?T"
    unfolding T using some by (force simp: image_iff)
  then have "sum (group_payload W m) ((\<lambda>k. segment_index version_key_cmp k m) ` {k \<in> set ks. \<not> is_barrier_key k}) =
      (\<Sum>i \<in> ?T. entries_payload W (entries (segments m ! i)))"
    by (simp add: sum.reindex group_payload_def)
  also have "?T = {j \<in> ?T. 0 \<le> j \<and> j < 0 + length (segments m)}"
    unfolding T by (auto dest: vkey_ord.segment_index_less)
  finally show ?thesis by (simp add: touched_weight_sum)
qed

definition stage_credit :: "version_layout \<Rightarrow> version_index \<Rightarrow> version_key list \<Rightarrow> nat" where
  "stage_credit L vi ks =
     new_bytes L (stamps vi) ks + (uncharged (version_weight L) (segments (stamps vi)) +
       touched_weight (version_weight L) (touched_pages vi ks) 0 (segments (stamps vi)))"

definition shared_index :: "version_layout \<Rightarrow> version_index \<Rightarrow> version_index" where
  "shared_index L vi = map_pages share (map_pages (charged_page L) vi)"

lemma shared_index_facts:
  assumes "index_ok L vi"
  shows "stamps_ok L (shared_index L vi)" "new_bytes L (stamps (shared_index L vi)) ks = new_bytes L (stamps vi) ks"
    "vi_bytes (shared_index L vi) = vi_bytes vi" "vi_max_bytes (shared_index L vi) = vi_max_bytes vi"
    "\<forall>p \<in> set (segments (stamps (shared_index L vi))). page_shared p \<and> history_lease p \<noteq> None \<and> lease_ok L p \<and> bounds_ok p"
    "segment_index version_key_cmp k (stamps (shared_index L vi)) = segment_index version_key_cmp k (stamps vi)"
    "stamp k (shared_index L vi) = stamp k vi" "history_floor (shared_index L vi) = history_floor vi"
    "cow_iter (stamps (shared_index L vi)) = cow_iter (stamps vi)"
proof -
  show "stamps_ok L (shared_index L vi)" using assms by (simp add: shared_index_def map_pages_same index_ok_def)
  show "new_bytes L (stamps (shared_index L vi)) ks = new_bytes L (stamps vi) ks"
    by (simp add: shared_index_def new_bytes_def new_keys_def map_pages_same)
  have f: "page_shared (share p)" "history_lease (share p) = history_lease p" "bounds_ok (share p) = bounds_ok p"
    "lease_ok L (share p) = lease_ok L p" for p
    by (simp_all add: bounds_ok_def lease_ok_def share_def split: option.split)
  have c: "\<forall>p \<in> set (segments (stamps (map_pages (charged_page L) vi))). lease_ok L p \<and> bounds_ok p \<and> history_lease p \<noteq> None"
    by (rule charged_pages_ok) (use assms in \<open>simp add: index_ok_def\<close>)
  show "\<forall>p \<in> set (segments (stamps (shared_index L vi))). page_shared p \<and> history_lease p \<noteq> None \<and> lease_ok L p \<and> bounds_ok p"
  proof
    fix p assume "p \<in> set (segments (stamps (shared_index L vi)))"
    then obtain q where "q \<in> set (segments (stamps (map_pages (charged_page L) vi)))" "p = share q"
      unfolding shared_index_def map_pages_simps(6) [of share] by auto
    with c show "page_shared p \<and> history_lease p \<noteq> None \<and> lease_ok L p \<and> bounds_ok p" using f by metis
  qed
qed (simp_all add: shared_index_def map_pages_same)

lemma uncharged_none: "\<forall>p \<in> set ps. history_lease p \<noteq> None \<Longrightarrow> uncharged W ps = 0"
  by (induction ps) (auto simp: page_uncharged_def)

lemma staged_uncharged:
  assumes L: "layout_ok L" and ok: "index_ok L vi" and srt: "bt_sorted version_key_cmp (writes ws)"
    and room: "vi_bytes vi + new_bytes L (stamps vi) (map fst (writes ws)) \<le> usize_max"
  shows "uncharged (version_weight L) (segments (stamps (apply_prepared L ws epoch (shared_index L vi)))) =
    new_bytes L (stamps vi) (map fst (writes ws)) +
    touched_weight (version_weight L) (touched_pages vi (map fst (writes ws))) 0 (segments (stamps vi))"
proof -
  let ?s = "shared_index L vi" and ?W = "version_weight L" and ?ks = "map fst (writes ws)"
  note sh = shared_index_facts [OF ok]
  have pok: "pages_ok version_key_cmp (segments (stamps ?s))" by (rule stamps_ok_pages(4) [OF sh(1)])
  have all: "\<forall>p \<in> set (segments (stamps ?s)). page_shared p" "\<forall>p \<in> set (segments (stamps ?s)). history_lease p \<noteq> None"
    using sh(5) by blast+
  have room': "vi_bytes ?s + new_bytes L (stamps ?s) ?ks \<le> usize_max" using room by (simp add: sh(2,3))
  have eq: "touched_weight ?W T i (segments (stamps ?s)) = touched_weight ?W T i (segments (stamps vi))" for T i
  proof -
    have "entries (share (charged_page L p)) = entries p" for p by (simp add: share_def)
    then have "touched_weight ?W T i (map share (map (charged_page L) ps)) = touched_weight ?W T i ps" for ps
      by (induction ps arbitrary: i) simp_all
    then show ?thesis by (simp only: shared_index_def map_pages_simps)
  qed
  have "version_page_for_key k (stamps ?s) = version_page_for_key k (stamps vi)" for k
    by (simp add: version_page_for_key_def sh(6))
  then have T: "set (List.map_filter (\<lambda>k. if is_barrier_key k then None else version_page_for_key k (stamps ?s)) ?ks) =
      touched_pages vi ?ks" by (simp add: touched_pages_def cong: if_cong)
  show ?thesis
    using insert_all_groups [OF L pok all(1) sh(1) srt room' groups_init [OF pok all(2)], of 0 epoch]
      touched_groups [of ?W "stamps ?s" ?ks] uncharged_none [OF all(2)]
    by (simp add: apply_prepared_def T eq sh(2))
qed

definition granted :: "nat \<Rightarrow> history_budget \<Rightarrow> bool" where
  "granted bytes b \<longleftrightarrow> bytes = 0 \<or> hb_used b + bytes \<le> min (hb_limit b) usize_max"

lemma preflight_spec:
  "preflight bytes b =
     (if granted bytes b then Some (b\<lparr>hb_used := hb_used b + bytes\<rparr>, if bytes = 0 then None else Some bytes) else None)"
  by (auto simp: preflight_def granted_def budget_reserve_def checked_add_def)

lemma refund_zero: "refund None b = Some b" "refund (Some 0) b = Some b"
  by (simp_all add: refund_def lease_drop_def)

lemma apply_shared:
  assumes "layout_ok L" "index_ok L vi" "bt_sorted version_key_cmp (writes ws)"
    "vi_bytes vi + new_bytes L (stamps vi) (map fst (writes ws)) \<le> usize_max"
  shows "stamps_ok L (apply_prepared L ws epoch (shared_index L vi))"
    "vi_bytes (apply_prepared L ws epoch (shared_index L vi)) = vi_bytes vi + new_bytes L (stamps vi) (map fst (writes ws))"
    "history_floor (apply_prepared L ws epoch (shared_index L vi)) = history_floor vi"
    "vi_max_bytes (apply_prepared L ws epoch (shared_index L vi)) = vi_max_bytes vi"
    "stamp k (apply_prepared L ws epoch (shared_index L vi)) =
       (case bt_get version_key_cmp k (writes ws) of
          None \<Rightarrow> stamp k vi
        | Some d \<Rightarrow> Some \<lparr> stamp_epoch = epoch, stamp_disposition = d \<rparr>)"
proof -
  note sh = shared_index_facts [OF assms(2)]
  have "vi_bytes (shared_index L vi) + new_bytes L (stamps (shared_index L vi)) (map fst (writes ws)) \<le> usize_max"
    using assms(4) by (simp add: sh(2,3))
  note all = insert_all_ok [OF assms(1) sh(1) assms(3) this, of epoch]
  show "stamps_ok L (apply_prepared L ws epoch (shared_index L vi))"
    "vi_bytes (apply_prepared L ws epoch (shared_index L vi)) = vi_bytes vi + new_bytes L (stamps vi) (map fst (writes ws))"
    "history_floor (apply_prepared L ws epoch (shared_index L vi)) = history_floor vi"
    "vi_max_bytes (apply_prepared L ws epoch (shared_index L vi)) = vi_max_bytes vi"
    "stamp k (apply_prepared L ws epoch (shared_index L vi)) =
       (case bt_get version_key_cmp k (writes ws) of
          None \<Rightarrow> stamp k vi
        | Some d \<Rightarrow> Some \<lparr> stamp_epoch = epoch, stamp_disposition = d \<rparr>)"
    using all by (simp_all add: apply_prepared_def sh(2,3,4,7,8) cong: option.case_cong)
qed

text \<open>Staging in one equation: no branch panics, and the credit reserved is exactly used.\<close>

lemma stage_eq:
  assumes L: "layout_ok L" and ok: "index_ok L vi" and srt: "bt_sorted version_key_cmp (writes ws)"
  shows "stage L b vi ws epoch =
    (if vi_bytes vi + new_bytes L (stamps vi) (map fst (writes ws)) \<le> vi_max_bytes vi \<and>
        granted (stage_credit L vi (map fst (writes ws))) b
     then Staged (shared_index L vi) (map_pages (charged_page L) (apply_prepared L ws epoch (shared_index L vi)))
            (b\<lparr>hb_used := hb_used b + stage_credit L vi (map fst (writes ws))\<rparr>)
     else Refused)"
proof (cases "vi_bytes vi + new_bytes L (stamps vi) (map fst (writes ws)) \<le> vi_max_bytes vi")
  case True
  let ?ks = "map fst (writes ws)" and ?W = "version_weight L"
  define N U T where "N = new_bytes L (stamps vi) ?ks" and "U = uncharged ?W (segments (stamps vi))"
    and "T = touched_weight ?W (touched_pages vi ?ks) 0 (segments (stamps vi))"
  have C: "stage_credit L vi ?ks = N + (U + T)" by (simp add: stage_credit_def N_def U_def T_def)
  have sok: "stamps_ok L vi" and mx: "vi_max_bytes vi \<le> usize_max" using ok by (simp_all add: index_ok_def)
  have room: "vi_bytes vi + new_bytes L (stamps vi) ?ks \<le> usize_max" using True mx by linarith
  then have N: "N \<le> usize_max" by (simp add: N_def)
  have adm: "admits L vi ws" using True mx by (simp add: admits_iff)
  note ly = layout_spec [OF stamps_ok_pages(1,2) [OF sok]]
  have "new_key_bytes L (stamps vi) ?ks 0 = Some N"
    unfolding new_key_bytes_iff using N by (auto simp: N_def)
  then have credit: "Option.bind (new_key_bytes L (stamps vi) ?ks 0) (page_credit (touched_pages vi ?ks) 0
      (map (\<lambda>p. (vpayload L (entries p), page_shared p, history_lease p \<noteq> None)) (segments (stamps vi)))) =
      checked_add N (U + T)"
    using page_credit_spec [OF N, of "touched_pages vi ?ks" 0 L "segments (stamps vi)"] by (simp add: U_def T_def)
  show ?thesis
  proof (cases "granted (N + (U + T)) b")
    case False
    then have "stage L b vi ws epoch = Refused"
      unfolding stage_def Let_def ly using adm credit
      by (auto simp: checked_add_def preflight_spec split: option.splits)
    with False C True show ?thesis by simp
  next
    case g: True
    then have sum: "checked_add N (U + T) = Some (N + (U + T))" by (auto simp: granted_def checked_add_def)
    let ?res = "if N + (U + T) = 0 then None else Some (N + (U + T))"
    have c1: "charge_index L vi ?res = Some (map_pages (charged_page L) vi, if N + (U + T) = 0 then None else Some (N + T))"
      by (subst charge_index_spec [OF L sok]) (auto simp: U_def)
    let ?st = "apply_prepared L ws epoch (shared_index L vi)"
    have un: "uncharged ?W (segments (stamps ?st)) = N + T"
      using staged_uncharged [OF L ok srt room, of epoch] by (simp add: N_def T_def)
    have c2: "charge_index L ?st (if N + (U + T) = 0 then None else Some (N + T)) =
        Some (map_pages (charged_page L) ?st, if N + (U + T) = 0 then None else Some 0)"
      by (subst charge_index_spec [OF L apply_shared(1) [OF L ok srt room]]) (auto simp: un)
    show ?thesis
      unfolding stage_def Let_def ly using adm credit sum c1 c2 g C True
      by (simp add: preflight_spec clone_map_pages shared_index_def [symmetric] refund_zero)
  qed
next
  case False
  then show ?thesis using ok by (simp add: stage_def admits_iff index_ok_def)
qed

lemma staged_pages_fresh:
  assumes L: "layout_ok L" and ok: "index_ok L vi" and srt: "bt_sorted version_key_cmp (writes ws)"
    and room: "vi_bytes vi + new_bytes L (stamps vi) (map fst (writes ws)) \<le> usize_max"
    and q: "q \<in> set (segments (stamps (apply_prepared L ws epoch (shared_index L vi))))"
  shows "history_lease q = None \<and> epoch_bounds q = None \<or> q \<in> set (segments (stamps (shared_index L vi)))"
proof -
  let ?s = "shared_index L vi"
  note sh = shared_index_facts [OF ok]
  have pok: "pages_ok version_key_cmp (segments (stamps ?s))" by (rule stamps_ok_pages(4) [OF sh(1)])
  have all: "\<forall>p \<in> set (segments (stamps ?s)). page_shared p" "\<forall>p \<in> set (segments (stamps ?s)). history_lease p \<noteq> None"
    using sh(5) by blast+
  have room': "vi_bytes ?s + new_bytes L (stamps ?s) (map fst (writes ws)) \<le> usize_max" using room by (simp add: sh(2,3))
  have "\<exists>T. groups_ok version_key_cmp (stamps ?s) T (stamps (apply_prepared L ws epoch ?s))"
    using insert_all_groups [OF L pok all(1) sh(1) srt room' groups_init [OF pok all(2)], of 0 epoch] uncharged_none [OF all(2)]
    by (auto simp: apply_prepared_def)
  with q show ?thesis unfolding groups_ok_def by (metis nth_mem)
qed

lemma staged_pages_ok:
  assumes "layout_ok L" "index_ok L vi" "bt_sorted version_key_cmp (writes ws)"
    "vi_bytes vi + new_bytes L (stamps vi) (map fst (writes ws)) \<le> usize_max"
  shows "\<forall>p \<in> set (segments (stamps (apply_prepared L ws epoch (shared_index L vi)))). lease_ok L p \<and> bounds_ok p"
proof
  fix q assume "q \<in> set (segments (stamps (apply_prepared L ws epoch (shared_index L vi))))"
  from staged_pages_fresh [OF assms this] shared_index_facts(5) [OF assms(2)]
  show "lease_ok L q \<and> bounds_ok q" by (auto simp: lease_ok_def bounds_ok_def)
qed

lemma charged_index_ok:
  assumes "stamps_ok L vi" "\<forall>p \<in> set (segments (stamps vi)). lease_ok L p \<and> bounds_ok p" "vi_max_bytes vi \<le> usize_max"
  shows "index_ok L (map_pages (charged_page L) vi)"
  using charged_pages_ok [OF assms(2)] assms unfolding index_ok_def by (simp add: map_pages_same)

lemma shared_index_ok:
  assumes "index_ok L vi"
  shows "index_ok L (shared_index L vi)"
proof -
  note sh = shared_index_facts [OF assms]
  have "vi_max_bytes (shared_index L vi) \<le> usize_max" using assms by (simp add: sh(4) index_ok_def)
  with sh(1,5) show ?thesis unfolding index_ok_def by blast
qed

lemma stage_result:
  assumes "layout_ok L" "index_ok L vi" "bt_sorted version_key_cmp (writes ws)" "hb_used b \<le> hb_limit b"
    and Staged: "stage L b vi ws epoch = Staged self new b'"
  shows "index_ok L self \<and> index_ok L new \<and> vi_bytes new \<le> vi_max_bytes new \<and> vi_max_bytes new = vi_max_bytes vi \<and>
      (\<forall>p \<in> set (segments (stamps self)) \<union> set (segments (stamps new)). history_lease p = Some (vpayload L (entries p))) \<and>
      hb_used b' = hb_used b + stage_credit L vi (map fst (writes ws)) \<and> hb_used b' \<le> hb_limit b' \<and> hb_limit b' = hb_limit b \<and>
      history_floor self = history_floor vi \<and> history_floor new = history_floor vi \<and>
      (\<forall>k. stamp k self = stamp k vi \<and>
         stamp k new = (case bt_get version_key_cmp k (writes ws) of
            None \<Rightarrow> stamp k vi
          | Some d \<Rightarrow> Some \<lparr> stamp_epoch = epoch, stamp_disposition = d \<rparr>))"
proof -
  let ?st = "apply_prepared L ws epoch (shared_index L vi)"
  from Staged stage_eq [OF assms(1-3), of b epoch]
  have fit: "vi_bytes vi + new_bytes L (stamps vi) (map fst (writes ws)) \<le> vi_max_bytes vi"
      "granted (stage_credit L vi (map fst (writes ws))) b"
    and eqs: "self = shared_index L vi" "new = map_pages (charged_page L) ?st"
      "b' = b\<lparr>hb_used := hb_used b + stage_credit L vi (map fst (writes ws))\<rparr>"
    by (auto split: if_splits)
  have mx: "vi_max_bytes vi \<le> usize_max" using assms(2) by (simp add: index_ok_def)
  then have room: "vi_bytes vi + new_bytes L (stamps vi) (map fst (writes ws)) \<le> usize_max" using fit(1) by linarith
  note st = apply_shared [OF assms(1-3) room, where epoch = epoch]
  have new: "index_ok L new"
    unfolding eqs by (rule charged_index_ok [OF st(1) staged_pages_ok [OF assms(1-3) room]]) (simp add: st(4) mx)
  have lease: "history_lease p = Some (vpayload L (entries p))" if "lease_ok L p" "history_lease p \<noteq> None" for p
    using that by (auto simp: lease_ok_def)
  have "\<forall>p \<in> set (segments (stamps self)) \<union> set (segments (stamps new)). history_lease p = Some (vpayload L (entries p))"
    using shared_index_facts(5) [OF assms(2)] charged_pages_ok [OF staged_pages_ok [OF assms(1-3) room]] lease
    unfolding eqs by blast
  moreover have "index_ok L self" unfolding eqs by (rule shared_index_ok [OF assms(2)])
  moreover have "vi_bytes new \<le> vi_max_bytes new" "vi_max_bytes new = vi_max_bytes vi" "history_floor self = history_floor vi"
    "history_floor new = history_floor vi"
    using fit(1) by (simp_all add: eqs st(2-4) shared_index_facts(8) [OF assms(2)])
  moreover have "\<forall>k. stamp k self = stamp k vi \<and> stamp k new = (case bt_get version_key_cmp k (writes ws) of
      None \<Rightarrow> stamp k vi | Some d \<Rightarrow> Some \<lparr> stamp_epoch = epoch, stamp_disposition = d \<rparr>)"
    by (simp add: eqs map_pages_same st(5) shared_index_facts(7) [OF assms(2)])
  moreover have "hb_used b' = hb_used b + stage_credit L vi (map fst (writes ws))" "hb_used b' \<le> hb_limit b'" "hb_limit b' = hb_limit b"
    using fit(2) assms(4) by (auto simp: eqs granted_def)
  ultimately show ?thesis using new by blast
qed

text \<open>
  C10. Staging a commit is safe. On a well-formed index it never panics: the credit reserved before
  anything is copied covers every page the commit creates. It is refused, with nothing changed, exactly
  when the new keys exceed the index's byte limit or the history budget cannot grant the credit.
  Otherwise the new index is well-formed and within its byte limit, every page of the old and of the new
  index holds credit for exactly its weight, the old index keeps its stamps, the budget grew by exactly
  the credit asked for and stays within its limit, and the new index has the stamps of the commit and
  otherwise those of the old one.
\<close>

theorem stage_sound:
  assumes "layout_ok L" "index_ok L vi" "bt_sorted version_key_cmp (writes ws)" "hb_used b \<le> hb_limit b"
  shows "case stage L b vi ws epoch of
    Panicked \<Rightarrow> False
  | Refused \<Rightarrow> \<not> admits L vi ws \<or> hb_limit b < hb_used b + stage_credit L vi (map fst (writes ws)) \<or>
      usize_max < hb_used b + stage_credit L vi (map fst (writes ws))
  | Staged self new b' \<Rightarrow>
      index_ok L self \<and> index_ok L new \<and> vi_bytes new \<le> vi_max_bytes new \<and> vi_max_bytes new = vi_max_bytes vi \<and>
      (\<forall>p \<in> set (segments (stamps self)) \<union> set (segments (stamps new)). history_lease p = Some (vpayload L (entries p))) \<and>
      hb_used b' = hb_used b + stage_credit L vi (map fst (writes ws)) \<and> hb_used b' \<le> hb_limit b' \<and> hb_limit b' = hb_limit b \<and>
      history_floor self = history_floor vi \<and> history_floor new = history_floor vi \<and>
      (\<forall>k. stamp k self = stamp k vi \<and>
         stamp k new = (case bt_get version_key_cmp k (writes ws) of
            None \<Rightarrow> stamp k vi
          | Some d \<Rightarrow> Some \<lparr> stamp_epoch = epoch, stamp_disposition = d \<rparr>))"
proof (cases "stage L b vi ws epoch")
  case Refused
  then show ?thesis
    using stage_eq [OF assms(1-3), of b epoch] assms(2) by (auto simp: admits_iff index_ok_def granted_def split: if_splits)
next
  case (Staged self new b')
  show ?thesis unfolding Staged staging.case by (rule stage_result [OF assms Staged])
qed (use stage_eq [OF assms(1-3), of b epoch] in \<open>auto split: if_splits\<close>)

section \<open>Staging with the read barrier\<close>

definition fresh_pages :: "version_index \<Rightarrow> bool" where
  "fresh_pages vi \<longleftrightarrow> (\<forall>p \<in> set (segments (stamps vi)). history_lease p = None \<and> epoch_bounds p = None)"

lemma ordered_loop_fresh:
  assumes "\<forall>p \<in> set pages. history_lease p = None \<and> epoch_bounds p = None" "q \<in> set (segments (ordered_loop W c es pages seg seg_bytes n pr))"
  shows "history_lease q = None \<and> epoch_bounds q = None"
  using assms
proof (induction W c es pages seg seg_bytes n pr rule: ordered_loop.induct)
  case (1 W c pages seg seg_bytes n pr)
  then show ?case by (auto simp: page_of_def split: if_splits)
next
  case (2 W c k v es pages seg seg_bytes n pr)
  show ?case
    by (rule 2(1) [OF refl refl refl refl refl]) (use 2(2,3) in \<open>auto simp: Let_def page_of_def split: if_splits\<close>)
qed

lemma insert_stamp_fresh:
  assumes "layout_ok L" "stamps_ok L vi" "fresh_pages vi"
  shows "fresh_pages (insert_stamp L k s vi)"
proof (cases "is_barrier_key k")
  case True
  then show ?thesis using assms(3) by (auto simp: is_barrier_key_def insert_stamp_cases fresh_pages_def)
next
  case False
  let ?m = "stamps vi" and ?W = "version_weight L"
  have cow: "cow_ok ?W version_key_cmp ?m" using assms(2) by (simp add: stamps_ok_def)
  show ?thesis
  proof (cases "segment_index version_key_cmp k ?m")
    case None
    then show ?thesis using False by (simp add: insert_stamp_cases cow_insert_def fresh_pages_def page_of_def)
  next
    case (Some i)
    then have "history_lease (segments ?m ! i) = None"
      using assms(3) vkey_ord.segment_index_less by (fastforce simp: fresh_pages_def)
    then obtain A p B ps where "segments ?m = A @ p # B" "segments (snd (cow_insert ?W version_key_cmp k s ?m)) = A @ ps @ B"
        "\<forall>x \<in> set ps. history_lease x = None \<and> epoch_bounds x = None"
      using vkey_ord.cow_insert_pages [OF cow stamps_ok_room [OF assms(1,2)] Some, where v = s] by metis
    with assms(3) False show ?thesis by (auto simp: fresh_pages_def insert_stamp_cases)
  qed
qed

lemma insert_all_fresh:
  assumes "layout_ok L" "stamps_ok L vi" "bt_sorted version_key_cmp kvs"
    "vi_bytes vi + new_bytes L (stamps vi) (map fst kvs) \<le> usize_max" "fresh_pages vi"
  shows "fresh_pages (insert_all L epoch kvs vi)"
  using assms(2-)
proof (induction kvs arbitrary: vi)
  case (Cons e kvs)
  obtain k d where e: "e = (k, d)" by fastforce
  let ?s = "\<lparr> stamp_epoch = epoch, stamp_disposition = d \<rparr>"
  note prems = Cons.prems [unfolded e]
  note first = insert_first(1) [OF assms(1) prems(1-3)] insert_first(3) [OF assms(1) prems(1-3), where s = ?s]
  show ?case
    using Cons.IH [OF insert_stamp_ok(1) [OF assms(1) prems(1) first(1)] _ first(2) insert_stamp_fresh [OF assms(1) prems(1,4)]] prems(2)
    by (simp add: e)
qed simp

lemma fresh_uncharged: "fresh_pages vi \<Longrightarrow> uncharged (version_weight L) (segments (stamps vi)) = vpayload L (cow_iter (stamps vi))"
  by (simp add: fresh_pages_def vkey_ord.uncharged_all cow_iter_def)

lemma stored_stamp_bytes:
  assumes "layout_ok L" "stamps_ok L vi" "e \<in> set (cow_iter (stamps vi))"
  shows "version_stamp_bytes L (fst e) = version_key_bytes L (fst e) + sizeof_stamp L"
  using entry_le_payload [OF assms(3), of "version_weight L"] assms(2) inline_pos(1) [OF assms(1)]
  by (auto simp: stamps_ok_def version_stamp_bytes_def)

lemma retained_key_bytes_spec:
  assumes "\<forall>e \<in> set es. version_stamp_bytes L (fst e) = version_key_bytes L (fst e) + sizeof_stamp L"
    "bytes + vpayload L (filter (\<lambda>e. \<not> is_read_summary_key (fst e)) es) \<le> usize_max"
  shows "retained_key_bytes L (map fst es) bytes =
    Some (bytes + vpayload L (filter (\<lambda>e. \<not> is_read_summary_key (fst e)) es))"
  using assms by (induction es arbitrary: bytes) (auto simp: checked_add_def add_ac split: if_splits)

lemma payload_filter_le: "entries_payload W (filter P es) \<le> entries_payload W es"
  by (induction es) auto

definition retained :: "version_index \<Rightarrow> (version_key, version_stamp) btree" where
  "retained vi = filter (\<lambda>e. \<not> is_read_summary_key (fst e)) (cow_iter (stamps vi))"

lemma retained_le: "stamps_ok L vi \<Longrightarrow> inline_barrier_bytes L + vpayload L (retained vi) \<le> usize_max"
  using payload_filter_le [of "version_weight L" "\<lambda>e. \<not> is_read_summary_key (fst e)" "cow_iter (stamps vi)"]
  by (auto simp: retained_def stamps_ok_def)

lemma collapsed_write_bytes_spec:
  assumes L: "layout_ok L" and ok: "stamps_ok L vi" and mx: "vi_max_bytes vi \<le> usize_max"
  shows "collapsed_write_bytes L vi ws =
    (let r = inline_barrier_bytes L + vpayload L (retained vi); n = r + new_bytes L (stamps vi) (map fst (writes ws))
     in if n \<le> vi_max_bytes vi then Some (r, n) else None)"
proof -
  let ?r = "inline_barrier_bytes L + vpayload L (retained vi)" and ?ks = "map fst (writes ws)"
  have "?r \<le> usize_max" by (rule retained_le [OF ok])
  then have "retained_key_bytes L (map fst (cow_iter (stamps vi))) (inline_barrier_bytes L) = Some ?r"
    using retained_key_bytes_spec [of "cow_iter (stamps vi)" L "inline_barrier_bytes L"] stored_stamp_bytes [OF L ok]
    by (auto simp: retained_def)
  moreover have "Option.bind (new_key_bytes L (stamps vi) ?ks ?r) (\<lambda>bytes. if bytes \<le> vi_max_bytes vi then Some (?r, bytes) else None) =
      (if ?r + new_bytes L (stamps vi) ?ks \<le> vi_max_bytes vi then Some (?r, ?r + new_bytes L (stamps vi) ?ks) else None)"
  proof (cases "new_key_bytes L (stamps vi) ?ks ?r")
    case None
    then have "\<not> ?r + new_bytes L (stamps vi) ?ks \<le> usize_max"
      using new_key_bytes_iff [of L "stamps vi" ?ks ?r "?r + new_bytes L (stamps vi) ?ks"] by auto
    with mx None show ?thesis by simp
  next
    case (Some n)
    then have "n = ?r + new_bytes L (stamps vi) ?ks" by (simp add: new_key_bytes_iff)
    with Some show ?thesis by simp
  qed
  ultimately show ?thesis by (simp add: collapsed_write_bytes_def Let_def)
qed

lemma bt_get_retained:
  assumes "bt_sorted version_key_cmp (cow_iter (stamps vi))"
  shows "bt_get version_key_cmp k (retained vi) =
    (if is_read_summary_key k then None else bt_get version_key_cmp k (cow_iter (stamps vi)))"
proof -
  have "bt_get version_key_cmp k (filter (\<lambda>e. \<not> is_read_summary_key (fst e)) es) =
      (if is_read_summary_key k then None else bt_get version_key_cmp k es)" for es :: "(version_key \<times> version_stamp) list"
    by (induction es) (auto dest: version_key_Equal_kind(1))
  then show ?thesis by (simp add: retained_def)
qed

lemma collapsed_index_facts:
  assumes "layout_ok L" "stamps_ok L vi"
  defines "ci \<equiv> collapsed_index L (inline_barrier_bytes L + vpayload L (retained vi)) vi"
  shows "stamps_ok L ci" "fresh_pages ci" "vi_bytes ci = inline_barrier_bytes L + vpayload L (retained vi)"
    "vi_max_bytes ci = vi_max_bytes vi" "history_floor ci = history_floor vi"
    "stamp k ci = (if is_read_summary_key k then None else stamp k vi)"
proof -
  have srt: "bt_sorted version_key_cmp (cow_iter (stamps vi))" using assms(2) by (simp add: stamps_ok_def cow_ok_def)
  then have "bt_sorted version_key_cmp (retained vi)" unfolding retained_def by (rule bt_sorted_filter)
  then have "cow_iter (from_ordered_entries (version_weight L) version_key_cmp (retained vi)) = retained vi \<and>
      cow_ok (version_weight L) version_key_cmp (from_ordered_entries (version_weight L) version_key_cmp (retained vi))"
    using vkey_ord.from_ordered_entries_spec [of "retained vi" "version_weight L"] by blast
  moreover have st: "stamps ci = from_ordered_entries (version_weight L) version_key_cmp (retained vi)"
    by (simp add: ci_def collapsed_index_def retained_def)
  ultimately have it: "cow_iter (stamps ci) = retained vi" "cow_ok (version_weight L) version_key_cmp (stamps ci)" by simp_all
  show bytes: "vi_bytes ci = inline_barrier_bytes L + vpayload L (retained vi)" by (simp add: ci_def collapsed_index_def)
  note le = retained_le [OF assms(2)]
  show ok: "stamps_ok L ci" using it bytes le assms(2) by (auto simp: stamps_ok_def retained_def)
  show "fresh_pages ci" unfolding fresh_pages_def st from_ordered_entries_def
    by (rule ballI, rule ordered_loop_fresh) simp_all
  show "vi_max_bytes ci = vi_max_bytes vi" "history_floor ci = history_floor vi" by (simp_all add: ci_def collapsed_index_def)
  show "stamp k ci = (if is_read_summary_key k then None else stamp k vi)"
  proof (cases "is_barrier_key k")
    case True
    then show ?thesis by (auto simp: is_barrier_key_def stamp_cases ci_def collapsed_index_def)
  next
    case False
    then show ?thesis
      by (simp add: stamp_cases(3) cow_get_iter [OF ok] cow_get_iter [OF assms(2)] it(1) bt_get_retained [OF srt])
  qed
qed

lemma new_bytes_collapsed:
  assumes "layout_ok L" "stamps_ok L vi" "\<forall>k \<in> set ks. \<not> is_read_summary_key k"
  shows "new_bytes L (stamps (collapsed_index L (inline_barrier_bytes L + vpayload L (retained vi)) vi)) ks = new_bytes L (stamps vi) ks"
proof -
  let ?ci = "collapsed_index L (inline_barrier_bytes L + vpayload L (retained vi)) vi"
  have "cow_contains version_key_cmp k (stamps ?ci) = cow_contains version_key_cmp k (stamps vi)" if "k \<in> set ks" "\<not> is_barrier_key k" for k
    using assms(3) that collapsed_index_facts(6) [OF assms(1,2), of k] by (simp add: contains_stamp)
  then have "new_keys (stamps ?ci) ks = new_keys (stamps vi) ks" unfolding new_keys_def by (intro filter_cong) auto
  then show ?thesis by (simp add: new_bytes_def)
qed

definition barrier_credit :: "version_layout \<Rightarrow> version_index \<Rightarrow> version_key list \<Rightarrow> nat" where
  "barrier_credit L vi ks =
     vpayload L (retained vi) + new_bytes L (stamps vi) ks + uncharged (version_weight L) (segments (stamps vi))"

definition collapsed_commit :: "version_layout \<Rightarrow> version_write_set \<Rightarrow> nat \<Rightarrow> version_index \<Rightarrow> version_index" where
  "collapsed_commit L ws epoch vi =
     apply_prepared L ws epoch (collapsed_index L (inline_barrier_bytes L + vpayload L (retained vi)) vi)"

lemma collapsed_commit_facts:
  assumes L: "layout_ok L" and ok: "stamps_ok L vi" and srt: "bt_sorted version_key_cmp (writes ws)"
    and narrow: "\<forall>k \<in> set (map fst (writes ws)). \<not> is_read_summary_key k"
    and room: "inline_barrier_bytes L + vpayload L (retained vi) + new_bytes L (stamps vi) (map fst (writes ws)) \<le> usize_max"
  shows "stamps_ok L (collapsed_commit L ws epoch vi)" "fresh_pages (collapsed_commit L ws epoch vi)"
    "vi_bytes (collapsed_commit L ws epoch vi) =
       inline_barrier_bytes L + vpayload L (retained vi) + new_bytes L (stamps vi) (map fst (writes ws))"
    "history_floor (collapsed_commit L ws epoch vi) = history_floor vi" "vi_max_bytes (collapsed_commit L ws epoch vi) = vi_max_bytes vi"
    "stamp k (collapsed_commit L ws epoch vi) =
       (case bt_get version_key_cmp k (writes ws) of
          None \<Rightarrow> if is_read_summary_key k then None else stamp k vi
        | Some d \<Rightarrow> Some \<lparr> stamp_epoch = epoch, stamp_disposition = d \<rparr>)"
    "uncharged (version_weight L) (segments (stamps (collapsed_commit L ws epoch vi))) =
       vpayload L (retained vi) + new_bytes L (stamps vi) (map fst (writes ws))"
proof -
  let ?ci = "collapsed_index L (inline_barrier_bytes L + vpayload L (retained vi)) vi"
  note ci = collapsed_index_facts [OF L ok]
  note new = new_bytes_collapsed [OF L ok narrow]
  have room': "vi_bytes ?ci + new_bytes L (stamps ?ci) (map fst (writes ws)) \<le> usize_max"
    using room by (simp add: ci(3) new)
  note all = insert_all_ok [OF L ci(1) srt room', of epoch, folded apply_prepared_def collapsed_commit_def]
  show st: "stamps_ok L (collapsed_commit L ws epoch vi)"
    and bytes: "vi_bytes (collapsed_commit L ws epoch vi) =
       inline_barrier_bytes L + vpayload L (retained vi) + new_bytes L (stamps vi) (map fst (writes ws))"
    and "history_floor (collapsed_commit L ws epoch vi) = history_floor vi" "vi_max_bytes (collapsed_commit L ws epoch vi) = vi_max_bytes vi"
    "stamp k (collapsed_commit L ws epoch vi) =
       (case bt_get version_key_cmp k (writes ws) of
          None \<Rightarrow> if is_read_summary_key k then None else stamp k vi
        | Some d \<Rightarrow> Some \<lparr> stamp_epoch = epoch, stamp_disposition = d \<rparr>)"
    using all by (simp_all add: ci(3-6) new cong: option.case_cong)
  show fresh: "fresh_pages (collapsed_commit L ws epoch vi)"
    unfolding collapsed_commit_def apply_prepared_def by (rule insert_all_fresh [OF L ci(1) srt room' ci(2)])
  show "uncharged (version_weight L) (segments (stamps (collapsed_commit L ws epoch vi))) =
       vpayload L (retained vi) + new_bytes L (stamps vi) (map fst (writes ws))"
    using fresh_uncharged [OF fresh] st bytes by (simp add: stamps_ok_def)
qed

lemma charged_facts:
  "retained (map_pages (charged_page L) vi) = retained vi"
  "new_bytes L (stamps (map_pages (charged_page L) vi)) ks = new_bytes L (stamps vi) ks"
  "stamps_ok L (map_pages (charged_page L) vi) = stamps_ok L vi" "stamp k (map_pages (charged_page L) vi) = stamp k vi"
  by (simp_all add: retained_def new_bytes_def new_keys_def map_pages_same)

lemma barrier_stage_eq:
  assumes L: "layout_ok L" and ok: "index_ok L vi" and srt: "bt_sorted version_key_cmp (writes ws)"
    and narrow: "\<forall>k \<in> set (map fst (writes ws)). \<not> is_read_summary_key k"
  shows "stage_with_read_barrier L b vi ws epoch =
    (if admits_after_read_summary_collapse L vi ws \<and> granted (barrier_credit L vi (map fst (writes ws))) b
     then Staged (map_pages (charged_page L) vi)
            (insert_stamp L VReadBarrier \<lparr> stamp_epoch = epoch, stamp_disposition = Live \<rparr>
              (map_pages (charged_page L) (collapsed_commit L ws epoch (map_pages (charged_page L) vi))))
            (b\<lparr>hb_used := hb_used b + barrier_credit L vi (map fst (writes ws))\<rparr>)
     else Refused)"
proof (cases "admits_after_read_summary_collapse L vi ws")
  case True
  let ?ks = "map fst (writes ws)" and ?W = "version_weight L" and ?sv = "map_pages (charged_page L) vi"
  define N U R where "N = new_bytes L (stamps vi) ?ks" and "U = uncharged ?W (segments (stamps vi))" and "R = vpayload L (retained vi)"
  have C: "barrier_credit L vi ?ks = R + N + U" by (simp add: barrier_credit_def N_def U_def R_def)
  have sok: "stamps_ok L vi" and mx: "vi_max_bytes vi \<le> usize_max" using ok by (simp_all add: index_ok_def)
  note cwb = collapsed_write_bytes_spec [OF L sok mx, of ws, unfolded Let_def, folded N_def R_def]
  have fit: "inline_barrier_bytes L + R + N \<le> vi_max_bytes vi"
    using True cwb by (simp add: admits_after_read_summary_collapse_def split: if_splits)
  note ly = layout_spec [OF stamps_ok_pages(1,2) [OF sok]]
  have "touched_weight ?W {} 0 (segments (stamps vi)) = 0" by (simp add: touched_weight_sum)
  then have credit: "page_credit {} 0 (map (\<lambda>p. (vpayload L (entries p), page_shared p, history_lease p \<noteq> None)) (segments (stamps vi)))
      (R + N) = checked_add (R + N) U"
    using page_credit_spec [of "R + N" "{}" 0 L "segments (stamps vi)"] fit mx by (simp add: U_def)
  show ?thesis
  proof (cases "granted (R + N + U) b")
    case False
    then have "stage_with_read_barrier L b vi ws epoch = Refused"
      unfolding stage_with_read_barrier_def cwb ly using fit credit
      by (auto simp: checked_add_def preflight_spec split: option.splits)
    with False C show ?thesis by simp
  next
    case g: True
    then have sum: "checked_add (R + N) U = Some (R + N + U)" by (auto simp: granted_def checked_add_def)
    have c1: "charge_index L vi (if R + N + U = 0 then None else Some (R + N + U)) =
        Some (?sv, if R + N + U = 0 then None else Some (R + N))"
      by (subst charge_index_spec [OF L sok]) (auto simp: U_def)
    have room: "inline_barrier_bytes L + vpayload L (retained ?sv) + new_bytes L (stamps ?sv) ?ks \<le> usize_max"
      using fit mx unfolding charged_facts N_def R_def by linarith
    have sv: "stamps_ok L ?sv" using sok by (simp add: charged_facts)
    note cc = collapsed_commit_facts [OF L sv srt narrow room, where epoch = epoch]
    have un: "uncharged ?W (segments (stamps (collapsed_commit L ws epoch ?sv))) = R + N"
      unfolding cc(7) charged_facts by (simp add: N_def R_def)
    have c2: "charge_index L (collapsed_commit L ws epoch ?sv) (if R + N + U = 0 then None else Some (R + N)) =
        Some (map_pages (charged_page L) (collapsed_commit L ws epoch ?sv), if R + N + U = 0 then None else Some 0)"
      by (subst charge_index_spec [OF L cc(1)]) (auto simp: un)
    have ci: "apply_prepared L ws epoch (collapsed_index L (inline_barrier_bytes L + R) ?sv) = collapsed_commit L ws epoch ?sv"
      by (simp add: collapsed_commit_def charged_facts R_def)
    show ?thesis
      unfolding stage_with_read_barrier_def cwb ly using fit credit sum c1 c2 g C True
      by (simp add: preflight_spec refund_zero ci)
  qed
next
  case False
  then have "collapsed_write_bytes L vi ws = None" unfolding admits_after_read_summary_collapse_def by blast
  with False show ?thesis by (simp add: stage_with_read_barrier_def)
qed

lemma barrier_key_bytes: "new_bytes L m [VReadBarrier] = 0" "new_bytes L m [VDatabase] = 0"
  by (simp_all add: is_barrier_key_def)

lemma fresh_pages_ok: "fresh_pages vi \<Longrightarrow> \<forall>p \<in> set (segments (stamps vi)). lease_ok L p \<and> bounds_ok p"
  by (simp add: fresh_pages_def lease_ok_def bounds_ok_def)

lemma barrier_index_ok:
  assumes "index_ok L vi"
  shows "index_ok L (vi\<lparr>read_barrier := s\<rparr>)" "index_ok L (vi\<lparr>database_barrier := s\<rparr>)"
  using assms by (simp_all add: index_ok_def stamps_ok_def)

lemma barrier_result:
  assumes "layout_ok L" "index_ok L vi" "bt_sorted version_key_cmp (writes ws)" "hb_used b \<le> hb_limit b"
    "\<forall>k \<in> set (map fst (writes ws)). \<not> is_read_summary_key k"
    and Staged: "stage_with_read_barrier L b vi ws epoch = Staged self new b'"
  shows "index_ok L self \<and> index_ok L new \<and> vi_bytes new \<le> vi_max_bytes new \<and> vi_max_bytes new = vi_max_bytes vi \<and>
      (\<forall>p \<in> set (segments (stamps self)) \<union> set (segments (stamps new)). history_lease p = Some (vpayload L (entries p))) \<and>
      hb_used b' = hb_used b + barrier_credit L vi (map fst (writes ws)) \<and> hb_used b' \<le> hb_limit b' \<and> hb_limit b' = hb_limit b \<and>
      history_floor new = history_floor vi \<and>
      stamp VReadBarrier new = Some \<lparr> stamp_epoch = epoch, stamp_disposition = Live \<rparr> \<and>
      (\<forall>k. stamp k self = stamp k vi \<and>
         (k \<noteq> VReadBarrier \<longrightarrow> stamp k new = (case bt_get version_key_cmp k (writes ws) of
            None \<Rightarrow> if is_read_summary_key k then None else stamp k vi
          | Some d \<Rightarrow> Some \<lparr> stamp_epoch = epoch, stamp_disposition = d \<rparr>)))"
proof -
  let ?sv = "map_pages (charged_page L) vi" and ?ks = "map fst (writes ws)"
  let ?cc = "collapsed_commit L ws epoch ?sv" and ?s = "\<lparr> stamp_epoch = epoch, stamp_disposition = Live \<rparr>"
  from Staged barrier_stage_eq [OF assms(1-3,5), of b epoch]
  have fit: "admits_after_read_summary_collapse L vi ws" "granted (barrier_credit L vi ?ks) b"
    and eqs: "self = ?sv" "new = insert_stamp L VReadBarrier ?s (map_pages (charged_page L) ?cc)"
      "b' = b\<lparr>hb_used := hb_used b + barrier_credit L vi ?ks\<rparr>"
    by (auto split: if_splits)
  have sok: "stamps_ok L vi" and mx: "vi_max_bytes vi \<le> usize_max"
    and pg: "\<forall>p \<in> set (segments (stamps vi)). lease_ok L p \<and> bounds_ok p"
    using assms(2) by (simp_all add: index_ok_def)
  have le: "inline_barrier_bytes L + vpayload L (retained vi) + new_bytes L (stamps vi) ?ks \<le> vi_max_bytes vi"
    using fit(1) collapsed_write_bytes_spec [OF assms(1) sok mx, of ws]
    by (simp add: admits_after_read_summary_collapse_def Let_def split: if_splits)
  then have room: "inline_barrier_bytes L + vpayload L (retained ?sv) + new_bytes L (stamps ?sv) ?ks \<le> usize_max"
    using mx unfolding charged_facts by linarith
  have sv: "stamps_ok L ?sv" using sok by (simp add: charged_facts)
  note cc = collapsed_commit_facts [OF assms(1) sv assms(3,5) room, where epoch = epoch]
  have "index_ok L (map_pages (charged_page L) ?cc)"
    by (rule charged_index_ok [OF cc(1) fresh_pages_ok [OF cc(2)]]) (simp add: cc(5) mx)
  then have new: "index_ok L new" unfolding eqs insert_stamp_cases by (rule barrier_index_ok)
  have self: "index_ok L self" unfolding eqs by (rule charged_index_ok [OF sok pg mx])
  have lease: "history_lease p = Some (vpayload L (entries p))" if "lease_ok L p" "history_lease p \<noteq> None" for p
    using that by (auto simp: lease_ok_def)
  have "\<forall>p \<in> set (segments (stamps self)) \<union> set (segments (stamps new)). history_lease p = Some (vpayload L (entries p))"
    using charged_pages_ok [OF pg] charged_pages_ok [OF fresh_pages_ok [OF cc(2)], of L] lease
    unfolding eqs insert_stamp_cases by auto
  moreover have "vi_bytes new \<le> vi_max_bytes new" "vi_max_bytes new = vi_max_bytes vi" "history_floor new = history_floor vi"
    "stamp VReadBarrier new = Some ?s"
    using le by (simp_all add: eqs insert_stamp_cases cc(3-5) charged_facts stamp_cases)
  moreover have "stamp k self = stamp k vi" for k by (simp add: eqs charged_facts)
  moreover have "stamp k new = (case bt_get version_key_cmp k (writes ws) of
      None \<Rightarrow> if is_read_summary_key k then None else stamp k vi
    | Some d \<Rightarrow> Some \<lparr> stamp_epoch = epoch, stamp_disposition = d \<rparr>)" if "k \<noteq> VReadBarrier" for k
  proof -
    have "stamp k new = stamp k (map_pages (charged_page L) ?cc)"
      using that by (cases k) (simp_all add: eqs insert_stamp_cases stamp_def)
    then show ?thesis using cc(6) [of k] by (simp add: charged_facts cong: option.case_cong)
  qed
  moreover have "hb_used b' = hb_used b + barrier_credit L vi ?ks" "hb_used b' \<le> hb_limit b'" "hb_limit b' = hb_limit b"
    using fit(2) assms(4) by (auto simp: eqs granted_def)
  ultimately show ?thesis using new self by blast
qed

text \<open>
  C19. When read summaries no longer fit, a commit is staged without any of them and with the read
  barrier instead. This never panics, and it is refused only when the writer's own keys do not fit. The
  new index is well-formed and within its byte limit, keeps the stamp of every identity that is not a read
  summary, has no read summary left, and its read barrier carries the epoch of the commit, so a reader
  that relied on any dropped summary still sees a change. The credit is exact, as for staging.
\<close>

theorem read_barrier_sound:
  assumes "layout_ok L" "index_ok L vi" "bt_sorted version_key_cmp (writes ws)" "hb_used b \<le> hb_limit b"
    "\<forall>k \<in> set (map fst (writes ws)). \<not> is_read_summary_key k"
  shows "case stage_with_read_barrier L b vi ws epoch of
    Panicked \<Rightarrow> False
  | Refused \<Rightarrow> \<not> admits_after_read_summary_collapse L vi ws \<or>
      min (hb_limit b) usize_max < hb_used b + barrier_credit L vi (map fst (writes ws))
  | Staged self new b' \<Rightarrow>
      index_ok L self \<and> index_ok L new \<and> vi_bytes new \<le> vi_max_bytes new \<and> vi_max_bytes new = vi_max_bytes vi \<and>
      (\<forall>p \<in> set (segments (stamps self)) \<union> set (segments (stamps new)). history_lease p = Some (vpayload L (entries p))) \<and>
      hb_used b' = hb_used b + barrier_credit L vi (map fst (writes ws)) \<and> hb_used b' \<le> hb_limit b' \<and> hb_limit b' = hb_limit b \<and>
      history_floor new = history_floor vi \<and>
      stamp VReadBarrier new = Some \<lparr> stamp_epoch = epoch, stamp_disposition = Live \<rparr> \<and>
      (\<forall>k. stamp k self = stamp k vi \<and>
         (k \<noteq> VReadBarrier \<longrightarrow> stamp k new = (case bt_get version_key_cmp k (writes ws) of
            None \<Rightarrow> if is_read_summary_key k then None else stamp k vi
          | Some d \<Rightarrow> Some \<lparr> stamp_epoch = epoch, stamp_disposition = d \<rparr>)))"
proof (cases "stage_with_read_barrier L b vi ws epoch")
  case Refused
  then show ?thesis
    using barrier_stage_eq [OF assms(1-3,5), of b epoch] by (auto simp: granted_def split: if_splits)
next
  case (Staged self new b')
  show ?thesis unfolding Staged staging.case by (rule barrier_result [OF assms Staged])
qed (use barrier_stage_eq [OF assms(1-3,5), of b epoch] in \<open>auto split: if_splits\<close>)

section \<open>A concrete index\<close>

text \<open>One node, stamped at epoch 3, on a page with a lease of its weight.\<close>

definition demo_page :: version_page where
  "demo_page = \<lparr> entries = [(VGraphNode 1, \<lparr> stamp_epoch = 3, stamp_disposition = Live \<rparr>)], page_bytes = None,
     epoch_bounds = None, history_lease = Some 88, page_shared = False \<rparr>"

definition demo_index :: version_index where
  "demo_index = \<lparr> history_floor = 0, database_barrier = None, read_barrier = None,
     stamps = \<lparr> segments = [demo_page], map_len = 1, delta_pressure = 0 \<rparr>, vi_bytes = 264, vi_max_bytes = 1000 \<rparr>"

definition demo_budget :: history_budget where "demo_budget = \<lparr> hb_used = 88, hb_limit = 1000 \<rparr>"

definition demo_writes :: version_write_set where
  "demo_writes = \<lparr> writes = [(VGraphNode 2, Tombstone)], ws_max_entries = 9, ws_max_bytes = 1000, ws_bytes = 73 \<rparr>"

lemma demo_layout_ok: "layout_ok demo_vlayout"
  by (simp add: layout_ok_def demo_vlayout_def usize_max_def)

lemma demo_stamp_bytes [simp]: "version_stamp_bytes demo_vlayout (VGraphNode n) = 88" "inline_barrier_bytes demo_vlayout = 176"
  "version_key_bytes demo_vlayout (VGraphNode n) = 72" "sizeof_stamp demo_vlayout = 16"
  by (simp_all add: version_stamp_bytes_def inline_barrier_bytes_def demo_vlayout_def sat_add_def usize_max_def)

lemma demo_index_ok: "index_ok demo_vlayout demo_index"
  by (simp add: index_ok_def stamps_ok_def cow_ok_def cow_iter_def page_ok_def cache_ok_def lease_ok_def bounds_ok_def
    demo_index_def demo_page_def is_barrier_key_def usize_max_def COW_MAP_MAX_SEGMENT_ENTRIES_def)

lemma demo_new_key: "cow_contains version_key_cmp (VGraphNode 2) (stamps demo_index) = False"
  by (simp add: cow_contains_def cow_get_def segment_index_def demo_index_def demo_page_def version_key_cmp_def cmp_lin_def)

lemma demo_gets:
  "bt_get version_key_cmp (VGraphNode 2) (writes demo_writes) = Some Tombstone"
  "bt_get version_key_cmp (VGraphNode 1) (writes demo_writes) = None"
  "stamp (VGraphNode 1) demo_index = Some \<lparr> stamp_epoch = 3, stamp_disposition = Live \<rparr>"
  by (simp_all add: demo_writes_def demo_index_def demo_page_def stamp_def cow_get_def segment_index_def version_key_cmp_def cmp_lin_def)

theorem stage_sound_witness:
  "\<exists>self new b'. stage demo_vlayout demo_budget demo_index demo_writes 4 = Staged self new b' \<and> index_ok demo_vlayout new \<and>
     stamp (VGraphNode 1) new = Some \<lparr> stamp_epoch = 3, stamp_disposition = Live \<rparr> \<and>
     stamp (VGraphNode 2) new = Some \<lparr> stamp_epoch = 4, stamp_disposition = Tombstone \<rparr> \<and> hb_used b' = 264"
proof -
  have credit: "stage_credit demo_vlayout demo_index (map fst (writes demo_writes)) = 176"
    using demo_new_key
    by (simp add: stage_credit_def demo_writes_def is_barrier_key_def touched_pages_def List.map_filter_simps version_page_for_key_def
      segment_index_def demo_index_def demo_page_def page_uncharged_def)
  have adm: "admits demo_vlayout demo_index demo_writes"
    using demo_new_key by (simp add: admits_def demo_writes_def is_barrier_key_def checked_add_def usize_max_def) (simp add: demo_index_def)
  have "bt_sorted version_key_cmp (writes demo_writes)" "hb_used demo_budget \<le> hb_limit demo_budget"
    by (simp_all add: demo_writes_def demo_budget_def)
  from stage_sound [OF demo_layout_ok demo_index_ok this, of 4] credit adm demo_gets
  show ?thesis by (cases "stage demo_vlayout demo_budget demo_index demo_writes 4") (simp_all add: demo_budget_def usize_max_def)
qed

theorem read_barrier_sound_witness:
  "\<exists>self new b'. stage_with_read_barrier demo_vlayout demo_budget demo_index demo_writes 4 = Staged self new b' \<and> index_ok demo_vlayout new \<and>
     stamp VReadBarrier new = Some \<lparr> stamp_epoch = 4, stamp_disposition = Live \<rparr> \<and>
     stamp (VGraphNode 2) new = Some \<lparr> stamp_epoch = 4, stamp_disposition = Tombstone \<rparr> \<and> hb_used b' = 264"
proof -
  have credit: "barrier_credit demo_vlayout demo_index (map fst (writes demo_writes)) = 176"
    using demo_new_key
    by (simp add: barrier_credit_def demo_writes_def is_barrier_key_def retained_def cow_iter_def)
      (simp add: demo_index_def demo_page_def page_uncharged_def)
  have adm: "admits_after_read_summary_collapse demo_vlayout demo_index demo_writes"
    using demo_new_key
    by (simp add: admits_after_read_summary_collapse_def collapsed_write_bytes_def demo_writes_def is_barrier_key_def
      checked_add_def usize_max_def cow_iter_def)
      (simp add: demo_index_def demo_page_def checked_add_def usize_max_def)
  have "bt_sorted version_key_cmp (writes demo_writes)" "hb_used demo_budget \<le> hb_limit demo_budget"
    "\<forall>k \<in> set (map fst (writes demo_writes)). \<not> is_read_summary_key k"
    by (simp_all add: demo_writes_def demo_budget_def)
  from read_barrier_sound [OF demo_layout_ok demo_index_ok this, of 4] credit adm demo_gets
  show ?thesis
    by (cases "stage_with_read_barrier demo_vlayout demo_budget demo_index demo_writes 4") (simp_all add: demo_budget_def usize_max_def)
qed

end
