(* ===== verification/Version_Prune.thy ===== *)
theory Version_Prune
  imports Version_Index
begin

text \<open>
  Pruning of the version index (\<open>prune_map\<close>, \<open>prune_before\<close> and \<open>prune_tombstones_before\<close> of
  \<open>crates/storage/src/version.rs\<close>, over the page plans of \<open>cow/version_pages.rs\<close>). Pruning works page
  by page: a page is kept, dropped or edited, and when the budget cannot pay for the copies of shared
  pages that edits need, those pages stay as they are. Theorems: pruning never panics, removes only
  stamps it may remove, keeps the index well-formed, and changes the budget by exactly the difference
  of the credit that the index owned before and owns after.
\<close>

text \<open>The credit that this index alone owns, and the weight of the shared pages a plan copies.\<close>

definition page_owned :: "version_page \<Rightarrow> nat" where
  "page_owned p = (if page_shared p then 0 else case history_lease p of None \<Rightarrow> 0 | Some r \<Rightarrow> r)"

definition owned :: "version_page list \<Rightarrow> nat" where
  "owned ps = sum_list (map page_owned ps)"

fun mixed_weight :: "version_layout \<Rightarrow> page_retention list \<Rightarrow> version_page list \<Rightarrow> nat" where
  "mixed_weight L (a # plan) (p # ps) =
     (if page_shared p \<and> a = Mixed then vpayload L (entries p) else 0) + mixed_weight L plan ps"
| "mixed_weight L _ _ = 0"

fun kept_entries ::
    "(version_stamp \<Rightarrow> bool) \<Rightarrow> page_retention list \<Rightarrow> version_page list \<Rightarrow> (version_key, version_stamp) btree" where
  "kept_entries keep (a # plan) (p # ps) =
     (case a of Keep \<Rightarrow> entries p | Drop \<Rightarrow> [] | Mixed \<Rightarrow> filter (\<lambda>e. keep (snd e)) (entries p)) @ kept_entries keep plan ps"
| "kept_entries keep _ _ = []"

definition vpage_ok :: "version_layout \<Rightarrow> version_page \<Rightarrow> bool" where
  "vpage_ok L p \<longleftrightarrow> page_ok (version_weight L) p \<and> lease_ok L p \<and> bounds_ok p"

lemma owned_simps [simp]: "owned [] = 0" "owned (p # ps) = page_owned p + owned ps"
  by (simp_all add: owned_def)

lemma retain_page_spec:
  assumes "vpage_ok L p" "vpayload L (entries p) \<le> usize_max" "page_owned p \<le> hb_used b"
  obtains q b' where "retain_page L keep p b = Some (q, b')" "entries q = filter (\<lambda>e. keep (snd e)) (entries p)"
    "entries q \<noteq> [] \<longrightarrow> vpage_ok L q" "page_shared q = False" "hb_used b' + page_owned p = hb_used b + page_owned q" "hb_limit b' = hb_limit b"
    "page_uncharged (version_weight L) q \<le> page_uncharged (version_weight L) p + (if page_shared p then vpayload L (entries p) else 0)"
    "page_owned q \<le> hb_used b'" "history_lease p = None \<longrightarrow> history_lease q = None" "page_owned q \<le> page_owned p"
proof -
  let ?W = "version_weight L" and ?es = "filter (\<lambda>e. keep (snd e)) (entries p)"
  let ?q = "(page_deref_mut (page_make_mut p))\<lparr>entries := ?es\<rparr>"
  have le: "vpayload L ?es \<le> vpayload L (entries p)" by (rule payload_filter_le)
  have cache: "cache_ok ?W ?q" "payload_bytes ?W ?q = vpayload L ?es"
    by (simp_all add: cache_ok_def page_deref_mut_def payload_bytes_def entries_payload_def)
  have len: "length ?es \<le> COW_MAP_MAX_SEGMENT_ENTRIES"
    using assms(1) length_filter_le [of "\<lambda>e. keep (snd e)" "entries p"] unfolding vpage_ok_def page_ok_def by linarith
  have adm: "admitted_weight L ?q = Some (vpayload L ?es)" using cache le assms(2) by (simp add: admitted_weight_def)
  have fields: "epoch_bounds ?q = None" "page_shared ?q = False"
    "history_lease ?q = (if page_shared p then None else history_lease p)"
    by (simp_all add: page_deref_mut_def page_make_mut_def)
  show thesis
  proof (cases "history_lease ?q")
    case None
    then have "retain_page L keep p b = Some (?q, b)" using adm by (simp add: retain_page_def Let_def)
    moreover have "?es \<noteq> [] \<longrightarrow> vpage_ok L ?q"
      using cache len fields None by (simp add: vpage_ok_def page_ok_def lease_ok_def bounds_ok_def)
    moreover have "page_owned p = 0" "page_owned ?q = 0" using None fields by (auto simp: page_owned_def)
    moreover have "page_uncharged ?W ?q \<le> page_uncharged ?W p + (if page_shared p then vpayload L (entries p) else 0)"
      using None fields le by (auto simp: page_uncharged_def split: if_splits)
    moreover have "history_lease p = None \<longrightarrow> history_lease ?q = None" using None by simp
    ultimately show thesis using fields by (intro that [of ?q b]) simp_all
  next
    case (Some r)
    then have p: "\<not> page_shared p" "history_lease p = Some r" using fields by (auto split: if_splits)
    then have r: "r = vpayload L (entries p)" using assms(1) by (simp add: vpage_ok_def lease_ok_def)
    let ?q' = "?q\<lparr>history_lease := Some (vpayload L ?es)\<rparr>" and ?b = "b\<lparr>hb_used := hb_used b - (r - vpayload L ?es)\<rparr>"
    have used: "r \<le> hb_used b" using assms(3) p by (simp add: page_owned_def)
    have "retain_page L keep p b = Some (?q', ?b)"
      using adm Some r le used by (simp add: retain_page_def Let_def lease_shrink_def lease_drop_def)
    moreover have "?es \<noteq> [] \<longrightarrow> vpage_ok L ?q'"
      using cache len fields by (simp add: vpage_ok_def page_ok_def lease_ok_def bounds_ok_def cache_ok_def)
    moreover have "page_owned p = r" "page_owned ?q' = vpayload L ?es" using p fields by (simp_all add: page_owned_def)
    moreover have "page_uncharged ?W ?q' = 0" by (simp add: page_uncharged_def)
    ultimately show thesis using fields r le used p by (intro that [of ?q' ?b]) simp_all
  qed
qed

lemma release_page_spec:
  "page_owned p \<le> hb_used b \<Longrightarrow> release_page p b = Some (b\<lparr>hb_used := hb_used b - page_owned p\<rparr>)"
  by (auto simp: release_page_def page_owned_def lease_drop_def split: option.split if_splits)

lemma retain_pages_spec:
  assumes "length plan = length ps" "\<forall>p \<in> set ps. vpage_ok L p" "vpayload L (flat ps) \<le> usize_max" "owned ps \<le> hb_used b"
  shows "\<exists>ps' b'. retain_loop_pages L keep plan ps b = Some (ps', b') \<and> flat ps' = kept_entries keep plan ps \<and>
    (\<forall>p \<in> set ps'. vpage_ok L p) \<and> hb_used b' + owned ps = hb_used b + owned ps' \<and> owned ps' \<le> owned ps \<and> hb_limit b' = hb_limit b \<and>
    uncharged (version_weight L) ps' \<le> uncharged (version_weight L) ps + mixed_weight L plan ps \<and>
    (\<forall>q \<in> set ps'. q \<in> set ps \<or> \<not> page_shared q \<and> (\<exists>p \<in> set ps. history_lease p = None \<longrightarrow> history_lease q = None))"
  using assms
proof (induction plan ps arbitrary: b rule: list_induct2')
  case (4 a plan p ps)
  have len: "length plan = length ps" and ok: "vpage_ok L p" "\<forall>q \<in> set ps. vpage_ok L q"
    and w: "vpayload L (entries p) \<le> usize_max" "vpayload L (flat ps) \<le> usize_max"
    and used: "page_owned p \<le> hb_used b" "owned ps \<le> hb_used b - page_owned p"
    using "4.prems" by simp_all
  show ?case
  proof (cases a)
    case Keep
    have "owned ps \<le> hb_used b" using used by linarith
    with "4.IH" [OF len ok(2) w(2), of b] Keep ok(1) show ?thesis by fastforce
  next
    case Drop
    let ?b = "b\<lparr>hb_used := hb_used b - page_owned p\<rparr>"
    have "owned ps \<le> hb_used ?b" using used by simp
    with "4.IH" [OF len ok(2) w(2), of ?b] Drop used(1) show ?thesis by (auto simp: release_page_spec)
  next
    case Mixed
    obtain q b1 where q: "retain_page L keep p b = Some (q, b1)" "entries q = filter (\<lambda>e. keep (snd e)) (entries p)"
      "entries q \<noteq> [] \<longrightarrow> vpage_ok L q" "page_shared q = False" "hb_used b1 + page_owned p = hb_used b + page_owned q" "hb_limit b1 = hb_limit b"
      "page_uncharged (version_weight L) q \<le> page_uncharged (version_weight L) p + (if page_shared p then vpayload L (entries p) else 0)"
      "page_owned q \<le> hb_used b1" "history_lease p = None \<longrightarrow> history_lease q = None" "page_owned q \<le> page_owned p"
      by (rule retain_page_spec [OF ok(1) w(1) used(1), of keep])
    show ?thesis
    proof (cases "entries q = []")
      case True
      let ?b = "b1\<lparr>hb_used := hb_used b1 - page_owned q\<rparr>"
      have "owned ps \<le> hb_used ?b" using used q(5) by simp
      with "4.IH" [OF len ok(2) w(2), of ?b] Mixed True q release_page_spec [OF q(8)] show ?thesis by auto
    next
      case False
      have "owned ps \<le> hb_used b1" using used q(5) by linarith
      from "4.IH" [OF len ok(2) w(2) this] obtain ps' b' where IH: "retain_loop_pages L keep plan ps b1 = Some (ps', b')"
        "flat ps' = kept_entries keep plan ps" "\<forall>p \<in> set ps'. vpage_ok L p" "hb_used b' + owned ps = hb_used b1 + owned ps'" "owned ps' \<le> owned ps"
        "hb_limit b' = hb_limit b1" "uncharged (version_weight L) ps' \<le> uncharged (version_weight L) ps + mixed_weight L plan ps"
        "\<forall>q \<in> set ps'. q \<in> set ps \<or> \<not> page_shared q \<and> (\<exists>p \<in> set ps. history_lease p = None \<longrightarrow> history_lease q = None)" by blast
      then have "retain_loop_pages L keep (a # plan) (p # ps) b = Some (q # ps', b')" using Mixed False q(1) by simp
      moreover have "flat (q # ps') = kept_entries keep (a # plan) (p # ps)" using IH(2) q(2) Mixed by simp
      moreover have "uncharged (version_weight L) (q # ps') \<le> uncharged (version_weight L) (p # ps) + mixed_weight L (a # plan) (p # ps)"
        using IH(7) q(7) Mixed by simp
      ultimately show ?thesis using IH q False by (intro exI [of _ "q # ps'"] exI [of _ b']) auto
    qed
  qed
qed simp_all

lemma kept_entries_subset:
  assumes "e \<in> set (kept_entries keep plan ps)"
  shows "e \<in> set (flat ps)"
  using assms by (induction keep plan ps rule: kept_entries.induct) (auto split: page_retention.splits)

definition plan_ok :: "(version_stamp \<Rightarrow> bool) \<Rightarrow> page_retention list \<Rightarrow> version_page list \<Rightarrow> bool" where
  "plan_ok keep plan ps \<longleftrightarrow>
     list_all2 (\<lambda>a p. (a = Drop \<longrightarrow> (\<forall>e \<in> set (entries p). \<not> keep (snd e)))) plan ps"

lemma kept_entries_complete:
  assumes "plan_ok keep plan ps" "e \<in> set (flat ps)" "keep (snd e)"
  shows "e \<in> set (kept_entries keep plan ps)"
  using assms unfolding plan_ok_def by (induction plan ps rule: list_all2_induct) (auto split: page_retention.split)

lemma kept_entries_sorted: "bt_sorted c (flat ps) \<Longrightarrow> bt_sorted c (kept_entries keep plan ps)"
proof (induction keep plan ps rule: kept_entries.induct)
  case (1 keep a plan p ps)
  then have "bt_sorted c (kept_entries keep plan ps)" by (simp add: bt_sorted_append)
  moreover have "\<forall>x \<in> set (entries p). \<forall>y \<in> set (kept_entries keep plan ps). c (fst x) (fst y) = Less"
    using "1.prems" kept_entries_subset [of _ keep plan ps] by (simp add: bt_sorted_append) blast
  ultimately show ?case
    using "1.prems" by (auto simp: bt_sorted_append bt_sorted_filter split: page_retention.split)
qed simp_all

definition with_pages :: "version_layout \<Rightarrow> version_page list \<Rightarrow> version_index \<Rightarrow> version_index" where
  "with_pages L ps vi =
     vi\<lparr>stamps := (stamps vi)\<lparr>segments := ps, map_len := sum_list (map (\<lambda>p. length (entries p)) ps)\<rparr>,
        vi_bytes := inline_barrier_bytes L + vpayload L (flat ps)\<rparr>"

definition uniform :: "version_page list \<Rightarrow> bool" where
  "uniform ps \<longleftrightarrow> (\<forall>p \<in> set ps. history_lease p \<noteq> None) \<or> (\<forall>p \<in> set ps. history_lease p = None)"

lemma entries_pressure_version: "entries_pressure (version_weight L) es = 0"
  by (simp add: entries_pressure_def)

lemma kept_payload_le: "vpayload L (kept_entries keep plan ps) \<le> vpayload L (flat ps)"
  by (induction keep plan ps rule: kept_entries.induct)
    (auto split: page_retention.split intro: add_mono payload_filter_le)

lemma length_flat: "length (flat ps) = sum_list (map (\<lambda>p. length (entries p)) ps)"
  by (simp add: length_concat comp_def)

lemma with_pages_ok:
  assumes ok: "index_ok L vi" and pg: "\<forall>p \<in> set ps. vpage_ok L p" and uni: "uniform ps"
    and fl: "flat ps = kept_entries keep plan (segments (stamps vi))"
  shows "index_ok L (with_pages L ps vi)" "vi_bytes (with_pages L ps vi) \<le> vi_bytes vi"
proof -
  let ?m = "stamps (with_pages L ps vi)"
  have it: "cow_iter ?m = flat ps" by (simp add: cow_iter_def with_pages_def)
  have s: "stamps_ok L vi" using ok by (simp add: index_ok_def)
  have le: "vpayload L (flat ps) \<le> vpayload L (cow_iter (stamps vi))"
    unfolding fl cow_iter_def by (rule kept_payload_le)
  have "bt_sorted version_key_cmp (flat ps)"
    unfolding fl using s by (intro kept_entries_sorted) (simp add: stamps_ok_def cow_ok_def cow_iter_def)
  moreover have "map_len ?m = length (flat ps)" unfolding length_flat by (simp add: with_pages_def)
  moreover have "delta_pressure ?m = 0"
    using s by (simp add: with_pages_def stamps_ok_def cow_ok_def entries_pressure_version)
  moreover have "list_all (page_ok (version_weight L)) ps" using pg by (simp add: list_all_iff vpage_ok_def)
  ultimately have cow: "cow_ok (version_weight L) version_key_cmp ?m"
    unfolding cow_ok_def it entries_pressure_version by (simp add: with_pages_def)
  have "\<forall>e \<in> set (flat ps). \<not> is_barrier_key (fst e)"
    unfolding fl using s kept_entries_subset unfolding stamps_ok_def cow_iter_def by blast
  with cow le s have "stamps_ok L (with_pages L ps vi)"
    unfolding stamps_ok_def it by (simp add: with_pages_def)
  with ok pg uni show "index_ok L (with_pages L ps vi)"
    unfolding index_ok_def uniform_def by (auto simp: with_pages_def vpage_ok_def)
  show "vi_bytes (with_pages L ps vi) \<le> vi_bytes vi" using s le by (simp add: with_pages_def stamps_ok_def)
qed

lemma with_pages_stamp:
  assumes ok: "index_ok L vi" and new: "index_ok L (with_pages L ps vi)"
    and fl: "flat ps = kept_entries keep plan (segments (stamps vi))" and plan: "plan_ok keep plan (segments (stamps vi))"
  shows "stamp k (with_pages L ps vi) = Some s \<Longrightarrow> stamp k vi = Some s"
    "stamp k vi = Some s \<Longrightarrow> keep s \<Longrightarrow> stamp k (with_pages L ps vi) = Some s"
proof -
  have it: "cow_iter (stamps (with_pages L ps vi)) = flat ps" by (simp add: cow_iter_def with_pages_def)
  have s: "stamps_ok L vi" "stamps_ok L (with_pages L ps vi)" using ok new by (simp_all add: index_ok_def)
  have srt: "bt_sorted version_key_cmp (cow_iter (stamps vi))" "bt_sorted version_key_cmp (flat ps)"
    using s unfolding stamps_ok_def cow_ok_def it by blast+
  show "stamp k vi = Some s" if "stamp k (with_pages L ps vi) = Some s"
  proof (cases "is_barrier_key k")
    case True
    with that show ?thesis by (auto simp: is_barrier_key_def stamp_cases with_pages_def)
  next
    case False
    with that have "bt_get version_key_cmp k (flat ps) = Some s" by (simp add: stamp_cases(3) cow_get_iter [OF s(2)] it)
    then have "bt_get version_key_cmp k (cow_iter (stamps vi)) = Some s"
      unfolding vkey_ord.bt_get_Some_iff [OF srt(1)] vkey_ord.bt_get_Some_iff [OF srt(2)]
      using kept_entries_subset unfolding fl cow_iter_def by blast
    with False show ?thesis by (simp add: stamp_cases(3) cow_get_iter [OF s(1)])
  qed
  show "stamp k (with_pages L ps vi) = Some s" if st: "stamp k vi = Some s" "keep s"
  proof (cases "is_barrier_key k")
    case True
    with st show ?thesis by (auto simp: is_barrier_key_def stamp_cases with_pages_def)
  next
    case False
    with st(1) have "bt_get version_key_cmp k (cow_iter (stamps vi)) = Some s" by (simp add: stamp_cases(3) cow_get_iter [OF s(1)])
    then obtain k' where k': "(k', s) \<in> set (cow_iter (stamps vi))" "version_key_cmp k k' = Equal"
      unfolding vkey_ord.bt_get_Some_iff [OF srt(1)] by blast
    then have "(k', s) \<in> set (flat ps)"
      using kept_entries_complete [OF plan, of "(k', s)"] st(2) unfolding fl cow_iter_def by simp
    then have "bt_get version_key_cmp k (flat ps) = Some s"
      unfolding vkey_ord.bt_get_Some_iff [OF srt(2)] using k'(2) by blast
    with False show ?thesis by (simp add: stamp_cases(3) cow_get_iter [OF s(2)] it)
  qed
qed

section \<open>The plan\<close>

lemma mixed_weight_sum:
  "length plan = length ps \<Longrightarrow>
   sum_list (map (\<lambda>((payload, _), _). payload) (filter (\<lambda>((_, shared, _), a). shared \<and> a = Mixed)
     (zip (map (\<lambda>p. (vpayload L (entries p), page_shared p, history_lease p \<noteq> None)) ps) plan))) = mixed_weight L plan ps"
  by (induction plan ps rule: list_induct2) auto

lemma mixed_weight_le: "mixed_weight L plan ps \<le> vpayload L (flat ps)"
  by (induction L plan ps rule: mixed_weight.induct) (auto intro: le_SucI)

lemma mixed_weight_none: "Mixed \<notin> set plan \<Longrightarrow> mixed_weight L plan ps = 0"
  by (induction L plan ps rule: mixed_weight.induct) auto

lemma bounds_fold:
  "foldl (\<lambda>(lo, hi) s. (min lo (stamp_epoch s), max hi (stamp_epoch s))) (l, h) ss = (lo, hi) \<Longrightarrow>
   lo \<le> l \<and> h \<le> hi \<and> (\<forall>s \<in> set ss. lo \<le> stamp_epoch s \<and> stamp_epoch s \<le> hi)"
proof (induction ss arbitrary: l h)
  case (Cons s ss)
  have "foldl (\<lambda>(lo, hi) s. (min lo (stamp_epoch s), max hi (stamp_epoch s))) (min l (stamp_epoch s), max h (stamp_epoch s)) ss = (lo, hi)"
    using Cons.prems by simp
  from Cons.IH [OF this] show ?case by auto
qed simp

lemma page_epoch_bounds_ok:
  assumes "bounds_ok p" "page_epoch_bounds p = (lo, hi)" "e \<in> set (entries p)"
  shows "lo \<le> stamp_epoch (snd e) \<and> stamp_epoch (snd e) \<le> hi"
proof (cases "epoch_bounds p")
  case None
  with assms(2) have "foldl (\<lambda>(lo, hi) s. (min lo (stamp_epoch s), max hi (stamp_epoch s))) (u64_max, 0) (map snd (entries p)) = (lo, hi)"
    by (simp add: page_epoch_bounds_def)
  from bounds_fold [OF this] assms(3) show ?thesis by auto
next
  case (Some b)
  with assms show ?thesis by (auto simp: bounds_ok_def page_epoch_bounds_def)
qed

text \<open>The plan by epoch floor agrees with the predicate it stands for.\<close>

definition floor_ok :: "(version_stamp \<Rightarrow> bool) \<Rightarrow> nat option \<Rightarrow> bool" where
  "floor_ok keep f \<longleftrightarrow> (case f of None \<Rightarrow> True | Some n \<Rightarrow> keep = (\<lambda>s. n \<le> stamp_epoch s))"

lemma retention_plan_ok:
  assumes "\<forall>p \<in> set (segments m). bounds_ok p" "floor_ok keep f"
  shows "plan_ok keep (version_retention_plan keep f m) (segments m)"
proof -
  have "\<forall>e \<in> set (entries p). \<not> keep (snd e)" if "p \<in> set (segments m)" "page_action keep f p = Drop" for p
  proof
    fix e assume e: "e \<in> set (entries p)"
    obtain lo hi where b: "page_epoch_bounds p = (lo, hi)" by fastforce
    have bo: "bounds_ok p" using assms(1) that(1) by blast
    show "\<not> keep (snd e)"
      using that(2) assms(2) page_epoch_bounds_ok [OF bo b e] b e
      by (auto simp: page_action_def floor_ok_def list_all_iff split: option.splits if_splits)
  qed
  then show ?thesis
    unfolding plan_ok_def version_retention_plan_def list_all2_map1 by (simp add: list_all2_same)
qed

lemma coarser_plan_ok: "plan_ok keep plan ps \<Longrightarrow> plan_ok keep (map (\<lambda>a. if a = Mixed then Keep else a) plan) ps"
  unfolding plan_ok_def list_all2_map1 by (erule list_all2_mono) (simp split: if_splits)

section \<open>Pruning the map\<close>

lemma recount_with_pages:
  assumes "\<forall>p \<in> set ps. vpage_ok L p" "inline_barrier_bytes L + vpayload L (flat ps) \<le> usize_max"
  shows "recount_bytes L (vi\<lparr>stamps := (stamps vi)\<lparr>segments := ps, map_len := sum_list (map (\<lambda>p. length (entries p)) ps)\<rparr>\<rparr>) =
    Some (with_pages L ps vi)"
proof -
  have "foldl (\<lambda>bytes (payload, _). sat_add bytes payload) b
      (map (\<lambda>p. (vpayload L (entries p), page_shared p, history_lease p \<noteq> None)) qs) = b + vpayload L (flat qs)"
    if "b + vpayload L (flat qs) \<le> usize_max" for b and qs :: "version_page list"
    using that by (induction qs arbitrary: b) simp_all
  moreover have "\<forall>p \<in> set ps. cache_ok (version_weight L) p" using assms(1) by (simp add: vpage_ok_def page_ok_def)
  ultimately show ?thesis
    using assms(2) layout_spec [of ps L] by (simp add: recount_bytes_def with_pages_def)
qed

lemma owned_charged:
  "\<forall>p \<in> set ps. history_lease p = None \<longrightarrow> \<not> page_shared p \<Longrightarrow>
   owned (map (charged_page L) ps) = owned ps + uncharged (version_weight L) ps"
  by (induction ps) (auto simp: page_owned_def page_uncharged_def charged_page_def)

lemma charged_page_ok: "vpage_ok L p \<Longrightarrow> vpage_ok L (charged_page L p)"
  by (auto simp: vpage_ok_def page_ok_def cache_ok_def lease_ok_def bounds_ok_def charged_page_def split: option.splits)

lemma flat_charged: "flat (map (charged_page L) ps) = flat ps"
  by (simp add: comp_def)

text \<open>Editing the pages of a plan, with a reservation of \<open>extra\<close> bytes for the copies.\<close>

lemma prune_pages_spec:
  assumes L: "layout_ok L" and ok: "index_ok L vi" and len: "length plan = length (segments (stamps vi))"
    and own: "owned (segments (stamps vi)) \<le> hb_used b"
    and man: "managed \<longleftrightarrow> (\<exists>p \<in> set (segments (stamps vi)). history_lease p \<noteq> None)"
    and extra: "managed \<Longrightarrow> mixed_weight L plan (segments (stamps vi)) \<le> extra" "\<not> managed \<Longrightarrow> extra = 0"
  shows "\<exists>ps b'. prune_pages L keep plan managed (if extra = 0 then None else Some extra) vi (b\<lparr>hb_used := hb_used b + extra\<rparr>) =
      Some (with_pages L ps vi, b') \<and> flat ps = kept_entries keep plan (segments (stamps vi)) \<and>
    (\<forall>p \<in> set ps. vpage_ok L p) \<and> uniform ps \<and>
    hb_used b' + owned (segments (stamps vi)) = hb_used b + owned ps \<and> hb_limit b' = hb_limit b \<and> hb_used b' \<le> hb_used b + extra"
proof -
  let ?W = "version_weight L" and ?ps = "segments (stamps vi)" and ?b = "b\<lparr>hb_used := hb_used b + extra\<rparr>"
  let ?res = "if extra = 0 then None else Some extra"
  have sok: "stamps_ok L vi" and uni: "uniform ?ps" using ok by (simp_all add: index_ok_def uniform_def)
  have pg: "\<forall>p \<in> set ?ps. vpage_ok L p" using ok by (simp add: index_ok_def vpage_ok_def stamps_ok_def cow_ok_def list_all_iff)
  have w: "inline_barrier_bytes L + vpayload L (flat ?ps) \<le> usize_max" using sok by (simp add: stamps_ok_def cow_iter_def)
  have own': "owned ?ps \<le> hb_used ?b" using own by simp
  have w': "vpayload L (flat ?ps) \<le> usize_max" using w by linarith
  from retain_pages_spec [OF len pg w' own', of keep]
  obtain ps b1 where r: "retain_loop_pages L keep plan ?ps ?b = Some (ps, b1)" "flat ps = kept_entries keep plan ?ps"
    "\<forall>p \<in> set ps. vpage_ok L p" "hb_used b1 + owned ?ps = hb_used ?b + owned ps" "hb_limit b1 = hb_limit b"
    "uncharged ?W ps \<le> uncharged ?W ?ps + mixed_weight L plan ?ps"
    "\<forall>q \<in> set ps. q \<in> set ?ps \<or> \<not> page_shared q \<and> (\<exists>p \<in> set ?ps. history_lease p = None \<longrightarrow> history_lease q = None)"
    "owned ps \<le> owned ?ps" by auto
  let ?m = "(stamps vi)\<lparr>segments := ps, map_len := sum_list (map (\<lambda>p. length (entries p)) ps)\<rparr>"
  have rv: "retain_version_pages L keep plan (stamps vi) ?b = Some (?m, b1)" by (simp add: retain_version_pages_def r(1))
  have le: "inline_barrier_bytes L + vpayload L (flat ps) \<le> usize_max"
    using kept_payload_le [of L keep plan ?ps] w unfolding r(2) by linarith
  show ?thesis
  proof (cases managed)
    case False
    then have none: "\<forall>p \<in> set ?ps. history_lease p = None" using man by blast
    then have "\<forall>p \<in> set ps. history_lease p = None" using r(7) by metis
    then have u: "uniform ps" by (simp add: uniform_def)
    have "prune_pages L keep plan managed ?res vi ?b = Some (with_pages L ps vi, b1)"
      using False extra(2) rv recount_with_pages [OF r(3) le, of vi] by (simp add: prune_pages_def refund_zero)
    with u r(2-5,8) False extra(2) show ?thesis by (intro exI [of _ ps] exI [of _ b1]) auto
  next
    case True
    then have all: "\<forall>p \<in> set ?ps. history_lease p \<noteq> None" using man uni by (auto simp: uniform_def)
    define u where "u = uncharged ?W ps"
    have ue: "u \<le> extra" using r(6) uncharged_none [OF all, of ?W] extra(1) [OF True] by (simp add: u_def)
    have cok: "\<forall>p \<in> set ps. cache_ok ?W p" "\<forall>p \<in> set ps. entries p \<noteq> []" using r(3) by (simp_all add: vpage_ok_def page_ok_def)
    have pw: "vpayload L (flat ps) \<le> usize_max" using le by linarith
    have "charge_version_pages L ps ?res = Some (map (charged_page L) ps, map_option (\<lambda>c. c - uncharged ?W ps) ?res)"
    proof (rule charge_spec [OF cok(1) pw])
      show "?res \<noteq> None" if "\<exists>p \<in> set ps. history_lease p = None"
        using that uncharged_zero [OF L cok(2)] ue by (auto simp: u_def)
    qed (use ue in \<open>auto simp: u_def split: if_splits\<close>)
    then have ch: "charge_index L (vi\<lparr>stamps := ?m\<rparr>) ?res =
        Some (vi\<lparr>stamps := ?m\<lparr>segments := map (charged_page L) ps\<rparr>\<rparr>, if extra = 0 then None else Some (extra - u))"
      by (simp add: charge_index_def u_def)
    let ?qs = "map (charged_page L) ps"
    have qok: "\<forall>p \<in> set ?qs. vpage_ok L p" using r(3) charged_page_ok by auto
    have lens: "sum_list (map (\<lambda>p. length (entries p)) ?qs) = sum_list (map (\<lambda>p. length (entries p)) ps)" by (simp add: comp_def)
    have upd: "?m\<lparr>segments := ?qs\<rparr> = (stamps vi)\<lparr>segments := ?qs, map_len := sum_list (map (\<lambda>p. length (entries p)) ps)\<rparr>"
      by (cases "stamps vi") simp
    have rc: "recount_bytes L (vi\<lparr>stamps := ?m\<lparr>segments := ?qs\<rparr>\<rparr>) = Some (with_pages L ?qs vi)"
      using recount_with_pages [OF qok, of vi] le unfolding flat_charged lens upd by blast
    have used: "extra - u \<le> hb_used b1" using r(4) own by simp
    let ?b2 = "b1\<lparr>hb_used := hb_used b1 - (extra - u)\<rparr>"
    have rf: "refund (if extra = 0 then None else Some (extra - u)) b1 = Some ?b2"
      using used ue by (simp add: refund_def lease_drop_def)
    have run: "prune_pages L keep plan managed ?res vi ?b = Some (with_pages L ?qs vi, ?b2)"
      unfolding prune_pages_def rv using True ch rc rf by simp
    have "\<forall>p \<in> set ps. history_lease p = None \<longrightarrow> \<not> page_shared p" using r(7) all by blast
    then have ow: "owned ?qs = owned ps + u" unfolding u_def by (rule owned_charged)
    have "uniform ?qs" unfolding uniform_def by (simp del: not_None_eq)
    moreover have "hb_used ?b2 + owned ?ps = hb_used b + owned ?qs" using r(4) ow used ue own by simp
    moreover have "hb_used ?b2 \<le> hb_used b + extra" using r(4,8) by simp
    moreover have "flat ?qs = kept_entries keep plan ?ps" unfolding flat_charged by (rule r(2))
    moreover have "hb_limit ?b2 = hb_limit b" using r(5) by simp
    ultimately show ?thesis using run qok by (intro exI [of _ ?qs] exI [of _ ?b2]) blast
  qed
qed

definition prune_result ::
    "version_layout \<Rightarrow> (version_stamp \<Rightarrow> bool) \<Rightarrow> version_index \<Rightarrow> history_budget \<Rightarrow> version_index \<Rightarrow> history_budget \<Rightarrow> bool" where
  "prune_result L keep vi b vi' b' \<longleftrightarrow>
     index_ok L vi' \<and> vi_bytes vi' \<le> vi_bytes vi \<and> vi_max_bytes vi' = vi_max_bytes vi \<and> history_floor vi' = history_floor vi \<and>
     database_barrier vi' = database_barrier vi \<and> read_barrier vi' = read_barrier vi \<and>
     (\<forall>k s. stamp k vi' = Some s \<longrightarrow> stamp k vi = Some s) \<and>
     (\<forall>k s. stamp k vi = Some s \<and> keep s \<longrightarrow> stamp k vi' = Some s) \<and>
     hb_used b' + owned (segments (stamps vi)) = hb_used b + owned (segments (stamps vi')) \<and> hb_limit b' = hb_limit b \<and>
     (hb_used b \<le> hb_limit b \<longrightarrow> hb_used b' \<le> hb_limit b')"

lemma prune_result_same: "index_ok L vi \<Longrightarrow> prune_result L keep vi b vi b"
  by (simp add: prune_result_def)

lemma prune_result_pages:
  assumes "index_ok L vi" "\<forall>p \<in> set ps. vpage_ok L p" "uniform ps" "flat ps = kept_entries keep plan (segments (stamps vi))"
    "plan_ok keep plan (segments (stamps vi))" "hb_used b' + owned (segments (stamps vi)) = hb_used b + owned ps"
    "hb_limit b' = hb_limit b" "hb_used b \<le> hb_limit b \<Longrightarrow> hb_used b' \<le> hb_limit b"
  shows "prune_result L keep vi b (with_pages L ps vi) b'"
proof -
  note new = with_pages_ok [OF assms(1-4)]
  note st = with_pages_stamp [OF assms(1) new(1) assms(4,5)]
  have "vi_max_bytes (with_pages L ps vi) = vi_max_bytes vi" "history_floor (with_pages L ps vi) = history_floor vi"
    "database_barrier (with_pages L ps vi) = database_barrier vi" "read_barrier (with_pages L ps vi) = read_barrier vi"
    "segments (stamps (with_pages L ps vi)) = ps"
    by (simp_all add: with_pages_def)
  then show ?thesis unfolding prune_result_def using new st assms(6-8) by metis
qed

lemma prune_map_spec:
  assumes L: "layout_ok L" and ok: "index_ok L vi" and own: "owned (segments (stamps vi)) \<le> hb_used b" and fl: "floor_ok keep f"
  shows "\<exists>vi' b'. prune_map L keep f vi b = Some (vi', b') \<and> prune_result L keep vi b vi' b'"
proof -
  let ?ps = "segments (stamps vi)" and ?plan = "version_retention_plan keep f (stamps vi)"
  show ?thesis
  proof (cases "list_all (\<lambda>a. a = Keep) ?plan")
    case True
    then show ?thesis using prune_result_same [OF ok] by (simp add: prune_map_def Let_def)
  next
    case False
    have sok: "stamps_ok L vi" and pg: "\<forall>p \<in> set ?ps. bounds_ok p" using ok by (simp_all add: index_ok_def)
    note plan = retention_plan_ok [OF pg fl]
    note ly = layout_spec [OF stamps_ok_pages(1,2) [OF sok]]
    have len: "length ?plan = length ?ps" by (simp add: version_retention_plan_def)
    define managed where "managed \<longleftrightarrow> (\<exists>p \<in> set ?ps. history_lease p \<noteq> None)"
    have man: "list_ex (\<lambda>(_, _, charged). charged) (map (\<lambda>p. (vpayload L (entries p), page_shared p, history_lease p \<noteq> None)) ?ps) = managed"
      by (simp add: list_ex_iff managed_def)
    define mixed where "mixed = (if managed then mixed_weight L ?plan ?ps else 0)"
    have "mixed_weight L ?plan ?ps \<le> usize_max" using mixed_weight_le [of L ?plan ?ps] stamps_ok_pages(2) [OF sok] by linarith
    then have sum: "(if managed then usize_sum (map (\<lambda>((payload, _), _). payload) (filter (\<lambda>((_, shared, _), a). shared \<and> a = Mixed)
        (zip (map (\<lambda>p. (vpayload L (entries p), page_shared p, history_lease p \<noteq> None)) ?ps) ?plan))) else 0) = mixed"
      by (simp add: mixed_def usize_sum_exact mixed_weight_sum [OF len] del: not_None_eq)
    have unfold: "prune_map L keep f vi b =
      (let reserved = (if 0 < mixed then budget_reserve mixed b else None); refused = 0 < mixed \<and> reserved = None;
           plan' = (if refused then map (\<lambda>a. if a = Mixed then Keep else a) ?plan else ?plan)
       in if refused \<and> Drop \<notin> set plan' then Some (vi, b)
          else prune_pages L keep plan' managed (case reserved of None \<Rightarrow> None | Some _ \<Rightarrow> Some mixed) vi
                 (case reserved of None \<Rightarrow> b | Some b' \<Rightarrow> b'))"
      using False unfolding prune_map_def Let_def ly bind.bind_lunit man sum by simp
    have pp: "\<exists>vi' b'. prune_pages L keep plan managed (if extra = 0 then None else Some extra) vi (b\<lparr>hb_used := hb_used b + extra\<rparr>) =
        Some (vi', b') \<and> prune_result L keep vi b vi' b'"
      if "plan_ok keep plan ?ps" "managed \<Longrightarrow> mixed_weight L plan ?ps \<le> extra" "\<not> managed \<Longrightarrow> extra = 0"
        "hb_used b \<le> hb_limit b \<Longrightarrow> hb_used b + extra \<le> hb_limit b" for plan extra
    proof -
      have "length plan = length ?ps" using that(1) by (auto simp: plan_ok_def dest: list_all2_lengthD)
      from prune_pages_spec [OF L ok this own managed_def that(2,3), of keep] obtain ps b' where
        p: "prune_pages L keep plan managed (if extra = 0 then None else Some extra) vi (b\<lparr>hb_used := hb_used b + extra\<rparr>) =
            Some (with_pages L ps vi, b')" "flat ps = kept_entries keep plan ?ps" "\<forall>p \<in> set ps. vpage_ok L p" "uniform ps"
          "hb_used b' + owned ?ps = hb_used b + owned ps" "hb_limit b' = hb_limit b" "hb_used b' \<le> hb_used b + extra" by blast
      have "prune_result L keep vi b (with_pages L ps vi) b'"
        by (rule prune_result_pages [OF ok p(3,4,2) that(1) p(5,6)]) (use that(4) p(7) in linarith)
      with p(1) show ?thesis by blast
    qed
    consider (none) "mixed = 0" | (some) b1 where "0 < mixed" "budget_reserve mixed b = Some b1"
      | (refused) "0 < mixed" "budget_reserve mixed b = None" by fastforce
    then show ?thesis
    proof cases
      case none
      then show ?thesis using pp [OF plan, of 0] unfold by (simp add: mixed_def split: if_splits)
    next
      case some
      then have "b1 = b\<lparr>hb_used := hb_used b + mixed\<rparr>" "hb_used b + mixed \<le> hb_limit b"
        by (auto simp: budget_reserve_def checked_add_def split: if_splits option.splits)
      then show ?thesis using pp [OF plan, of mixed] unfold some by (simp add: mixed_def split: if_splits)
    next
      case refused
      let ?plan' = "map (\<lambda>a. if a = Mixed then Keep else a) ?plan"
      have "mixed_weight L ?plan' ?ps = 0" by (rule mixed_weight_none) auto
      then show ?thesis
        using pp [OF coarser_plan_ok [OF plan], of 0] unfold refused prune_result_same [OF ok] by simp
    qed
  qed
qed

section \<open>Pruning by epoch\<close>

text \<open>
  What a pruning that keeps the stamps of \<open>keep\<close> below the watermark \<open>oldest\<close> promises; no result at
  all (a panic) is not allowed.
\<close>

definition pruned ::
    "version_layout \<Rightarrow> (version_stamp \<Rightarrow> bool) \<Rightarrow> nat \<Rightarrow> version_index \<Rightarrow> history_budget \<Rightarrow> (version_index \<times> history_budget) option \<Rightarrow> bool" where
  "pruned L keep oldest vi b r \<longleftrightarrow>
     (case r of
        None \<Rightarrow> False
      | Some (vi', b') \<Rightarrow>
          index_ok L vi' \<and> vi_bytes vi' \<le> vi_bytes vi \<and> vi_max_bytes vi' = vi_max_bytes vi \<and>
          history_floor vi' = max (history_floor vi) (oldest - 1) \<and>
          (\<forall>k s. stamp k vi' = Some s \<longrightarrow> stamp k vi = Some s) \<and>
          (\<forall>k s. stamp k vi = Some s \<and> keep s \<longrightarrow> stamp k vi' = Some s) \<and>
          hb_used b' + owned (segments (stamps vi)) = hb_used b + owned (segments (stamps vi')) \<and> hb_limit b' = hb_limit b \<and>
          (hb_used b \<le> hb_limit b \<longrightarrow> hb_used b' \<le> hb_limit b'))"

lemma barrier_after_Some: "barrier_after keep s = Some t \<longleftrightarrow> s = Some t \<and> keep t"
  by (auto simp: barrier_after_def split: option.split)

lemma prune_map_pruned:
  assumes "layout_ok L" "index_ok L vi" "owned (segments (stamps vi)) \<le> hb_used b" "floor_ok keep f"
  shows "pruned L keep oldest vi b
    (prune_map L keep f (vi\<lparr>history_floor := max (history_floor vi) (oldest - 1), database_barrier := barrier_after keep (database_barrier vi),
       read_barrier := barrier_after keep (read_barrier vi)\<rparr>) b)"
proof -
  let ?v = "vi\<lparr>history_floor := max (history_floor vi) (oldest - 1), database_barrier := barrier_after keep (database_barrier vi),
       read_barrier := barrier_after keep (read_barrier vi)\<rparr>"
  have "index_ok L ?v" using assms(2) by (simp add: index_ok_def stamps_ok_def)
  moreover have "owned (segments (stamps ?v)) \<le> hb_used b" using assms(3) by simp
  ultimately obtain vi' b' where p: "prune_map L keep f ?v b = Some (vi', b')" "prune_result L keep ?v b vi' b'"
    using prune_map_spec [OF assms(1) _ _ assms(4)] by blast
  have old: "stamp k ?v = Some s \<Longrightarrow> stamp k vi = Some s" "stamp k vi = Some s \<Longrightarrow> keep s \<Longrightarrow> stamp k ?v = Some s" for k s
    by (cases k; simp add: stamp_def barrier_after_Some)+
  have "vi_bytes ?v = vi_bytes vi" "vi_max_bytes ?v = vi_max_bytes vi" "history_floor ?v = max (history_floor vi) (oldest - 1)"
    "stamps ?v = stamps vi" by simp_all
  note f = this and r = p(2) [unfolded prune_result_def this]
  have "\<forall>k s. stamp k vi' = Some s \<longrightarrow> stamp k vi = Some s" using r old(1) by blast
  moreover have "\<forall>k s. stamp k vi = Some s \<and> keep s \<longrightarrow> stamp k vi' = Some s" using r old(2) by blast
  ultimately show ?thesis unfolding pruned_def p(1) option.case prod.case using r by blast
qed

text \<open>
  C15. Pruning the version history below a watermark never panics. It raises the reclaimed-history floor to
  the epoch before the watermark, removes no stamp at or above the watermark (and, for the pruning of
  tombstones, no live stamp), changes no stamp it leaves, keeps the index well-formed and never makes it
  heavier. The budget changes by exactly the credit that the index no longer owns, and stays within its
  limit, whether or not the copies of shared pages could be paid for.
\<close>

theorem prune_sound:
  assumes "layout_ok L" "index_ok L vi" "owned (segments (stamps vi)) \<le> hb_used b"
  shows "pruned L (\<lambda>s. oldest \<le> stamp_epoch s) oldest vi b (prune_before L oldest vi b) \<and>
    pruned L (\<lambda>s. stamp_disposition s \<noteq> Tombstone \<or> oldest \<le> stamp_epoch s) oldest vi b (prune_tombstones_before L oldest vi b)"
  unfolding prune_before_def prune_tombstones_before_def Let_def
  by (intro conjI prune_map_pruned [OF assms]) (simp_all add: floor_ok_def)

theorem prune_sound_witness:
  "pruned demo_vlayout (\<lambda>s. 7 \<le> stamp_epoch s) 7 demo_index demo_budget (prune_before demo_vlayout 7 demo_index demo_budget) \<and>
   pruned demo_vlayout (\<lambda>s. stamp_disposition s \<noteq> Tombstone \<or> 7 \<le> stamp_epoch s) 7 demo_index demo_budget
     (prune_tombstones_before demo_vlayout 7 demo_index demo_budget) \<and>
   map_option (\<lambda>(vi, b). (segments (stamps vi), history_floor vi, hb_used b)) (prune_before demo_vlayout 7 demo_index demo_budget) =
     Some ([], 6, 0)"
proof -
  have own: "owned (segments (stamps demo_index)) \<le> hb_used demo_budget"
    by (simp add: demo_index_def demo_page_def demo_budget_def page_owned_def)
  have "map_option (\<lambda>(vi, b). (segments (stamps vi), history_floor vi, hb_used b)) (prune_before demo_vlayout 7 demo_index demo_budget) =
     Some ([], 6, 0)"
    by (simp add: prune_before_def prune_map_def prune_pages_def version_retention_plan_def page_action_def page_epoch_bounds_def
      admitted_weight_def payload_bytes_def entries_payload_def
      retain_version_pages_def release_page_def lease_drop_def charge_index_def recount_bytes_def refund_def demo_index_def demo_page_def
      demo_budget_def demo_vlayout_def u64_max_def usize_max_def Let_def inline_barrier_bytes_def version_stamp_bytes_def barrier_after_def)
  with prune_sound [OF demo_layout_ok demo_index_ok own, of 7] show ?thesis by blast
qed

end
