(* ===== verification/Version_Store.thy ===== *)
theory Version_Store
  imports Version_Prune
begin

text \<open>
  The version side of a store: snapshot pins (\<open>crates/storage/src/version.rs\<close>), snapshots
  (\<open>store.rs\<close>), reclaiming of history (\<open>store/graph_checkpoint.rs\<close>), the validation and the staging
  of a commit (\<open>store/graph_commit.rs\<close>) and the commits of the older mutation paths
  (\<open>store/relational_index_shadow.rs\<close>). The specification side of the theory is a history of commits
  that the code does not keep: the invariants relate the index to it, and every operation is shown to keep them, not to panic, and to account for its credit. The
  interleaving of the operations and the theorems on it are in \<open>Version_Validation\<close>.
\<close>

section \<open>Snapshot pins\<close>

record snapshot_pin =
  pin_epoch :: nat
  registered :: bool

type_synonym snapshot_pins = "(nat, nat) btree"

text \<open>
  The count of an epoch is the number of live pin objects, so it stays far below the range of its type.
  Dropping a pin whose epoch is not registered panics.
\<close>

definition pin :: "nat \<Rightarrow> snapshot_pins \<Rightarrow> snapshot_pin \<times> snapshot_pins" where
  "pin epoch ps =
     (\<lparr> pin_epoch = epoch, registered = True \<rparr>,
      bt_insert cmp_lin epoch ((case bt_get cmp_lin epoch ps of None \<Rightarrow> 0 | Some n \<Rightarrow> n) + 1) ps)"

definition oldest_epoch :: "snapshot_pins \<Rightarrow> nat option" where
  "oldest_epoch ps = (case ps of [] \<Rightarrow> None | (epoch, _) # _ \<Rightarrow> Some epoch)"

definition pin_read_only :: "nat \<Rightarrow> snapshot_pin" where
  "pin_read_only epoch = \<lparr> pin_epoch = epoch, registered = False \<rparr>"

definition drop_pin :: "snapshot_pin \<Rightarrow> snapshot_pins \<Rightarrow> snapshot_pins option" where
  "drop_pin p ps =
     (if \<not> registered p then Some ps
      else case bt_get cmp_lin (pin_epoch p) ps of
        None \<Rightarrow> None
      | Some 0 \<Rightarrow> None
      | Some (Suc n) \<Rightarrow>
          Some (if n = 0 then bt_remove cmp_lin (pin_epoch p) ps else bt_insert cmp_lin (pin_epoch p) n ps))"

section \<open>The store\<close>

text \<open>Pins, budget and the collapse counter are shared by a store and all its snapshots.\<close>

record version_store =
  commit_epoch :: nat
  vs_index :: version_index
  vs_pin :: "snapshot_pin option"

record version_shared =
  pins :: snapshot_pins
  vs_budget :: history_budget
  read_summary_collapses :: nat

datatype store_error =
    EpochOverflow
  | IndexBudgetExhausted
  | HistoryBudgetExhausted
  | TransactionConflict nat nat string
  | NotAccepted

definition snapshot_with_history ::
    "bool \<Rightarrow> version_store \<Rightarrow> version_shared \<Rightarrow> version_store \<times> version_store \<times> version_shared" where
  "snapshot_with_history protect st sh =
     (let epoch = (case vs_pin st of None \<Rightarrow> commit_epoch st | Some p \<Rightarrow> min (pin_epoch p) (commit_epoch st));
          vi = (vs_index st)\<lparr>stamps := cow_clone (stamps (vs_index st))\<rparr>;
          (p, ps) = (if protect then pin epoch (pins sh) else (pin_read_only epoch, pins sh))
      in (st\<lparr>vs_index := vi, vs_pin := Some p\<rparr>, st\<lparr>vs_index := vi\<rparr>, sh\<lparr>pins := ps\<rparr>))"

definition snapshot :: "version_store \<Rightarrow> version_shared \<Rightarrow> version_store \<times> version_store \<times> version_shared" where
  "snapshot = snapshot_with_history True"

text \<open>A read snapshot drops its copy of the index again, so the store's pages are shared no more than before.\<close>

definition snapshot_for_read ::
    "version_layout \<Rightarrow> version_store \<Rightarrow> version_shared \<Rightarrow> version_store \<times> version_store \<times> version_shared" where
  "snapshot_for_read L st sh =
     (let (snap, _, sh') = snapshot_with_history False st sh
      in (snap\<lparr>vs_index := read_baseline L (commit_epoch st) (vs_index st)\<rparr>, st, sh'))"

text \<open>\<open>None\<close> is a panic, here and below.\<close>

definition reclaim_version_history ::
    "version_layout \<Rightarrow> version_store \<Rightarrow> version_shared \<Rightarrow> (version_store \<times> version_shared) option" where
  "reclaim_version_history L st sh =
     (let watermark = (case oldest_epoch (pins sh) of
                         None \<Rightarrow> min (commit_epoch st + 1) u64_max
                       | Some epoch \<Rightarrow> epoch)
      in map_option (\<lambda>(vi, b). (st\<lparr>vs_index := vi\<rparr>, sh\<lparr>vs_budget := b\<rparr>))
           (prune_before L watermark (vs_index st) (vs_budget sh)))"

primrec version_key_kind :: "version_key \<Rightarrow> string" where
  "version_key_kind VDatabase = ''database''"
| "version_key_kind VSchema = ''schema''"
| "version_key_kind VReadBarrier = ''read_barrier''"
| "version_key_kind (VReadNodeDomain _) = ''read_node_domain''"
| "version_key_kind (VReadRelationshipDomain _) = ''read_relationship_domain''"
| "version_key_kind (VReadRelationalTableDomain _) = ''read_relational_table_domain''"
| "version_key_kind (VReadNodeProperty _ _ _) = ''read_node_property''"
| "version_key_kind (VReadRelationalIndexPrefix _ _ _) = ''read_relational_index_prefix''"
| "version_key_kind (VGraphNode _) = ''graph_node''"
| "version_key_kind (VGraphRelationship _) = ''graph_relationship''"
| "version_key_kind (VGraphAdjacency _ _) = ''graph_adjacency''"
| "version_key_kind (VRelationalRow _ _) = ''relational_row''"
| "version_key_kind (VRelationalIndex _ _ _) = ''relational_index''"
| "version_key_kind (VForeignKey _ _) = ''foreign_key''"
| "version_key_kind (VAppendTable _) = ''append_table''"

definition transaction_conflict_error :: "nat \<Rightarrow> version_conflict \<Rightarrow> store_error" where
  "transaction_conflict_error read_epoch c =
     TransactionConflict read_epoch (committed_epoch c) (version_key_kind (conflict_key c))"

fun validate_broad :: "version_store \<Rightarrow> version_write_set \<Rightarrow> nat \<Rightarrow> version_key list \<Rightarrow> store_error + unit" where
  "validate_broad st ws read_epoch [] = Inr ()"
| "validate_broad st ws read_epoch (k # ks) =
     (if ws_contains k ws \<and> read_epoch < commit_epoch st then
        Inl (transaction_conflict_error read_epoch \<lparr> conflict_key = k, committed_epoch = commit_epoch st \<rparr>)
      else case stamp k (vs_index st) of
        None \<Rightarrow> validate_broad st ws read_epoch ks
      | Some s \<Rightarrow>
          if read_epoch < stamp_epoch s then
            Inl (transaction_conflict_error read_epoch \<lparr> conflict_key = k, committed_epoch = stamp_epoch s \<rparr>)
          else validate_broad st ws read_epoch ks)"

definition validate_version_writes :: "version_store \<Rightarrow> version_write_set \<Rightarrow> nat \<Rightarrow> store_error + unit" where
  "validate_version_writes st ws read_epoch =
     (case first_conflict (vs_index st) ws read_epoch of
        Some c \<Rightarrow>
          if history_reclaimed_after (vs_index st) read_epoch then
            Inl (TransactionConflict read_epoch (committed_epoch c) ''reclaimed_history'')
          else Inl (transaction_conflict_error read_epoch c)
      | None \<Rightarrow> validate_broad st ws read_epoch [VDatabase, VSchema])"

text \<open>
  Staging charges pages of the index it starts from; that is the store's own index unless the baseline
  is used.
\<close>

definition stage_version_index ::
    "version_layout \<Rightarrow> version_write_set \<Rightarrow> nat \<Rightarrow> bool \<Rightarrow> version_store \<Rightarrow> version_shared \<Rightarrow>
     (store_error + version_store \<times> version_index \<times> version_shared) option" where
  "stage_version_index L ws epoch barrier st sh =
     (let use_baseline = (case oldest_epoch (pins sh) of None \<Rightarrow> True | Some oldest \<Rightarrow> commit_epoch st \<le> oldest);
          versions = (if use_baseline then read_baseline L (commit_epoch st) (vs_index st) else vs_index st);
          admitted = (if barrier then admits_after_read_summary_collapse L versions ws else admits L versions ws)
      in if \<not> admitted then Some (Inl IndexBudgetExhausted)
         else case (if barrier then stage_with_read_barrier L (vs_budget sh) versions ws epoch
                    else stage L (vs_budget sh) versions ws epoch) of
           Panicked \<Rightarrow> None
         | Refused \<Rightarrow> Some (Inl HistoryBudgetExhausted)
         | Staged self new b \<Rightarrow>
             Some (Inr (if use_baseline then st else st\<lparr>vs_index := self\<rparr>, new, sh\<lparr>vs_budget := b\<rparr>)))"

text \<open>
  The version part of a commit. \<open>fine\<close> is the write set with the read summaries of the commit, absent
  when they do not fit a write set; \<open>accepted\<close> is the outcome of the steps between staging and
  publication (search projection, WAL append, application of the operations). A commit that is not
  accepted drops its staged index; the credit that comes back with it is returned by a later step of
  the index roots, so until then the model counts it as used. The steps before the staging that can
  fail (operations, constraints, live publications) leave the version part as it is.
\<close>

definition next_commit_epoch :: "version_store \<Rightarrow> store_error + nat" where
  "next_commit_epoch st = (if commit_epoch st = u64_max then Inl EpochOverflow else Inr (commit_epoch st + 1))"

definition validate_read_epoch :: "version_store \<Rightarrow> version_write_set \<Rightarrow> nat option \<Rightarrow> store_error + unit" where
  "validate_read_epoch st ws mvcc_read_epoch =
     (case mvcc_read_epoch of None \<Rightarrow> Inr () | Some read_epoch \<Rightarrow> validate_version_writes st ws read_epoch)"

definition stage_fine ::
    "version_layout \<Rightarrow> version_write_set option \<Rightarrow> nat \<Rightarrow> version_store \<Rightarrow> version_shared \<Rightarrow>
     (version_store \<times> version_index \<times> version_shared) option option" where
  "stage_fine L fine epoch st sh =
     (case fine of
        None \<Rightarrow> Some None
      | Some ws \<Rightarrow> map_option (\<lambda>r. case r of Inl _ \<Rightarrow> None | Inr x \<Rightarrow> Some x) (stage_version_index L ws epoch False st sh))"

definition stage_for_commit ::
    "version_layout \<Rightarrow> version_write_set \<Rightarrow> version_write_set option \<Rightarrow> nat \<Rightarrow> version_store \<Rightarrow> version_shared \<Rightarrow>
     (store_error option \<times> version_store \<times> version_index \<times> bool \<times> version_shared) option" where
  "stage_for_commit L ws fine epoch st sh =
     Option.bind (stage_fine L fine epoch st sh) (\<lambda>r.
       case r of
         Some (st1, new, sh1) \<Rightarrow> Some (None, st1, new, False, sh1)
       | None \<Rightarrow>
           Option.bind (reclaim_version_history L st sh) (\<lambda>(st1, sh1).
             Option.bind (stage_fine L fine epoch st1 sh1) (\<lambda>r.
               case r of
                 Some (st2, new, sh2) \<Rightarrow> Some (None, st2, new, False, sh2)
               | None \<Rightarrow>
                   map_option (\<lambda>r.
                     case r of
                       Inl e \<Rightarrow> (Some e, st1, vs_index st1, True, sh1)
                     | Inr (st2, new, sh2) \<Rightarrow> (None, st2, new, True, sh2))
                     (stage_version_index L ws epoch True st1 sh1))))"

definition publish_versions ::
    "nat \<Rightarrow> version_index \<Rightarrow> bool \<Rightarrow> version_store \<Rightarrow> version_shared \<Rightarrow> version_store \<times> version_shared" where
  "publish_versions epoch staged collapsed st sh =
     (st\<lparr>commit_epoch := epoch, vs_index := staged\<rparr>,
      if collapsed then sh\<lparr>read_summary_collapses := min (read_summary_collapses sh + 1) u64_max\<rparr> else sh)"

definition commit_versions ::
    "version_layout \<Rightarrow> version_write_set \<Rightarrow> version_write_set option \<Rightarrow> nat option \<Rightarrow> bool \<Rightarrow> version_store \<Rightarrow> version_shared \<Rightarrow>
     (store_error option \<times> version_store \<times> version_shared) option" where
  "commit_versions L ws fine read_epoch accepted st sh =
     (case next_commit_epoch st of
        Inl e \<Rightarrow> Some (Some e, st, sh)
      | Inr epoch \<Rightarrow>
          (case validate_read_epoch st ws read_epoch of
             Inl e \<Rightarrow> Some (Some e, st, sh)
           | Inr _ \<Rightarrow>
               map_option (\<lambda>(err, st1, new, collapsed, sh1).
                 case err of
                   Some e \<Rightarrow> (Some e, st1, sh1)
                 | None \<Rightarrow>
                     if \<not> accepted then (Some NotAccepted, st1, sh1)
                     else (None, publish_versions epoch new collapsed st1 sh1))
                 (stage_for_commit L ws fine epoch st sh)))"

text \<open>The older mutation paths; the sum overflows only at the end of the epoch range.\<close>

definition finish_non_relational_commit :: "version_layout \<Rightarrow> version_store \<Rightarrow> version_store option" where
  "finish_non_relational_commit L st =
     (if commit_epoch st = u64_max then None
      else Some (st\<lparr>commit_epoch := commit_epoch st + 1,
                    vs_index := apply_database_barrier L (commit_epoch st + 1) (vs_index st)\<rparr>))"

section \<open>Pins\<close>

definition pins_ok :: "snapshot_pins \<Rightarrow> bool" where
  "pins_ok ps \<longleftrightarrow> bt_sorted cmp_lin ps \<and> (\<forall>e \<in> set ps. 0 < snd e)"

definition pinned :: "nat \<Rightarrow> snapshot_pins \<Rightarrow> bool" where
  "pinned epoch ps \<longleftrightarrow> bt_get cmp_lin epoch ps \<noteq> None"

lemma pinned_iff: "pinned epoch ps \<longleftrightarrow> epoch \<in> fst ` set ps"
  by (induction ps) (auto simp: pinned_def cmp_lin_def split: if_splits)

lemma oldest_epoch_le:
  assumes "pins_ok ps" "pinned epoch ps"
  obtains oldest where "oldest_epoch ps = Some oldest" "oldest \<le> epoch"
proof (cases ps)
  case (Cons e rest)
  with assms have "fst e \<le> epoch"
    by (auto simp: pins_ok_def pinned_iff cmp_lin_def split: if_splits)
  with Cons that show ?thesis by (cases e) (simp add: oldest_epoch_def)
qed (use assms in \<open>simp add: pinned_def\<close>)

lemma oldest_epoch_pinned: "oldest_epoch ps = Some oldest \<Longrightarrow> pinned oldest ps"
  by (cases ps) (auto simp: oldest_epoch_def pinned_iff split: list.splits)

lemma values_bt_insert: "e \<in> set (bt_insert c k v m) \<Longrightarrow> snd e = v \<or> e \<in> set m"
  by (induction m) (auto split: ordering.splits)

lemma pin_ok: "pins_ok ps \<Longrightarrow> pins_ok (snd (pin epoch ps))"
  unfolding pin_def pins_ok_def by (auto simp: lin_ord.bt_sorted_insert dest: values_bt_insert)

lemma pin_pinned: "pinned e (snd (pin epoch ps)) \<longleftrightarrow> e = epoch \<or> pinned e ps"
  by (simp add: pin_def pinned_iff keys_bt_insert_lin)

lemma drop_pin_ok: "pins_ok ps \<Longrightarrow> drop_pin p ps = Some ps' \<Longrightarrow> pins_ok ps'"
  unfolding drop_pin_def pins_ok_def
  by (auto simp: lin_ord.bt_sorted_insert lin_ord.bt_sorted_remove split: if_splits option.splits nat.splits
    dest: values_bt_insert set_bt_remove_subset [THEN subsetD])

lemma drop_pin_pinned:
  assumes "drop_pin p ps = Some ps'" "pinned e ps'"
  shows "pinned e ps"
proof -
  consider "ps' = ps" | "ps' = bt_remove cmp_lin (pin_epoch p) ps"
    | n where "ps' = bt_insert cmp_lin (pin_epoch p) n ps" "pinned (pin_epoch p) ps"
    using assms(1) by (auto simp: drop_pin_def pinned_def split: if_splits option.splits nat.splits)
  then show ?thesis
  proof cases
    case 2
    with assms(2) show ?thesis using set_bt_remove_subset [of cmp_lin "pin_epoch p" ps] by (auto simp: pinned_iff)
  next
    case 3
    with assms(2) show ?thesis by (auto simp: pinned_iff keys_bt_insert_lin)
  qed (use assms in simp)
qed

section \<open>Staging from the store\<close>

lemma baseline_facts:
  assumes "layout_ok L" "vi_max_bytes vi \<le> usize_max"
  shows "index_ok L (read_baseline L c vi)" "history_floor (read_baseline L c vi) = c"
    "stamp k (read_baseline L c vi) =
       (if k = VDatabase \<and> 0 < c then Some \<lparr> stamp_epoch = c, stamp_disposition = Live \<rparr> else None)"
    "segments (stamps (read_baseline L c vi)) = []" "vi_max_bytes (read_baseline L c vi) = vi_max_bytes vi"
proof -
  show "index_ok L (read_baseline L c vi)"
    using assms inline_pos [OF assms(1)]
    by (simp add: read_baseline_def Let_def apply_database_barrier_def insert_stamp_def index_ok_def stamps_ok_def cow_ok_def cow_iter_def cow_empty_def)
  show "stamp k (read_baseline L c vi) =
       (if k = VDatabase \<and> 0 < c then Some \<lparr> stamp_epoch = c, stamp_disposition = Live \<rparr> else None)"
    by (cases k) (simp_all add: read_baseline_def Let_def apply_database_barrier_def insert_stamp_def stamp_def cow_get_def segment_index_def cow_empty_def)
qed (simp_all add: read_baseline_def Let_def apply_database_barrier_def insert_stamp_def cow_empty_def)

text \<open>The credit of a staged index was granted, so returning it never exceeds what is in use.\<close>

lemma owned_fresh:
  "\<forall>p \<in> set ps. history_lease p = None \<or> page_shared p \<Longrightarrow> owned (map (charged_page L) ps) \<le> uncharged (version_weight L) ps"
  by (induction ps) (auto simp: page_owned_def page_uncharged_def charged_page_def split: option.splits)

lemma owned_charged_le: "owned (map (charged_page L) ps) \<le> owned ps + uncharged (version_weight L) ps"
  by (induction ps) (auto simp: page_owned_def page_uncharged_def charged_page_def split: option.splits)

lemma owned_shared: "\<forall>p \<in> set ps. page_shared p \<Longrightarrow> owned ps = 0"
  by (induction ps) (auto simp: page_owned_def)

lemma stage_owned:
  assumes ok: "layout_ok L" "index_ok L vi" "bt_sorted version_key_cmp (writes ws)" and st: "stage L b vi ws epoch = Staged self new b'"
  shows "owned (segments (stamps self)) \<le> hb_used b'" "owned (segments (stamps new)) \<le> hb_used b'"
proof -
  let ?st = "apply_prepared L ws epoch (shared_index L vi)"
  from st stage_eq [OF ok, of b epoch]
  have fit: "vi_bytes vi + new_bytes L (stamps vi) (map fst (writes ws)) \<le> vi_max_bytes vi"
    and eqs: "self = shared_index L vi" "new = map_pages (charged_page L) ?st"
      "b' = b\<lparr>hb_used := hb_used b + stage_credit L vi (map fst (writes ws))\<rparr>"
    by (auto split: if_splits)
  have room: "vi_bytes vi + new_bytes L (stamps vi) (map fst (writes ws)) \<le> usize_max"
    using fit ok(2) by (simp add: index_ok_def)
  note shared = shared_index_facts(5) [OF ok(2)]
  show "owned (segments (stamps self)) \<le> hb_used b'"
    using shared owned_shared [of "segments (stamps self)"] unfolding eqs(1) by simp
  have "\<forall>p \<in> set (segments (stamps ?st)). history_lease p = None \<or> page_shared p"
    using staged_pages_fresh [OF ok room] shared by blast
  from owned_fresh [OF this, of L] show "owned (segments (stamps new)) \<le> hb_used b'"
    using staged_uncharged [OF ok room, of epoch] by (simp add: eqs stage_credit_def)
qed

lemma barrier_owned:
  assumes ok: "layout_ok L" "index_ok L vi" "bt_sorted version_key_cmp (writes ws)"
    and narrow: "\<forall>k \<in> set (map fst (writes ws)). \<not> is_read_summary_key k"
    and st: "stage_with_read_barrier L b vi ws epoch = Staged self new b'" and own: "owned (segments (stamps vi)) \<le> hb_used b"
  shows "owned (segments (stamps self)) \<le> hb_used b'" "owned (segments (stamps new)) \<le> hb_used b'"
proof -
  let ?ks = "map fst (writes ws)" and ?sv = "map_pages (charged_page L) vi"
  let ?cc = "collapsed_commit L ws epoch ?sv"
  from st barrier_stage_eq [OF ok narrow, of b epoch]
  have adm: "admits_after_read_summary_collapse L vi ws"
    and eqs: "self = ?sv" "new = insert_stamp L VReadBarrier \<lparr> stamp_epoch = epoch, stamp_disposition = Live \<rparr> (map_pages (charged_page L) ?cc)"
      "b' = b\<lparr>hb_used := hb_used b + barrier_credit L vi ?ks\<rparr>"
    by (auto split: if_splits)
  have sok: "stamps_ok L vi" and mx: "vi_max_bytes vi \<le> usize_max" using ok(2) by (simp_all add: index_ok_def)
  show "owned (segments (stamps self)) \<le> hb_used b'"
    using owned_charged_le [of L "segments (stamps vi)"] own by (simp add: eqs barrier_credit_def)
  have room: "inline_barrier_bytes L + vpayload L (retained ?sv) + new_bytes L (stamps ?sv) ?ks \<le> usize_max"
    using adm collapsed_write_bytes_spec [OF ok(1) sok mx, of ws] mx
    by (auto simp: admits_after_read_summary_collapse_def charged_facts Let_def split: if_splits)
  have sv: "stamps_ok L ?sv" using sok by (simp add: charged_facts)
  note cc = collapsed_commit_facts [OF ok(1) sv ok(3) narrow room, where epoch = epoch]
  have "\<forall>p \<in> set (segments (stamps ?cc)). history_lease p = None \<or> page_shared p" using cc(2) by (simp add: fresh_pages_def)
  from owned_fresh [OF this, of L] show "owned (segments (stamps new)) \<le> hb_used b'"
    by (simp add: eqs insert_stamp_def cc(7) charged_facts barrier_credit_def)
qed

text \<open>What a staged index holds, in terms of the index it was staged from.\<close>

definition staged_from :: "bool \<Rightarrow> version_write_set \<Rightarrow> nat \<Rightarrow> version_index \<Rightarrow> version_index \<Rightarrow> bool" where
  "staged_from barrier ws epoch v new \<longleftrightarrow>
     history_floor new = history_floor v \<and>
     (\<forall>k. stamp k new =
        (if barrier \<and> k = VReadBarrier then Some \<lparr> stamp_epoch = epoch, stamp_disposition = Live \<rparr>
         else case bt_get version_key_cmp k (writes ws) of
           Some d \<Rightarrow> Some \<lparr> stamp_epoch = epoch, stamp_disposition = d \<rparr>
         | None \<Rightarrow> if barrier \<and> is_read_summary_key k then None else stamp k v))"

definition same_stamps :: "version_index \<Rightarrow> version_index \<Rightarrow> bool" where
  "same_stamps v v' \<longleftrightarrow> history_floor v' = history_floor v \<and> (\<forall>k. stamp k v' = stamp k v)"

definition budget_ok :: "version_index \<Rightarrow> history_budget \<Rightarrow> bool" where
  "budget_ok vi b \<longleftrightarrow> owned (segments (stamps vi)) \<le> hb_used b \<and> hb_used b \<le> hb_limit b"

definition stage_any :: "bool \<Rightarrow> version_layout \<Rightarrow> history_budget \<Rightarrow> version_index \<Rightarrow> version_write_set \<Rightarrow> nat \<Rightarrow> staging" where
  "stage_any barrier L b vi ws epoch = (if barrier then stage_with_read_barrier L b vi ws epoch else stage L b vi ws epoch)"

lemma stage_any_spec:
  assumes ok: "layout_ok L" "index_ok L vi" "bt_sorted version_key_cmp (writes ws)" and b: "budget_ok vi b"
    and narrow: "barrier \<longrightarrow> (\<forall>k \<in> set (map fst (writes ws)). \<not> is_read_summary_key k)"
  shows "case stage_any barrier L b vi ws epoch of
      Panicked \<Rightarrow> False
    | Refused \<Rightarrow> True
    | Staged self new b' \<Rightarrow> index_ok L self \<and> index_ok L new \<and> same_stamps vi self \<and> staged_from barrier ws epoch vi new \<and>
        budget_ok self b' \<and> budget_ok new b' \<and> hb_used b \<le> hb_used b' \<and> hb_limit b' = hb_limit b"
proof (cases barrier)
  case True
  with narrow have n: "\<forall>k \<in> set (map fst (writes ws)). \<not> is_read_summary_key k" by blast
  have used: "owned (segments (stamps vi)) \<le> hb_used b" "hb_used b \<le> hb_limit b" using b by (simp_all add: budget_ok_def)
  show ?thesis
  proof (cases "stage_with_read_barrier L b vi ws epoch")
    case (Staged self new b')
    note r = barrier_result [OF ok used(2) n Staged] and o = barrier_owned [OF ok n Staged used(1)]
    have "history_floor self = history_floor vi"
      using Staged barrier_stage_eq [OF ok n, of b epoch] by (auto split: if_splits)
    then have "same_stamps vi self" using r by (simp add: same_stamps_def)
    moreover have "staged_from barrier ws epoch vi new" using r True by (auto simp: staged_from_def split: option.split)
    ultimately show ?thesis using r o True Staged by (simp add: stage_any_def budget_ok_def)
  qed (use True barrier_stage_eq [OF ok n, of b epoch] in \<open>auto simp: stage_any_def split: if_splits\<close>)
next
  case False
  have used: "hb_used b \<le> hb_limit b" using b by (simp add: budget_ok_def)
  show ?thesis
  proof (cases "stage L b vi ws epoch")
    case (Staged self new b')
    note r = stage_result [OF ok used Staged] and o = stage_owned [OF ok Staged]
    have "same_stamps vi self" "staged_from barrier ws epoch vi new"
      using r False by (auto simp: same_stamps_def staged_from_def split: option.split)
    then show ?thesis using r o False Staged by (simp add: stage_any_def budget_ok_def)
  qed (use False stage_eq [OF ok, of b epoch] in \<open>auto simp: stage_any_def split: if_splits\<close>)
qed

definition store_ok :: "version_layout \<Rightarrow> version_store \<Rightarrow> version_shared \<Rightarrow> bool" where
  "store_ok L st sh \<longleftrightarrow> layout_ok L \<and> index_ok L (vs_index st) \<and> budget_ok (vs_index st) (vs_budget sh) \<and> pins_ok (pins sh)"

text \<open>The index that a commit is staged from.\<close>

definition versions_of :: "version_layout \<Rightarrow> version_store \<Rightarrow> version_shared \<Rightarrow> version_index" where
  "versions_of L st sh =
     (if (case oldest_epoch (pins sh) of None \<Rightarrow> True | Some oldest \<Rightarrow> commit_epoch st \<le> oldest)
      then read_baseline L (commit_epoch st) (vs_index st) else vs_index st)"

lemma stage_version_index_spec:
  assumes ok: "store_ok L st sh" and ws: "bt_sorted version_key_cmp (writes ws)"
    "barrier \<longrightarrow> (\<forall>k \<in> set (map fst (writes ws)). \<not> is_read_summary_key k)"
  shows "case stage_version_index L ws epoch barrier st sh of
      None \<Rightarrow> False
    | Some (Inl e) \<Rightarrow> e = IndexBudgetExhausted \<or> e = HistoryBudgetExhausted
    | Some (Inr (st1, new, sh1)) \<Rightarrow>
        store_ok L st1 sh1 \<and> index_ok L new \<and> budget_ok new (vs_budget sh1) \<and> staged_from barrier ws epoch (versions_of L st sh) new \<and>
        same_stamps (vs_index st) (vs_index st1) \<and> commit_epoch st1 = commit_epoch st \<and> vs_pin st1 = vs_pin st \<and> pins sh1 = pins sh"
proof -
  define base where "base = (case oldest_epoch (pins sh) of None \<Rightarrow> True | Some oldest \<Rightarrow> commit_epoch st \<le> oldest)"
  let ?v = "versions_of L st sh"
  have L: "layout_ok L" and io: "index_ok L (vs_index st)" and bo: "budget_ok (vs_index st) (vs_budget sh)" and po: "pins_ok (pins sh)"
    using ok by (simp_all add: store_ok_def)
  have mx: "vi_max_bytes (vs_index st) \<le> usize_max" using io by (simp add: index_ok_def)
  note bf = baseline_facts [OF L mx, where c = "commit_epoch st"]
  have v: "?v = (if base then read_baseline L (commit_epoch st) (vs_index st) else vs_index st)"
    by (simp add: versions_of_def base_def)
  have vok: "index_ok L ?v" "budget_ok ?v (vs_budget sh)"
    using bf(1,4) io bo by (simp_all add: v budget_ok_def)
  note spec = stage_any_spec [OF L vok(1) ws(1) vok(2) ws(2), of epoch]
  have unf: "stage_version_index L ws epoch barrier st sh =
    (if \<not> (if barrier then admits_after_read_summary_collapse L ?v ws else admits L ?v ws) then Some (Inl IndexBudgetExhausted)
     else case stage_any barrier L (vs_budget sh) ?v ws epoch of
        Panicked \<Rightarrow> None | Refused \<Rightarrow> Some (Inl HistoryBudgetExhausted)
      | Staged self new b \<Rightarrow> Some (Inr (if base then st else st\<lparr>vs_index := self\<rparr>, new, sh\<lparr>vs_budget := b\<rparr>)))"
    unfolding stage_version_index_def Let_def v stage_any_def base_def ..
  show ?thesis
  proof (cases "stage_any barrier L (vs_budget sh) ?v ws epoch")
    case (Staged self new b)
    with spec have r: "index_ok L self" "index_ok L new" "same_stamps ?v self" "staged_from barrier ws epoch ?v new"
      "budget_ok self b" "budget_ok new b" "hb_used (vs_budget sh) \<le> hb_used b" by simp_all
    show ?thesis
    proof (cases base)
      case True
      have "budget_ok (vs_index st) b" using bo r(6,7) by (simp add: budget_ok_def)
      with True unf Staged r L po io show ?thesis by (simp add: store_ok_def same_stamps_def)
    next
      case False
      with unf Staged r L po show ?thesis by (simp add: v store_ok_def)
    qed
  qed (use unf spec in \<open>auto split: if_splits\<close>)
qed

section \<open>The history of commits\<close>

text \<open>
  A commit is recorded with its epoch, the identities it stamped (its write set, with the read summaries
  that fitted) and whether its read summaries did not fit. It changes what an identity stands for when it
  stamped that identity; a read summary also when the commit had to be taken as touching all of them.
\<close>

type_synonym commit_entry = "nat \<times> version_key list \<times> bool"

definition wrote :: "version_key list \<Rightarrow> version_key \<Rightarrow> bool" where
  "wrote ks k \<longleftrightarrow> (\<exists>k' \<in> set ks. version_key_cmp k k' = Equal)"

definition plain :: "version_key \<Rightarrow> bool" where
  "plain k \<longleftrightarrow> \<not> is_read_summary_key k \<and> k \<noteq> VReadBarrier"

definition invalidates :: "commit_entry \<Rightarrow> version_key \<Rightarrow> bool" where
  "invalidates en k \<longleftrightarrow>
     (case en of (_, ks, broad) \<Rightarrow> wrote ks k \<or> is_read_summary_key k \<and> (broad \<or> wrote ks VReadBarrier))"

definition covered :: "version_key \<Rightarrow> nat \<Rightarrow> version_index \<Rightarrow> bool" where
  "covered k e vi \<longleftrightarrow>
     e \<le> history_floor vi \<or> (\<exists>s. stamp k vi = Some s \<and> e \<le> stamp_epoch s) \<or>
     is_read_summary_key k \<and> (\<exists>s. stamp VReadBarrier vi = Some s \<and> e \<le> stamp_epoch s)"

definition history_ok :: "commit_entry list \<Rightarrow> nat \<Rightarrow> version_index \<Rightarrow> bool" where
  "history_ok h c vi \<longleftrightarrow>
     history_floor vi \<le> c \<and> (\<forall>en \<in> set h. fst en \<le> c) \<and>
     (\<forall>en \<in> set h. \<forall>k. k \<noteq> VReadBarrier \<and> invalidates en k \<longrightarrow> covered k (fst en) vi) \<and>
     (\<forall>k s. plain k \<and> stamp k vi = Some s \<longrightarrow>
        stamp_epoch s \<le> history_floor vi \<or> (\<exists>en \<in> set h. fst en = stamp_epoch s \<and> wrote (fst (snd en)) k))"

lemma history_okI:
  assumes "history_floor vi \<le> c" "\<And>en. en \<in> set h \<Longrightarrow> fst en \<le> c"
    "\<And>en k. en \<in> set h \<Longrightarrow> k \<noteq> VReadBarrier \<Longrightarrow> invalidates en k \<Longrightarrow> covered k (fst en) vi"
    "\<And>k s. plain k \<Longrightarrow> stamp k vi = Some s \<Longrightarrow>
       stamp_epoch s \<le> history_floor vi \<or> (\<exists>en \<in> set h. fst en = stamp_epoch s \<and> wrote (fst (snd en)) k)"
  shows "history_ok h c vi"
  using assms unfolding history_ok_def by simp

lemma history_okD:
  assumes "history_ok h c vi"
  shows "history_floor vi \<le> c" "en \<in> set h \<Longrightarrow> fst en \<le> c"
    "en \<in> set h \<Longrightarrow> k \<noteq> VReadBarrier \<Longrightarrow> invalidates en k \<Longrightarrow> covered k (fst en) vi"
    "plain k \<Longrightarrow> stamp k vi = Some s \<Longrightarrow>
       stamp_epoch s \<le> history_floor vi \<or> (\<exists>en \<in> set h. fst en = stamp_epoch s \<and> wrote (fst (snd en)) k)"
  using assms unfolding history_ok_def by simp_all

lemma wrote_keys: "wrote (map fst m) k \<longleftrightarrow> bt_get version_key_cmp k m \<noteq> None"
  by (induction m) (auto simp: wrote_def)

lemma covered_mono:
  assumes "covered k e v" "history_floor v \<le> history_floor v'"
    "\<And>k' s. k' = k \<or> is_read_summary_key k \<and> k' = VReadBarrier \<Longrightarrow> stamp k' v = Some s \<Longrightarrow> e \<le> stamp_epoch s \<Longrightarrow> covered k e v'"
  shows "covered k e v'"
proof -
  consider "e \<le> history_floor v" | s where "stamp k v = Some s" "e \<le> stamp_epoch s"
    | s where "is_read_summary_key k" "stamp VReadBarrier v = Some s" "e \<le> stamp_epoch s"
    using assms(1) unfolding covered_def by blast
  then show ?thesis
  proof cases
    case 1
    with assms(2) show ?thesis unfolding covered_def by linarith
  qed (use assms(3) in blast)+
qed

lemma history_same: "same_stamps v v' \<Longrightarrow> history_ok h c v \<Longrightarrow> history_ok h c v'"
  by (simp add: history_ok_def same_stamps_def covered_def)

lemma history_baseline:
  assumes "layout_ok L" "vi_max_bytes vi \<le> usize_max" "history_ok h c vi"
  shows "history_ok h c (read_baseline L c vi)"
proof -
  let ?v = "read_baseline L c vi"
  note f = baseline_facts [OF assms(1,2), where c = c]
  have cov: "covered k (fst en) ?v" if "en \<in> set h" for en k
    using history_okD(2) [OF assms(3) that] by (simp add: covered_def f(2))
  have st: "stamp_epoch s \<le> c" if "stamp k ?v = Some s" for k s
    using that unfolding f(3) by (auto split: if_splits)
  show ?thesis by (rule history_okI) (simp_all add: f(2) history_okD(2) [OF assms(3)] cov, blast dest: st)
qed

lemma history_prune:
  assumes h: "history_ok h c vi" and p: "pruned L (\<lambda>s. w \<le> stamp_epoch s) w vi b (Some (vi', b'))" and w: "w \<le> c + 1"
  shows "history_ok h c vi'"
proof -
  have fl: "history_floor vi' = max (history_floor vi) (w - 1)"
    and sub: "\<And>k s. stamp k vi' = Some s \<Longrightarrow> stamp k vi = Some s"
    and keep: "\<And>k s. stamp k vi = Some s \<Longrightarrow> w \<le> stamp_epoch s \<Longrightarrow> stamp k vi' = Some s"
    using p unfolding pruned_def option.case prod.case by blast+
  have cov: "covered k e vi'" if "covered k e vi" for k e
  proof (rule covered_mono [OF that])
    show "covered k e vi'" if "k' = k \<or> is_read_summary_key k \<and> k' = VReadBarrier" "stamp k' vi = Some s" "e \<le> stamp_epoch s" for k' s
    proof (cases "w \<le> stamp_epoch s")
      case True
      with keep [OF that(2)] that show ?thesis by (auto simp: covered_def)
    next
      case False
      with that(3) fl show ?thesis by (auto simp: covered_def)
    qed
  qed (simp add: fl)
  show ?thesis
  proof (rule history_okI)
    show "history_floor vi' \<le> c" using history_okD(1) [OF h] w fl by simp
    show "stamp_epoch s \<le> history_floor vi' \<or> (\<exists>en \<in> set h. fst en = stamp_epoch s \<and> wrote (fst (snd en)) k)"
      if "plain k" "stamp k vi' = Some s" for k s
      using history_okD(4) [OF h that(1) sub [OF that(2)]] fl by auto
  qed (use history_okD(2,3) [OF h] cov in blast)+
qed

lemma history_stage:
  assumes h: "history_ok h c v" and st: "staged_from barrier ws (Suc c) v new"
    and ks: "\<And>k. plain k \<Longrightarrow> wrote ks k \<longleftrightarrow> bt_get version_key_cmp k (writes ws) \<noteq> None"
    and fine: "\<not> barrier \<Longrightarrow> ks = map fst (writes ws) \<and> \<not> broad"
  shows "history_ok ((Suc c, ks, broad) # h) (Suc c) new"
proof -
  have fl: "history_floor new = history_floor v" using st by (simp add: staged_from_def)
  have stamp_new: "stamp k new = (if barrier \<and> k = VReadBarrier then Some \<lparr> stamp_epoch = Suc c, stamp_disposition = Live \<rparr>
      else case bt_get version_key_cmp k (writes ws) of Some d \<Rightarrow> Some \<lparr> stamp_epoch = Suc c, stamp_disposition = d \<rparr>
      | None \<Rightarrow> if barrier \<and> is_read_summary_key k then None else stamp k v)" for k
    using st by (simp add: staged_from_def)
  have old: "covered k e new" if "covered k e v" "e \<le> c" for k e
  proof (rule covered_mono [OF that(1)])
    show "covered k e new" if k': "k' = k \<or> is_read_summary_key k \<and> k' = VReadBarrier" "stamp k' v = Some s" "e \<le> stamp_epoch s" for k' s
      using k' \<open>e \<le> c\<close> stamp_new [of k'] stamp_new [of VReadBarrier] by (auto simp: covered_def split: option.splits if_splits)
  qed (simp add: fl)
  have "covered k (Suc c) new" if "k \<noteq> VReadBarrier" "invalidates (Suc c, ks, broad) k" for k
  proof (cases barrier)
    case True
    then show ?thesis
      using that ks [of k] stamp_new [of k] stamp_new [of VReadBarrier] by (auto simp: covered_def invalidates_def plain_def split: option.splits)
  next
    case False
    then show ?thesis
      using that fine stamp_new [of k] stamp_new [of VReadBarrier] by (auto simp: covered_def invalidates_def wrote_keys)
  qed
  note cov = this
  have src: "stamp_epoch s \<le> history_floor new \<or> (\<exists>en \<in> set ((Suc c, ks, broad) # h). fst en = stamp_epoch s \<and> wrote (fst (snd en)) k)"
    if "plain k" "stamp k new = Some s" for k s
  proof (cases "bt_get version_key_cmp k (writes ws)")
    case None
    with that stamp_new [of k] have "stamp k v = Some s" by (auto simp: plain_def split: if_splits)
    from history_okD(4) [OF h that(1) this] show ?thesis by (auto simp: fl)
  next
    case (Some d)
    with that stamp_new [of k] have "stamp_epoch s = Suc c" by (auto simp: plain_def)
    with ks [OF that(1)] Some show ?thesis by auto
  qed
  show ?thesis
  proof (rule history_okI)
    show "history_floor new \<le> Suc c" using history_okD(1) [OF h] fl by simp
    show "fst en \<le> Suc c" if "en \<in> set ((Suc c, ks, broad) # h)" for en 
      using that by (auto dest: history_okD(2) [OF h])
    show "covered k (fst en) new" if "en \<in> set ((Suc c, ks, broad) # h)" "k \<noteq> VReadBarrier" "invalidates en k" for en k
    proof (cases "en = (Suc c, ks, broad)")
      case False
      with that(1) have "en \<in> set h" by simp
      from old [OF history_okD(3) [OF h this that(2,3)] history_okD(2) [OF h this]] show ?thesis .
    qed (use that cov [of k] in simp)
  qed (rule src)
qed

lemma history_legacy:
  assumes "history_ok h c vi"
  shows "history_ok ((Suc c, [VDatabase], False) # h) (Suc c) (apply_database_barrier L (Suc c) vi)"
proof (rule history_stage [OF assms, of False "\<lparr> writes = [(VDatabase, Live)], ws_max_entries = 1, ws_max_bytes = 0, ws_bytes = 0 \<rparr>"])
  show "staged_from False \<lparr> writes = [(VDatabase, Live)], ws_max_entries = 1, ws_max_bytes = 0, ws_bytes = 0 \<rparr> (Suc c) vi
      (apply_database_barrier L (Suc c) vi)"
    using barrier_Equal(1) by (auto simp: staged_from_def apply_database_barrier_def insert_stamp_def stamp_def split: version_key.split)
qed (simp_all add: wrote_def barrier_Equal)

section \<open>Commits\<close>

text \<open>
  What a commit is given: the identities its transaction writes, and the same with read summaries and
  the read barrier added.
\<close>

definition commit_inputs :: "version_write_set \<Rightarrow> version_write_set option \<Rightarrow> bool" where
  "commit_inputs ws fine \<longleftrightarrow>
     bt_sorted version_key_cmp (writes ws) \<and> list_all plain (map fst (writes ws)) \<and>
     (case fine of
        None \<Rightarrow> True
      | Some w \<Rightarrow> bt_sorted version_key_cmp (writes w) \<and>
          (\<forall>k. plain k \<longrightarrow> bt_get version_key_cmp k (writes w) = bt_get version_key_cmp k (writes ws)))"

definition commit_entry_of :: "nat \<Rightarrow> version_write_set \<Rightarrow> version_write_set option \<Rightarrow> commit_entry" where
  "commit_entry_of epoch ws fine =
     (epoch, map fst (writes (case fine of None \<Rightarrow> ws | Some w \<Rightarrow> w)), fine = None)"

definition store_inv :: "version_layout \<Rightarrow> version_store \<Rightarrow> version_shared \<Rightarrow> commit_entry list \<Rightarrow> bool" where
  "store_inv L st sh h \<longleftrightarrow>
     store_ok L st sh \<and> history_ok h (commit_epoch st) (vs_index st) \<and> commit_epoch st \<le> u64_max \<and>
     (\<forall>e. pinned e (pins sh) \<longrightarrow> e \<le> commit_epoch st)"

text \<open>The floor never crosses an epoch that is pinned.\<close>

definition protects :: "snapshot_pins \<Rightarrow> version_index \<Rightarrow> version_index \<Rightarrow> bool" where
  "protects ps v v' \<longleftrightarrow> (\<forall>e. pinned e ps \<and> history_floor v \<le> e \<longrightarrow> history_floor v' \<le> e)"

lemma protects_refl: "history_floor v' = history_floor v \<Longrightarrow> protects ps v v'"
  by (simp add: protects_def)

lemma protects_trans: "protects ps u v \<Longrightarrow> protects ps v w \<Longrightarrow> protects ps u w"
  by (simp add: protects_def)

lemma store_invD:
  assumes "store_inv L st sh h"
  shows "layout_ok L" "index_ok L (vs_index st)" "budget_ok (vs_index st) (vs_budget sh)" "pins_ok (pins sh)" "store_ok L st sh"
    "history_ok h (commit_epoch st) (vs_index st)" "pinned e (pins sh) \<Longrightarrow> e \<le> commit_epoch st"
  using assms by (simp_all add: store_inv_def store_ok_def)

lemma versions_of_ok:
  assumes "store_inv L st sh h"
  shows "history_ok h (commit_epoch st) (versions_of L st sh)" "protects (pins sh) (vs_index st) (versions_of L st sh)"
proof -
  note D = store_invD [OF assms]
  have mx: "vi_max_bytes (vs_index st) \<le> usize_max" using D(2) by (simp add: index_ok_def)
  show "history_ok h (commit_epoch st) (versions_of L st sh)"
    using D(6) history_baseline [OF D(1) mx D(6)] by (simp add: versions_of_def)
  show "protects (pins sh) (vs_index st) (versions_of L st sh)"
    unfolding protects_def
  proof (intro allI impI)
    fix e assume e: "pinned e (pins sh) \<and> history_floor (vs_index st) \<le> e"
    then obtain oldest where "oldest_epoch (pins sh) = Some oldest" "oldest \<le> e" using oldest_epoch_le [OF D(4)] by blast
    with e show "history_floor (versions_of L st sh) \<le> e"
      using baseline_facts(2) [OF D(1) mx] by (simp add: versions_of_def)
  qed
qed

text \<open>
  What reclaiming below a watermark may do to an index, and nothing else: the index is as it was, or
  the floor went up to just below the watermark and stamps below the watermark are gone. Every
  stamp left is an old one.
\<close>

definition reclaim_watermark :: "version_store \<Rightarrow> version_shared \<Rightarrow> nat" where
  "reclaim_watermark st sh =
     (case oldest_epoch (pins sh) of None \<Rightarrow> min (commit_epoch st + 1) u64_max | Some epoch \<Rightarrow> epoch)"

definition only_reclaimed :: "nat \<Rightarrow> version_index \<Rightarrow> version_index \<Rightarrow> bool" where
  "only_reclaimed w v v' \<longleftrightarrow>
     same_stamps v v' \<or>
     history_floor v' = max (history_floor v) (w - 1) \<and>
     (\<forall>k s. stamp k v' = Some s \<longrightarrow> stamp k v = Some s) \<and>
     (\<forall>k s. stamp k v = Some s \<and> w \<le> stamp_epoch s \<longrightarrow> stamp k v' = Some s)"

lemma only_reclaimed_same: "same_stamps v v' \<Longrightarrow> only_reclaimed w v v'"
  by (simp add: only_reclaimed_def)

lemma only_reclaimed_trans:
  assumes "only_reclaimed w u v" "only_reclaimed w v x"
  shows "only_reclaimed w u x"
proof (cases "same_stamps u v")
  case True
  then have eqs: "history_floor v = history_floor u" "stamp k v = stamp k u" for k by (simp_all add: same_stamps_def)
  from assms(2) show ?thesis unfolding only_reclaimed_def same_stamps_def eqs .
next
  case False
  with assms(1) have A: "history_floor v = max (history_floor u) (w - 1)" "\<forall>k s. stamp k v = Some s \<longrightarrow> stamp k u = Some s"
    "\<forall>k s. stamp k u = Some s \<and> w \<le> stamp_epoch s \<longrightarrow> stamp k v = Some s"
    unfolding only_reclaimed_def by blast+
  show ?thesis
  proof (cases "same_stamps v x")
    case True
    then have eqs: "history_floor x = history_floor v" "stamp k x = stamp k v" for k by (simp_all add: same_stamps_def)
    from A show ?thesis unfolding only_reclaimed_def eqs by blast
  next
    case False
    with assms(2) have B: "history_floor x = max (history_floor v) (w - 1)" "\<forall>k s. stamp k x = Some s \<longrightarrow> stamp k v = Some s"
      "\<forall>k s. stamp k v = Some s \<and> w \<le> stamp_epoch s \<longrightarrow> stamp k x = Some s"
      unfolding only_reclaimed_def by blast+
    from A(1) B(1) have "history_floor x = max (history_floor u) (w - 1)" by simp
    with A(2,3) B(2,3) show ?thesis unfolding only_reclaimed_def by blast
  qed
qed

definition store_kept ::
    "version_layout \<Rightarrow> version_store \<Rightarrow> version_shared \<Rightarrow> commit_entry list \<Rightarrow> version_store \<Rightarrow> version_shared \<Rightarrow> bool" where
  "store_kept L st sh h st1 sh1 \<longleftrightarrow>
     store_inv L st1 sh1 h \<and> commit_epoch st1 = commit_epoch st \<and> vs_pin st1 = vs_pin st \<and> pins sh1 = pins sh \<and>
     protects (pins sh) (vs_index st) (vs_index st1) \<and>
     only_reclaimed (reclaim_watermark st sh) (vs_index st) (vs_index st1)"

lemma store_keptD:
  assumes "store_kept L st sh h st1 sh1"
  shows "store_inv L st1 sh1 h" "commit_epoch st1 = commit_epoch st" "vs_pin st1 = vs_pin st" "pins sh1 = pins sh"
    "protects (pins sh) (vs_index st) (vs_index st1)" "only_reclaimed (reclaim_watermark st sh) (vs_index st) (vs_index st1)"
    "reclaim_watermark st1 sh1 = reclaim_watermark st sh"
  using assms by (simp_all add: store_kept_def) (simp add: reclaim_watermark_def split: option.split)

lemma store_kept_trans:
  assumes "store_kept L st sh h st1 sh1" "store_kept L st1 sh1 h st2 sh2"
  shows "store_kept L st sh h st2 sh2"
proof -
  note A = store_keptD [OF assms(1)] and B = store_keptD [OF assms(2)]
  have "protects (pins sh) (vs_index st) (vs_index st2)" using protects_trans [OF A(5)] B(5) A(4) by simp
  moreover have "only_reclaimed (reclaim_watermark st sh) (vs_index st) (vs_index st2)"
    using only_reclaimed_trans [OF A(6)] B(6) A(7) by simp
  ultimately show ?thesis using A B by (simp add: store_kept_def)
qed

definition commit_ready ::
    "version_layout \<Rightarrow> version_store \<Rightarrow> version_shared \<Rightarrow> commit_entry list \<Rightarrow> commit_entry \<Rightarrow> version_store \<Rightarrow> version_index \<Rightarrow> version_shared \<Rightarrow> bool" where
  "commit_ready L st sh h en st1 new sh1 \<longleftrightarrow>
     store_kept L st sh h st1 sh1 \<and> index_ok L new \<and> budget_ok new (vs_budget sh1) \<and>
     history_ok (en # h) (Suc (commit_epoch st)) new \<and> protects (pins sh) (vs_index st) new \<and> history_floor new \<le> commit_epoch st"

lemma stage_ready:
  assumes inv: "store_inv L st sh h" and srt: "bt_sorted version_key_cmp (writes ws)"
    and narrow: "barrier \<longrightarrow> (\<forall>k \<in> set (map fst (writes ws)). \<not> is_read_summary_key k)"
    and ks: "\<And>k. plain k \<Longrightarrow> wrote ks k \<longleftrightarrow> bt_get version_key_cmp k (writes ws) \<noteq> None"
    and fine: "\<not> barrier \<Longrightarrow> ks = map fst (writes ws) \<and> \<not> broad"
  shows "case stage_version_index L ws (Suc (commit_epoch st)) barrier st sh of
      None \<Rightarrow> False
    | Some (Inl e) \<Rightarrow> e = IndexBudgetExhausted \<or> e = HistoryBudgetExhausted
    | Some (Inr (st1, new, sh1)) \<Rightarrow> commit_ready L st sh h (Suc (commit_epoch st), ks, broad) st1 new sh1"
proof (cases "stage_version_index L ws (Suc (commit_epoch st)) barrier st sh")
  case None
  with stage_version_index_spec [OF store_invD(5) [OF inv] srt narrow, of "Suc (commit_epoch st)"] show ?thesis by simp
next
  case (Some r)
  note spec = stage_version_index_spec [OF store_invD(5) [OF inv] srt narrow, of "Suc (commit_epoch st)", unfolded Some option.case]
  show ?thesis
  proof (cases r)
    case (Inl e)
    with spec Some show ?thesis by simp
  next
    case (Inr t)
    obtain st1 new sh1 where t: "t = (st1, new, sh1)" by (cases t)
    from spec have r: "store_ok L st1 sh1" "index_ok L new" "budget_ok new (vs_budget sh1)"
      "staged_from barrier ws (Suc (commit_epoch st)) (versions_of L st sh) new" "same_stamps (vs_index st) (vs_index st1)"
      "commit_epoch st1 = commit_epoch st" "vs_pin st1 = vs_pin st" "pins sh1 = pins sh"
      unfolding Inr t sum.case prod.case by blast+
    note h = history_stage [OF versions_of_ok(1) [OF inv] r(4) ks fine]
    have "store_inv L st1 sh1 h"
      using inv r(1,6,8) history_same [OF r(5) store_invD(6) [OF inv]] by (simp add: store_inv_def)
    moreover have "history_floor (vs_index st1) = history_floor (vs_index st)" using r(5) by (simp add: same_stamps_def)
    moreover have "protects (pins sh) (vs_index st) new"
      using versions_of_ok(2) [OF inv] r(4) by (simp add: staged_from_def protects_def)
    moreover have "history_floor new \<le> commit_epoch st"
      using history_okD(1) [OF versions_of_ok(1) [OF inv]] r(4) by (simp add: staged_from_def)
    ultimately show ?thesis using r(2,3,6-8) h only_reclaimed_same [OF r(5)]
      unfolding Some Inr t commit_ready_def store_kept_def by (simp add: protects_refl)
  qed
qed

lemma reclaim_ready:
  assumes inv: "store_inv L st sh h"
  obtains st1 sh1 where "reclaim_version_history L st sh = Some (st1, sh1)" "store_kept L st sh h st1 sh1"
proof -
  note D = store_invD [OF inv]
  define w where "w = reclaim_watermark st sh"
  have w: "w \<le> commit_epoch st + 1"
    using D(7) [OF oldest_epoch_pinned] by (auto simp: w_def reclaim_watermark_def split: option.split intro: le_SucI)
  have own: "owned (segments (stamps (vs_index st))) \<le> hb_used (vs_budget sh)" using D(3) by (simp add: budget_ok_def)
  have "pruned L (\<lambda>s. w \<le> stamp_epoch s) w (vs_index st) (vs_budget sh) (prune_before L w (vs_index st) (vs_budget sh))"
    unfolding prune_before_def Let_def by (rule prune_map_pruned [OF D(1,2) own]) (simp add: floor_ok_def)
  then obtain vi b where p: "prune_before L w (vs_index st) (vs_budget sh) = Some (vi, b)"
    "pruned L (\<lambda>s. w \<le> stamp_epoch s) w (vs_index st) (vs_budget sh) (Some (vi, b))"
    unfolding pruned_def by (auto split: option.splits)
  from p(2) have f: "index_ok L vi" "history_floor vi = max (history_floor (vs_index st)) (w - 1)"
    "hb_used b + owned (segments (stamps (vs_index st))) = hb_used (vs_budget sh) + owned (segments (stamps vi))"
    "hb_limit b = hb_limit (vs_budget sh)" "hb_used (vs_budget sh) \<le> hb_limit (vs_budget sh) \<longrightarrow> hb_used b \<le> hb_limit b"
    "\<forall>k s. stamp k vi = Some s \<longrightarrow> stamp k (vs_index st) = Some s"
    "\<forall>k s. stamp k (vs_index st) = Some s \<and> w \<le> stamp_epoch s \<longrightarrow> stamp k vi = Some s"
    unfolding pruned_def option.case prod.case by blast+
  have "only_reclaimed w (vs_index st) vi" unfolding only_reclaimed_def using f(2,6,7) by blast
  note reclaimed = this [unfolded w_def]
  have "budget_ok vi b" using f(3-5) D(3) by (simp add: budget_ok_def)
  then have "store_inv L (st\<lparr>vs_index := vi\<rparr>) (sh\<lparr>vs_budget := b\<rparr>) h"
    using inv f(1) history_prune [OF D(6) p(2) w] by (simp add: store_inv_def store_ok_def)
  moreover have "protects (pins sh) (vs_index st) vi"
    unfolding protects_def
  proof (intro allI impI)
    fix e assume e: "pinned e (pins sh) \<and> history_floor (vs_index st) \<le> e"
    then obtain oldest where "oldest_epoch (pins sh) = Some oldest" "oldest \<le> e" using oldest_epoch_le [OF D(4)] by blast
    with e f(2) show "history_floor vi \<le> e" by (simp add: w_def reclaim_watermark_def)
  qed
  moreover have "reclaim_version_history L st sh = Some (st\<lparr>vs_index := vi\<rparr>, sh\<lparr>vs_budget := b\<rparr>)"
    by (simp add: reclaim_version_history_def reclaim_watermark_def [symmetric] w_def [symmetric] p(1))
  ultimately show ?thesis using reclaimed
    by (intro that [of "st\<lparr>vs_index := vi\<rparr>" "sh\<lparr>vs_budget := b\<rparr>"]) (simp_all add: store_kept_def)
qed

lemma store_kept_refl: "store_inv L st sh h \<Longrightarrow> store_kept L st sh h st sh"
  by (simp add: store_kept_def protects_refl only_reclaimed_def same_stamps_def)

lemma store_kept_ready:
  "store_kept L st sh h st1 sh1 \<Longrightarrow> commit_ready L st1 sh1 h en st2 new sh2 \<Longrightarrow> commit_ready L st sh h en st2 new sh2"
  using store_kept_trans [of L st sh h st1 sh1 st2 sh2] protects_trans [of "pins sh" "vs_index st" "vs_index st1" new]
  by (simp add: commit_ready_def) (simp add: store_kept_def)

lemma stage_fine_ready:
  assumes "store_inv L st sh h" "commit_inputs ws fine"
  shows "case stage_fine L fine (Suc (commit_epoch st)) st sh of
      None \<Rightarrow> False
    | Some None \<Rightarrow> True
    | Some (Some (st1, new, sh1)) \<Rightarrow> commit_ready L st sh h (commit_entry_of (Suc (commit_epoch st)) ws fine) st1 new sh1"
proof (cases fine)
  case (Some w)
  with assms(2) have w: "bt_sorted version_key_cmp (writes w)" by (simp add: commit_inputs_def)
  from stage_ready [OF assms(1) w, of False "map fst (writes w)" False] Some show ?thesis
    by (auto simp: stage_fine_def commit_entry_of_def wrote_keys split: option.splits sum.splits)
qed (simp add: stage_fine_def)

lemma stage_broad_ready:
  assumes "store_inv L st sh h" "commit_inputs ws fine"
  shows "case stage_version_index L ws (Suc (commit_epoch st)) True st sh of
      None \<Rightarrow> False
    | Some (Inl e) \<Rightarrow> e = IndexBudgetExhausted \<or> e = HistoryBudgetExhausted
    | Some (Inr (st1, new, sh1)) \<Rightarrow> commit_ready L st sh h (commit_entry_of (Suc (commit_epoch st)) ws fine) st1 new sh1"
  unfolding commit_entry_of_def
proof (rule stage_ready [OF assms(1)])
  show "wrote (map fst (writes (case fine of None \<Rightarrow> ws | Some w \<Rightarrow> w))) k \<longleftrightarrow> bt_get version_key_cmp k (writes ws) \<noteq> None" if "plain k" for k
    using that assms(2) by (auto simp: wrote_keys commit_inputs_def split: option.splits)
qed (use assms(2) in \<open>auto simp: commit_inputs_def list_all_iff plain_def\<close>)

lemma stage_for_commit_ready:
  assumes "store_inv L st sh h" "commit_inputs ws fine"
  shows "case stage_for_commit L ws fine (Suc (commit_epoch st)) st sh of
      None \<Rightarrow> False
    | Some (Some e, st1, _, _, sh1) \<Rightarrow> (e = IndexBudgetExhausted \<or> e = HistoryBudgetExhausted) \<and> store_kept L st sh h st1 sh1
    | Some (None, st1, new, _, sh1) \<Rightarrow> commit_ready L st sh h (commit_entry_of (Suc (commit_epoch st)) ws fine) st1 new sh1"
proof -
  obtain st1 sh1 where r: "reclaim_version_history L st sh = Some (st1, sh1)" "store_kept L st sh h st1 sh1"
    by (rule reclaim_ready [OF assms(1)])
  have inv: "store_inv L st1 sh1 h" and c: "commit_epoch st1 = commit_epoch st" using r(2) by (simp_all add: store_kept_def)
  note ready = stage_fine_ready [OF assms] stage_fine_ready [OF inv assms(2), unfolded c] stage_broad_ready [OF inv assms(2), unfolded c]
  show ?thesis
    using ready r
    by (auto simp: stage_for_commit_def split: option.splits sum.splits bind_splits intro: store_kept_ready [OF r(2)])
qed

lemma publish_ready:
  assumes "commit_ready L st sh h (commit_entry_of (Suc (commit_epoch st)) ws fine) st1 new sh1" "commit_epoch st < u64_max"
    and "publish_versions (Suc (commit_epoch st)) new collapsed st1 sh1 = (st', sh')"
  shows "store_inv L st' sh' (commit_entry_of (commit_epoch st') ws fine # h)" "commit_epoch st' = Suc (commit_epoch st)"
    "vs_pin st' = vs_pin st" "pins sh' = pins sh" "protects (pins sh) (vs_index st) (vs_index st')"
    "history_floor (vs_index st') \<le> commit_epoch st"
  using assms
  by (cases collapsed; auto simp: publish_versions_def commit_ready_def store_kept_def store_inv_def store_ok_def le_SucI)+

text \<open>A commit that passes the checks is its staging, followed by the publication.\<close>

lemma commit_versions_cases:
  assumes "commit_epoch st \<le> u64_max"
  obtains (refused) e where "commit_versions L ws fine read_epoch accepted st sh = Some (Some e, st, sh)"
  | (staged) "commit_epoch st < u64_max" "\<forall>r. read_epoch = Some r \<longrightarrow> validate_version_writes st ws r = Inr ()"
      "commit_versions L ws fine read_epoch accepted st sh =
        map_option (\<lambda>(err, st1, new, collapsed, sh1). case err of
              Some e \<Rightarrow> (Some e, st1, sh1)
            | None \<Rightarrow> if \<not> accepted then (Some NotAccepted, st1, sh1)
                else (None, publish_versions (Suc (commit_epoch st)) new collapsed st1 sh1))
          (stage_for_commit L ws fine (Suc (commit_epoch st)) st sh)"
proof (cases "commit_epoch st = u64_max")
  case True
  then show thesis by (intro refused [of EpochOverflow]) (simp add: commit_versions_def next_commit_epoch_def)
next
  case False
  then have next_epoch: "next_commit_epoch st = Inr (Suc (commit_epoch st))" by (simp add: next_commit_epoch_def)
  show thesis
  proof (cases "validate_read_epoch st ws read_epoch")
    case (Inl e)
    with next_epoch show thesis by (intro refused [of e]) (simp add: commit_versions_def)
  next
    case (Inr u)
    with next_epoch have "commit_versions L ws fine read_epoch accepted st sh =
        map_option (\<lambda>(err, st1, new, collapsed, sh1). case err of
              Some e \<Rightarrow> (Some e, st1, sh1)
            | None \<Rightarrow> if \<not> accepted then (Some NotAccepted, st1, sh1)
                else (None, publish_versions (Suc (commit_epoch st)) new collapsed st1 sh1))
          (stage_for_commit L ws fine (Suc (commit_epoch st)) st sh)"
      by (simp add: commit_versions_def)
    with Inr False assms show thesis by (intro staged) (simp_all add: validate_read_epoch_def split: option.splits)
  qed
qed

lemma commit_versions_spec:
  assumes inv: "store_inv L st sh h" and inp: "commit_inputs ws fine"
  shows "case commit_versions L ws fine read_epoch accepted st sh of
      None \<Rightarrow> False
    | Some (Some e, st', sh') \<Rightarrow> store_kept L st sh h st' sh' \<and>
        (e = IndexBudgetExhausted \<or> e = HistoryBudgetExhausted \<or> e = NotAccepted \<or> st' = st \<and> sh' = sh)
    | Some (None, st', sh') \<Rightarrow>
        store_inv L st' sh' (commit_entry_of (commit_epoch st') ws fine # h) \<and> commit_epoch st' = Suc (commit_epoch st) \<and>
        vs_pin st' = vs_pin st \<and> pins sh' = pins sh \<and> protects (pins sh) (vs_index st) (vs_index st') \<and>
        history_floor (vs_index st') \<le> commit_epoch st \<and>
        (\<forall>r. read_epoch = Some r \<longrightarrow> validate_version_writes st ws r = Inr ())"
proof -
  have "commit_epoch st \<le> u64_max" using inv by (simp add: store_inv_def)
  then show ?thesis
  proof (cases rule: commit_versions_cases [of st L ws fine read_epoch accepted sh])
    case (refused e)
    then show ?thesis using store_kept_refl [OF inv] by simp
  next
    case staged
    show ?thesis
    proof (cases "stage_for_commit L ws fine (Suc (commit_epoch st)) st sh")
      case None
      with stage_for_commit_ready [OF inv inp] show ?thesis by simp
    next
      case (Some x)
      obtain err st1 new collapsed sh1 where x: "x = (err, st1, new, collapsed, sh1)" by (cases x)
      note ready = stage_for_commit_ready [OF inv inp, unfolded Some x option.case prod.case]
      show ?thesis
      proof (cases "err = None \<and> accepted")
        case True
        obtain st' sh' where p: "publish_versions (Suc (commit_epoch st)) new collapsed st1 sh1 = (st', sh')"
          by (cases "publish_versions (Suc (commit_epoch st)) new collapsed st1 sh1")
        from True ready have "commit_ready L st sh h (commit_entry_of (Suc (commit_epoch st)) ws fine) st1 new sh1" by simp
        note publish_ready [OF this staged(1) p]
        with staged(2,3) True p show ?thesis unfolding Some x by simp
      next
        case False
        with ready staged(3) show ?thesis unfolding Some x by (auto simp: commit_ready_def split: option.splits)
      qed
    qed
  qed
qed

end
