(* ===== verification/Version_Validation.thy ===== *)
theory Version_Validation
  imports Version_Store
begin

text \<open>
  Interleavings of the version operations of a store, with what its snapshots and readers do in between,
  and what validation guarantees in every state that is reached. The relation \<open>version_step\<close> has a rule
  per operation of the store (a commit with either outcome, a commit of the older paths, a reclaim, a
  snapshot), one each for the registration and the release of a pin by a snapshot or a reader, and one
  for the coming and going of other index roots: a snapshot or a replaced root that is dropped changes
  which pages are shared and returns credit, and nothing else.
\<close>

inductive version_step ::
    "version_layout \<Rightarrow> version_store \<times> version_shared \<times> commit_entry list \<Rightarrow>
     version_store \<times> version_shared \<times> commit_entry list \<Rightarrow> bool" for L where
  commit: "commit_inputs ws fine \<Longrightarrow> commit_versions L ws fine read_epoch accepted st sh = Some (None, st', sh') \<Longrightarrow>
    version_step L (st, sh, h) (st', sh', commit_entry_of (commit_epoch st') ws fine # h)"
| refuse: "commit_inputs ws fine \<Longrightarrow> commit_versions L ws fine read_epoch accepted st sh = Some (Some e, st', sh') \<Longrightarrow>
    version_step L (st, sh, h) (st', sh', h)"
| legacy: "finish_non_relational_commit L st = Some st' \<Longrightarrow>
    version_step L (st, sh, h) (st', sh, (commit_epoch st', [VDatabase], False) # h)"
| reclaim: "reclaim_version_history L st sh = Some (st', sh') \<Longrightarrow> version_step L (st, sh, h) (st', sh', h)"
| snapshot: "snapshot st sh = (snap, st', sh') \<Longrightarrow> version_step L (st, sh, h) (st', sh', h)"
| register: "epoch \<le> commit_epoch st \<Longrightarrow> pin epoch (pins sh) = (p, ps) \<Longrightarrow> version_step L (st, sh, h) (st, sh\<lparr>pins := ps\<rparr>, h)"
| release: "drop_pin p (pins sh) = Some ps \<Longrightarrow> version_step L (st, sh, h) (st, sh\<lparr>pins := ps\<rparr>, h)"
| roots: "\<forall>p. same_page p (f p) \<Longrightarrow> index_ok L (map_pages f (vs_index st)) \<Longrightarrow> budget_ok (map_pages f (vs_index st)) b \<Longrightarrow>
    hb_limit b = hb_limit (vs_budget sh) \<Longrightarrow>
    version_step L (st, sh, h) (st\<lparr>vs_index := map_pages f (vs_index st)\<rparr>, sh\<lparr>vs_budget := b\<rparr>, h)"

inductive version_reachable :: "version_layout \<Rightarrow> version_store \<times> version_shared \<times> commit_entry list \<Rightarrow> bool" for L where
  start: "layout_ok L \<Longrightarrow> max_bytes \<le> usize_max \<Longrightarrow> epoch \<le> u64_max \<Longrightarrow> with_history_limit L max_bytes max_history = Some (vi, b) \<Longrightarrow>
    version_reachable L (\<lparr> commit_epoch = epoch, vs_index = vi, vs_pin = None \<rparr>, \<lparr> pins = [], vs_budget = b, read_summary_collapses = 0 \<rparr>, [])"
| step: "version_reachable L s \<Longrightarrow> version_step L s s' \<Longrightarrow> version_reachable L s'"

section \<open>Invariant\<close>

lemma share_simps [simp]:
  "lease_ok L (share p) = lease_ok L p" "bounds_ok (share p) = bounds_ok p" "history_lease (share p) = history_lease p" "page_shared (share p)"
  by (simp_all add: share_def lease_ok_def bounds_ok_def split: option.split)

lemma clone_kept:
  assumes "store_inv L st sh h"
  shows "store_inv L (st\<lparr>vs_index := (vs_index st)\<lparr>stamps := cow_clone (stamps (vs_index st))\<rparr>\<rparr>) sh h"
proof -
  note D = store_invD [OF assms]
  let ?v = "map_pages share (vs_index st)"
  have same: "same_stamps (vs_index st) ?v" by (simp add: same_stamps_def map_pages_same)
  have "index_ok L ?v"
    using D(2) map_pages_same(2) [of share L "vs_index st"] unfolding index_ok_def by simp
  moreover have "budget_ok ?v (vs_budget sh)"
    using D(3) owned_shared [of "segments (stamps ?v)"] by (simp add: budget_ok_def)
  ultimately show ?thesis
    using assms history_same [OF same D(6)] unfolding clone_map_pages by (simp add: store_inv_def store_ok_def)
qed

text \<open>Every step keeps the invariant and does not raise the floor above an epoch that is pinned.\<close>

lemma version_step_inv:
  assumes "version_step L (st, sh, h) (st', sh', h')" "store_inv L st sh h"
  shows "store_inv L st' sh' h' \<and> protects (pins sh) (vs_index st) (vs_index st')"
  using assms(1)
proof cases
  case (commit ws fine read_epoch accepted)
  from commit_versions_spec [OF assms(2) commit(2), of read_epoch accepted, unfolded commit(3) option.case prod.case]
  show ?thesis unfolding commit(1) by blast
next
  case (refuse ws fine read_epoch accepted e)
  with commit_versions_spec [OF assms(2) refuse(2), of read_epoch accepted] show ?thesis by (simp add: store_kept_def)
next
  case legacy
  note D = store_invD [OF assms(2)]
  let ?v = "apply_database_barrier L (Suc (commit_epoch st)) (vs_index st)"
  from legacy have e: "commit_epoch st \<noteq> u64_max" "st' = st\<lparr>commit_epoch := Suc (commit_epoch st), vs_index := ?v\<rparr>"
    by (auto simp: finish_non_relational_commit_def split: if_splits)
  have v: "stamps ?v = stamps (vs_index st)" "history_floor ?v = history_floor (vs_index st)"
    by (simp_all add: apply_database_barrier_def insert_stamp_def)
  have "index_ok L ?v" using D(2) barrier_index_ok(2) by (simp add: apply_database_barrier_def insert_stamp_def)
  then show ?thesis
    using legacy e assms(2) v history_legacy [OF D(6), of L]
    by (auto simp: store_inv_def store_ok_def budget_ok_def protects_def le_SucI)
next
  case reclaim
  then show ?thesis using reclaim_ready [OF assms(2)] by (metis option.inject prod.inject store_kept_def)
next
  case (snapshot snap)
  let ?v = "(vs_index st)\<lparr>stamps := cow_clone (stamps (vs_index st))\<rparr>"
  define e where "e = (case vs_pin st of None \<Rightarrow> commit_epoch st | Some p \<Rightarrow> min (pin_epoch p) (commit_epoch st))"
  have s: "st' = st\<lparr>vs_index := ?v\<rparr>" "sh' = sh\<lparr>pins := snd (pin e (pins sh))\<rparr>" "h' = h"
    using snapshot by (auto simp: snapshot_def snapshot_with_history_def Let_def e_def split: prod.splits)
  have "e \<le> commit_epoch st" by (auto simp: e_def split: option.split)
  with clone_kept [OF assms(2)] s pin_ok [OF store_invD(4) [OF assms(2)], of e] show ?thesis
    by (auto simp: store_inv_def store_ok_def pin_pinned protects_def)
next
  case (register epoch p ps)
  then have ps: "ps = snd (pin epoch (pins sh))" by simp
  from register assms(2) pin_ok [of "pins sh" epoch] show ?thesis
    unfolding ps by (auto simp: store_inv_def store_ok_def pin_pinned protects_def)
next
  case (release p ps)
  from release assms(2) drop_pin_ok [of "pins sh" p ps] drop_pin_pinned [of p "pins sh" ps] show ?thesis
    by (auto simp: store_inv_def store_ok_def protects_def)
next
  case (roots f b)
  then have same: "same_stamps (vs_index st) (map_pages f (vs_index st))" by (simp add: same_stamps_def map_pages_same)
  from roots assms(2) history_same [OF same store_invD(6) [OF assms(2)]] show ?thesis
    by (simp add: store_inv_def store_ok_def protects_def)
qed

lemma reachable_inv: "version_reachable L (st, sh, h) \<Longrightarrow> store_inv L st sh h"
proof (induction "(st, sh, h)" arbitrary: st sh h rule: version_reachable.induct)
  case (start max_bytes epoch max_history vi b)
  then show ?case
    using inline_pos [OF start(1)]
    by (auto simp: with_history_limit_def store_inv_def store_ok_def index_ok_def stamps_ok_def cow_ok_def cow_iter_def cow_empty_def
      budget_ok_def budget_new_def pins_ok_def pinned_def history_ok_def stamp_def cow_get_def segment_index_def plain_def
      split: if_splits version_key.splits)
next
  case (step s)
  obtain st0 sh0 h0 where s: "s = (st0, sh0, h0)" by (cases s)
  from step(2) [OF s] step(3) show ?case unfolding s by (blast dest: version_step_inv)
qed

section \<open>Validation\<close>

lemma conflict_scan_None: "conflict_scan vi r ks = None \<longleftrightarrow> (\<forall>k \<in> set ks. \<forall>s. stamp k vi = Some s \<longrightarrow> stamp_epoch s \<le> r)"
  by (induction ks) (auto split: option.split)

text \<open>The identities a transaction is validated for: those it writes and the two broad ones.\<close>

definition validated_keys :: "version_write_set \<Rightarrow> version_key set" where
  "validated_keys ws = insert VDatabase (insert VSchema (set (map fst (writes ws))))"

lemma validate_ok_iff:
  assumes "writes ws \<noteq> []"
  shows "validate_version_writes st ws r = Inr () \<longleftrightarrow>
    history_floor (vs_index st) \<le> r \<and>
    (\<forall>k \<in> validated_keys ws. \<forall>s. stamp k (vs_index st) = Some s \<longrightarrow> stamp_epoch s \<le> r) \<and>
    ((ws_contains VDatabase ws \<or> ws_contains VSchema ws) \<longrightarrow> commit_epoch st \<le> r)"
proof -
  have broad: "validate_broad st ws r ks = Inr () \<longleftrightarrow>
      (\<forall>k \<in> set ks. (ws_contains k ws \<longrightarrow> commit_epoch st \<le> r) \<and> (\<forall>s. stamp k (vs_index st) = Some s \<longrightarrow> stamp_epoch s \<le> r))" for ks
    by (induction ks) (auto split: option.split)
  have "validate_version_writes st ws r = Inr () \<longleftrightarrow>
      first_conflict (vs_index st) ws r = None \<and> validate_broad st ws r [VDatabase, VSchema] = Inr ()"
    by (auto simp: validate_version_writes_def split: option.split if_splits)
  also have "first_conflict (vs_index st) ws r = None \<longleftrightarrow>
      history_floor (vs_index st) \<le> r \<and> conflict_scan (vs_index st) r (map fst (writes ws)) = None"
    using assms by (simp add: first_conflict_def not_less)
  finally show ?thesis unfolding broad conflict_scan_None validated_keys_def by auto
qed

lemma plain_broad [simp]: "plain VDatabase" "plain VSchema"
  by (simp_all add: plain_def)

lemma validated_plain: "list_all plain (map fst (writes ws)) \<Longrightarrow> k \<in> validated_keys ws \<Longrightarrow> plain k"
  by (auto simp: validated_keys_def list_all_iff)

text \<open>A plain identity is covered by its own stamp.\<close>

lemma plain_recorded:
  assumes "history_ok h c vi" "en \<in> set h" "plain k" "invalidates en k" "history_floor vi < fst en"
  obtains s where "stamp k vi = Some s" "fst en \<le> stamp_epoch s"
  using history_okD(3) [OF assms(1,2) _ assms(4)] assms(3,5) by (auto simp: covered_def plain_def)

lemma plain_invalidates: "plain k \<Longrightarrow> invalidates en k \<longleftrightarrow> wrote (fst (snd en)) k"
  by (cases en) (simp add: invalidates_def plain_def)

lemma validated_safe:
  assumes h: "history_ok h (commit_epoch st) (vs_index st)" and ws: "writes ws \<noteq> []" "list_all plain (map fst (writes ws))"
    and v: "validate_version_writes st ws r = Inr ()" and en: "en \<in> set h" "r < fst en"
  shows "\<forall>k \<in> validated_keys ws. \<not> invalidates en k" "\<not> ws_contains VDatabase ws" "\<not> ws_contains VSchema ws"
proof -
  note ok = v [unfolded validate_ok_iff [OF ws(1)]]
  show "\<forall>k \<in> validated_keys ws. \<not> invalidates en k"
  proof (intro ballI notI)
    fix k assume k: "k \<in> validated_keys ws" "invalidates en k"
    have "history_floor (vs_index st) < fst en" using ok en(2) by linarith
    then obtain s where "stamp k (vs_index st) = Some s" "fst en \<le> stamp_epoch s"
      by (rule plain_recorded [OF h en(1) validated_plain [OF ws(2) k(1)] k(2)])
    with ok k(1) en(2) show False by fastforce
  qed
  show "\<not> ws_contains VDatabase ws" "\<not> ws_contains VSchema ws" using ok history_okD(2) [OF h en(1)] en(2) by auto
qed

text \<open>
  C1. First committer wins. Whatever commits, reclaims, snapshots, registrations and releases came before,
  a transaction that read at some epoch commits only if no commit after that epoch wrote an identity that
  the transaction writes, or changed the schema, or was one of the older paths that bar the whole database.
  If the transaction itself writes the schema or the whole database, there is no later commit at all.
\<close>

theorem first_committer_wins:
  assumes "version_reachable L (st, sh, h)" "commit_inputs ws fine" "writes ws \<noteq> []"
    "commit_versions L ws fine (Some read_epoch) accepted st sh = Some (None, st', sh')"
  shows "\<forall>en \<in> set h. read_epoch < fst en \<longrightarrow>
    (\<forall>k \<in> validated_keys ws. \<not> invalidates en k) \<and> \<not> ws_contains VDatabase ws \<and> \<not> ws_contains VSchema ws"
proof -
  have inv: "store_inv L st sh h" by (rule reachable_inv [OF assms(1)])
  have "validate_version_writes st ws read_epoch = Inr ()"
    using commit_versions_spec [OF inv assms(2), of "Some read_epoch" accepted] unfolding assms(4) by simp
  with validated_safe [OF store_invD(6) [OF inv] assms(3)] assms(2) show ?thesis
    unfolding commit_inputs_def by blast
qed

section \<open>Registered snapshots\<close>

definition pinned_step ::
    "version_layout \<Rightarrow> nat \<Rightarrow> version_store \<times> version_shared \<times> commit_entry list \<Rightarrow> version_store \<times> version_shared \<times> commit_entry list \<Rightarrow> bool" where
  "pinned_step L e s s' \<longleftrightarrow> version_step L s s' \<and> pinned e (pins (fst (snd s)))"

lemma pinned_run:
  assumes "(pinned_step L e)\<^sup>*\<^sup>* s s'" "version_reachable L s" "history_floor (vs_index (fst s)) \<le> e"
  shows "version_reachable L s' \<and> history_floor (vs_index (fst s')) \<le> e"
  using assms
proof (induction rule: rtranclp_induct)
  case (step u w)
  obtain st sh h st' sh' h' where u: "u = (st, sh, h)" "w = (st', sh', h')" by (cases u, cases w)
  from step(2) have st: "version_step L (st, sh, h) (st', sh', h')" "pinned e (pins sh)" by (simp_all add: pinned_step_def u)
  from step(3-5) have r: "version_reachable L (st, sh, h)" "history_floor (vs_index st) \<le> e" by (simp_all add: u)
  from version_step_inv [OF st(1) reachable_inv [OF r(1)]] st(2) r(2) have "history_floor (vs_index st') \<le> e"
    by (simp add: protects_def)
  with version_reachable.step [OF r(1) st(1)] show ?case by (simp add: u)
qed simp

lemma validated_complete:
  assumes h: "history_ok h c (vs_index st)" "history_floor (vs_index st) \<le> r" and ws: "writes ws \<noteq> []" "list_all plain (map fst (writes ws))"
    and no: "\<forall>en \<in> set h. r < fst en \<longrightarrow> (\<forall>k \<in> validated_keys ws. \<not> wrote (fst (snd en)) k)"
    and broad: "ws_contains VDatabase ws \<or> ws_contains VSchema ws \<longrightarrow> commit_epoch st \<le> r"
  shows "validate_version_writes st ws r = Inr ()"
  unfolding validate_ok_iff [OF ws(1)]
proof (intro conjI ballI allI impI h(2))
  fix k s assume k: "k \<in> validated_keys ws" "stamp k (vs_index st) = Some s"
  from history_okD(4) [OF h(1) validated_plain [OF ws(2) k(1)] k(2)] show "stamp_epoch s \<le> r"
  proof
    assume "\<exists>en \<in> set h. fst en = stamp_epoch s \<and> wrote (fst (snd en)) k"
    with no k(1) show ?thesis by (metis not_less)
  qed (use h(2) in linarith)
qed (use broad in blast)

lemma snapshot_state:
  assumes "snapshot st sh = (snap, st', sh')" "vs_pin st = None"
  shows "history_floor (vs_index st') = history_floor (vs_index st)" "commit_epoch st' = commit_epoch st"
    "pinned (commit_epoch st) (pins sh')" "vs_pin snap = Some \<lparr> pin_epoch = commit_epoch st, registered = True \<rparr>"
  using assms pin_pinned [of "commit_epoch st" "commit_epoch st" "pins sh"]
  by (auto simp: snapshot_def snapshot_with_history_def Let_def pin_def)

text \<open>
  C5. A registered snapshot is validated exactly. Let a transaction start from a snapshot of the canonical
  store, and let any steps follow while that snapshot stays registered. Then validation at the snapshot's
  epoch accepts a write set if and only if no commit since then wrote one of its identities, the schema or
  the whole database (and none happened at all, if the write set itself is that broad). In particular
  history is never reclaimed under a registered snapshot.
\<close>

theorem registered_snapshot_exact:
  assumes "version_reachable L (st0, sh0, h0)" "vs_pin st0 = None" "snapshot st0 sh0 = (snap, st1, sh1)"
    "(pinned_step L (commit_epoch st0))\<^sup>*\<^sup>* (st1, sh1, h0) (st, sh, h)" "writes ws \<noteq> []" "list_all plain (map fst (writes ws))"
  shows "validate_version_writes st ws (commit_epoch st0) = Inr () \<longleftrightarrow>
    (\<forall>en \<in> set h. commit_epoch st0 < fst en \<longrightarrow> (\<forall>k \<in> validated_keys ws. \<not> wrote (fst (snd en)) k)) \<and>
    (ws_contains VDatabase ws \<or> ws_contains VSchema ws \<longrightarrow> commit_epoch st \<le> commit_epoch st0)"
proof -
  note snap = snapshot_state [OF assms(3,2)]
  have "version_reachable L (st1, sh1, h0)"
    using version_reachable.step [OF assms(1)] version_step.snapshot [OF assms(3)] by blast
  moreover have "history_floor (vs_index st1) \<le> commit_epoch st0"
    using snap(1) history_okD(1) [OF store_invD(6) [OF reachable_inv [OF assms(1)]]] by simp
  ultimately have r: "version_reachable L (st, sh, h)" "history_floor (vs_index st) \<le> commit_epoch st0"
    using pinned_run [OF assms(4)] by simp_all
  note h = store_invD(6) [OF reachable_inv [OF r(1)]]
  show ?thesis
  proof
    assume v: "validate_version_writes st ws (commit_epoch st0) = Inr ()"
    have "\<not> wrote (fst (snd en)) k" if "en \<in> set h" "commit_epoch st0 < fst en" "k \<in> validated_keys ws" for en k
      using validated_safe(1) [OF h assms(5,6) v that(1,2)] that(3) plain_invalidates [OF validated_plain [OF assms(6) that(3)]] by blast
    with v show "(\<forall>en \<in> set h. commit_epoch st0 < fst en \<longrightarrow> (\<forall>k \<in> validated_keys ws. \<not> wrote (fst (snd en)) k)) \<and>
        (ws_contains VDatabase ws \<or> ws_contains VSchema ws \<longrightarrow> commit_epoch st \<le> commit_epoch st0)"
      by (auto simp: validate_ok_iff [OF assms(5)])
  qed (blast intro: validated_complete [OF h r(2) assms(5,6)])
qed

lemma entry_keys:
  assumes "commit_inputs ws fine" "k \<in> set (map fst (writes ws))"
  shows "plain k" "invalidates (commit_entry_of e ws fine) k"
proof -
  show p: "plain k" using assms by (auto simp: commit_inputs_def list_all_iff)
  have "wrote (map fst (writes ws)) k" using assms(2) version_key_cmp_refl by (auto simp: wrote_def)
  then have "bt_get version_key_cmp k (writes (case fine of None \<Rightarrow> ws | Some w \<Rightarrow> w)) \<noteq> None"
    using assms(1) p unfolding wrote_keys by (auto simp: commit_inputs_def split: option.split)
  then show "invalidates (commit_entry_of e ws fine) k" unfolding wrote_keys [symmetric] by (simp add: commit_entry_of_def invalidates_def)
qed

text \<open>Validation at an epoch looks at the floor and at later stamps only.\<close>

lemma conflict_scan_cong:
  assumes "\<And>k s. r < stamp_epoch s \<Longrightarrow> stamp k v' = Some s \<longleftrightarrow> stamp k v = Some s"
  shows "conflict_scan v' r ks = conflict_scan v r ks"
proof (induction ks)
  case (Cons k ks)
  show ?case
  proof (cases "\<exists>s. r < stamp_epoch s \<and> stamp k v = Some s")
    case True
    then obtain s where "r < stamp_epoch s" "stamp k v = Some s" by blast
    moreover from this assms have "stamp k v' = Some s" by blast
    ultimately show ?thesis by simp
  next
    case False
    then have "conflict_scan v r (k # ks) = conflict_scan v r ks" by (simp split: option.split)
    moreover have "conflict_scan v' r (k # ks) = conflict_scan v' r ks"
      using False assms [of _ k] by (auto split: option.split)
    ultimately show ?thesis using Cons by simp
  qed
qed simp

lemma validate_broad_cong:
  assumes "commit_epoch st' = commit_epoch st"
    and "\<And>k s. r < stamp_epoch s \<Longrightarrow> stamp k (vs_index st') = Some s \<longleftrightarrow> stamp k (vs_index st) = Some s"
  shows "validate_broad st' ws r ks = validate_broad st ws r ks"
proof (induction ks)
  case (Cons k ks)
  show ?case
  proof (cases "\<exists>s. r < stamp_epoch s \<and> stamp k (vs_index st) = Some s")
    case True
    then obtain s where "r < stamp_epoch s" "stamp k (vs_index st) = Some s" by blast
    moreover from this assms(2) have "stamp k (vs_index st') = Some s" by blast
    ultimately show ?thesis by (simp add: assms(1))
  next
    case False
    then have "\<not> (\<exists>s. r < stamp_epoch s \<and> stamp k (vs_index st') = Some s)" using assms(2) by blast
    with False Cons show ?thesis by (auto simp: assms(1) split: option.split)
  qed
qed simp

lemma validate_cong:
  assumes "commit_epoch st' = commit_epoch st" "history_floor (vs_index st) \<le> r" "history_floor (vs_index st') \<le> r"
    and "\<And>k s. r < stamp_epoch s \<Longrightarrow> stamp k (vs_index st') = Some s \<longleftrightarrow> stamp k (vs_index st) = Some s"
  shows "validate_version_writes st' ws r = validate_version_writes st ws r"
proof -
  have "\<not> history_reclaimed_after (vs_index st) r" "\<not> history_reclaimed_after (vs_index st') r"
    using assms(2,3) by (simp_all add: history_reclaimed_after_def)
  moreover have "first_conflict (vs_index st') ws r = first_conflict (vs_index st) ws r"
    using assms(2,3) conflict_scan_cong [of r "vs_index st'" "vs_index st", OF assms(4)] by (simp add: first_conflict_def)
  moreover have "validate_broad st' ws r ks = validate_broad st ws r ks" for ks
    by (rule validate_broad_cong [OF assms(1,4)])
  ultimately show ?thesis unfolding validate_version_writes_def by presburger
qed

lemma reclaimed_stamps:
  assumes "only_reclaimed w v v'" "w \<le> r" "r < stamp_epoch s"
  shows "stamp k v' = Some s \<longleftrightarrow> stamp k v = Some s"
  using assms(1) unfolding only_reclaimed_def same_stamps_def
proof (elim disjE conjE)
  assume "\<forall>k s. stamp k v' = Some s \<longrightarrow> stamp k v = Some s" "\<forall>k s. stamp k v = Some s \<and> w \<le> stamp_epoch s \<longrightarrow> stamp k v' = Some s"
  moreover have "w \<le> stamp_epoch s" using assms(2,3) by linarith
  ultimately show ?thesis by blast
qed simp

lemma kept_validation:
  assumes "store_kept L st sh h st' sh'" "pins_ok (pins sh)" "pinned r (pins sh)" "history_floor (vs_index st) \<le> r"
  shows "validate_version_writes st' ws r = validate_version_writes st ws r"
proof (rule validate_cong)
  note K = store_keptD [OF assms(1)]
  show "commit_epoch st' = commit_epoch st" "history_floor (vs_index st) \<le> r" by fact+
  show "history_floor (vs_index st') \<le> r" using K(5) assms(3,4) by (simp add: protects_def)
  obtain oldest where "oldest_epoch (pins sh) = Some oldest" "oldest \<le> r" by (rule oldest_epoch_le [OF assms(2,3)])
  then have "reclaim_watermark st sh \<le> r" by (simp add: reclaim_watermark_def)
  then show "stamp k (vs_index st') = Some s \<longleftrightarrow> stamp k (vs_index st) = Some s" if "r < stamp_epoch s" for k s
    by (rule reclaimed_stamps [OF K(6) _ that])
qed

text \<open>
  C14. A commit never panics, in any state the store can reach. It either advances the epoch by one, with a
  stamp of at least the new epoch on every identity it wrote, the index within its invariants and the budget
  within its limit; or it reports an error. Then the epoch and the pins are as they were. The history is not
  always: a commit that does not fit reclaims before it tries again. But reclaiming is all that happened to
  it: the index is as it was, or its floor is just below the oldest pinned epoch (the next epoch, without
  pins) and stamps below that are gone, and no other stamp is lost, changed or added. So the validation of
  every write set at every pinned epoch answers as before. A commit refused by validation or at the end of
  the epoch range changes nothing at all.
\<close>

theorem commit_total:
  assumes "version_reachable L (st, sh, h)" "commit_inputs ws fine"
  shows "case commit_versions L ws fine read_epoch accepted st sh of
      None \<Rightarrow> False
    | Some (None, st', sh') \<Rightarrow>
        commit_epoch st' = commit_epoch st + 1 \<and> pins sh' = pins sh \<and> index_ok L (vs_index st') \<and>
        hb_used (vs_budget sh') \<le> hb_limit (vs_budget sh') \<and>
        (\<forall>k \<in> set (map fst (writes ws)). \<exists>s. stamp k (vs_index st') = Some s \<and> commit_epoch st' \<le> stamp_epoch s)
    | Some (Some e, st', sh') \<Rightarrow>
        commit_epoch st' = commit_epoch st \<and> vs_pin st' = vs_pin st \<and> pins sh' = pins sh \<and> index_ok L (vs_index st') \<and>
        hb_used (vs_budget sh') \<le> hb_limit (vs_budget sh') \<and>
        only_reclaimed (reclaim_watermark st sh) (vs_index st) (vs_index st') \<and>
        (\<forall>ws' r. pinned r (pins sh) \<and> history_floor (vs_index st) \<le> r \<longrightarrow>
           validate_version_writes st' ws' r = validate_version_writes st ws' r) \<and>
        (e = IndexBudgetExhausted \<or> e = HistoryBudgetExhausted \<or> e = NotAccepted \<or> st' = st \<and> sh' = sh)"
proof -
  have inv: "store_inv L st sh h" by (rule reachable_inv [OF assms(1)])
  note spec = commit_versions_spec [OF inv assms(2), of read_epoch accepted]
  obtain err st' sh' where c: "commit_versions L ws fine read_epoch accepted st sh = Some (err, st', sh')"
    using spec by (cases "commit_versions L ws fine read_epoch accepted st sh") auto
  show ?thesis
  proof (cases err)
    case (Some e)
    from spec [unfolded c Some option.case prod.case]
    have kept: "store_kept L st sh h st' sh'"
      and e: "e = IndexBudgetExhausted \<or> e = HistoryBudgetExhausted \<or> e = NotAccepted \<or> st' = st \<and> sh' = sh" by blast+
    note K = store_keptD [OF kept] and D = store_invD [OF store_keptD(1) [OF kept]]
    have "\<forall>ws' r. pinned r (pins sh) \<and> history_floor (vs_index st) \<le> r \<longrightarrow>
        validate_version_writes st' ws' r = validate_version_writes st ws' r"
      using kept_validation [OF kept store_invD(4) [OF inv]] by blast
    with K D(2,3) e show ?thesis unfolding c Some option.case prod.case by (simp add: budget_ok_def)
  next
    case None
    let ?en = "commit_entry_of (commit_epoch st') ws fine"
    from spec [unfolded c None option.case prod.case]
    have r: "store_inv L st' sh' (?en # h)" "commit_epoch st' = commit_epoch st + 1" "pins sh' = pins sh"
      "history_floor (vs_index st') \<le> commit_epoch st"
      by (blast, simp, blast, blast)
    note D = store_invD [OF r(1)]
    have "\<exists>s. stamp k (vs_index st') = Some s \<and> commit_epoch st' \<le> stamp_epoch s" if k: "k \<in> set (map fst (writes ws))" for k
    proof -
      have "plain k" "invalidates ?en k" using entry_keys [OF assms(2) k] by simp_all
      with plain_recorded [OF D(6), of ?en k] r(2,4) show ?thesis by (auto simp: commit_entry_of_def)
    qed
    with r(2,3) D(2,3) show ?thesis unfolding c None by (simp add: budget_ok_def)
  qed
qed

section \<open>A concrete run\<close>

text \<open>A store at epoch 5 with one registered snapshot, and the store after a commit that wrote node 1.\<close>

definition demo_node :: "64 word \<Rightarrow> version_write_set" where
  "demo_node n = \<lparr> writes = [(VGraphNode n, Live)], ws_max_entries = 9, ws_max_bytes = 1000, ws_bytes = 73 \<rparr>"

definition demo_store :: version_store where
  "demo_store = \<lparr> commit_epoch = 5, vs_index = \<lparr> history_floor = 0, database_barrier = None, read_barrier = None, stamps = cow_empty,
     vi_bytes = 176, vi_max_bytes = 1000 \<rparr>, vs_pin = None \<rparr>"

definition demo_shared :: "snapshot_pins \<Rightarrow> nat \<Rightarrow> version_shared" where
  "demo_shared ps used = \<lparr> pins = ps, vs_budget = \<lparr> hb_used = used, hb_limit = 1000 \<rparr>, read_summary_collapses = 0 \<rparr>"

definition demo_committed :: version_store where
  "demo_committed = \<lparr> commit_epoch = 6, vs_index = \<lparr> history_floor = 5, database_barrier = Some \<lparr> stamp_epoch = 5, stamp_disposition = Live \<rparr>,
     read_barrier = None, stamps = \<lparr> segments = [\<lparr> entries = [(VGraphNode 1, \<lparr> stamp_epoch = 6, stamp_disposition = Live \<rparr>)],
       page_bytes = None, epoch_bounds = None, history_lease = Some 88, page_shared = False \<rparr>], map_len = 1, delta_pressure = 0 \<rparr>,
     vi_bytes = 264, vi_max_bytes = 1000 \<rparr>, vs_pin = None \<rparr>"

lemmas demo_eval = commit_versions_def next_commit_epoch_def validate_read_epoch_def publish_versions_def stage_for_commit_def stage_fine_def stage_version_index_def oldest_epoch_def demo_store_def
  demo_shared_def demo_node_def demo_committed_def u64_max_def usize_max_def read_baseline_def Let_def apply_database_barrier_def
  insert_stamp_def admits_def is_barrier_key_def cow_contains_def cow_get_def segment_index_def cow_empty_def checked_add_def stage_def
  touched_pages_def List.map_filter_simps version_page_for_key_def preflight_def budget_reserve_def charge_index_def cow_clone_def
  apply_prepared_def cow_insert_def sat_add_def page_of_def payload_bytes_def admitted_weight_def lease_split_def refund_def lease_drop_def

lemma demo_commit:
  "commit_versions demo_vlayout (demo_node 1) (Some (demo_node 1)) None True demo_store (demo_shared [(5, 1)] 0) =
     Some (None, demo_committed, demo_shared [(5, 1)] 88)"
  by (simp add: demo_eval cong: if_cong)

lemma demo_refused:
  "\<exists>st' sh'. commit_versions demo_vlayout (demo_node 1) (Some (demo_node 1)) None False demo_store (demo_shared [(5, 1)] 0) =
     Some (Some NotAccepted, st', sh')"
  by (simp add: demo_eval cong: if_cong)

lemma demo_inputs: "commit_inputs (demo_node n) (Some (demo_node n))"
  by (simp add: commit_inputs_def demo_node_def plain_def)

lemma demo_start: "version_reachable demo_vlayout (demo_store, demo_shared [] 0, [])"
  unfolding demo_store_def demo_shared_def
  by (rule version_reachable.start [where max_bytes = 1000 and max_history = 1000, OF demo_layout_ok])
    (simp_all add: usize_max_def u64_max_def with_history_limit_def budget_new_def)

lemma demo_snapshot:
  "\<exists>snap. snapshot demo_store (demo_shared [] 0) = (snap, demo_store, demo_shared [(5, 1)] 0)"
  by (simp add: snapshot_def snapshot_with_history_def Let_def pin_def demo_store_def demo_shared_def cow_clone_def cow_empty_def)

lemma demo_run:
  "version_step demo_vlayout (demo_store, demo_shared [(5, 1)] 0, []) (demo_committed, demo_shared [(5, 1)] 88, [(6, [VGraphNode 1], False)])"
  using version_step.commit [OF demo_inputs demo_commit, of "[]"] by (simp add: demo_committed_def demo_node_def commit_entry_of_def)

lemma demo_reached: "version_reachable demo_vlayout (demo_committed, demo_shared [(5, 1)] 88, [(6, [VGraphNode 1], False)])"
  using version_reachable.step [OF version_reachable.step [OF demo_start version_step.snapshot] demo_run] demo_snapshot by blast

lemma demo_keys: "validated_keys (demo_node n) = {VDatabase, VSchema, VGraphNode n}"
  by (simp add: validated_keys_def demo_node_def)

lemma demo_valid: "validate_version_writes demo_committed (demo_node 2) 5 = Inr ()"
  by (simp add: validate_version_writes_def first_conflict_def demo_committed_def demo_node_def stamp_def cow_get_def segment_index_def
    ws_contains_def bt_contains_def version_key_cmp_def cmp_lin_def)

lemma demo_second:
  "\<exists>st sh. commit_versions demo_vlayout (demo_node 2) (Some (demo_node 2)) (Some 5) True demo_committed (demo_shared [(5, 1)] 88) = Some (None, st, sh)"
proof -
  note D = store_invD [OF reachable_inv [OF demo_reached]]
  have ks: "bt_sorted version_key_cmp (writes (demo_node 2))" by (simp add: demo_node_def)
  have fresh: "cow_contains version_key_cmp (VGraphNode 2) (stamps (vs_index demo_committed)) = False"
    by (simp add: demo_committed_def cow_contains_def cow_get_def segment_index_def version_key_cmp_def cmp_lin_def)
  then have new: "new_bytes demo_vlayout (stamps (vs_index demo_committed)) (map fst (writes (demo_node 2))) = 88"
    by (simp add: demo_node_def is_barrier_key_def)
  then have credit: "stage_credit demo_vlayout (vs_index demo_committed) (map fst (writes (demo_node 2))) = 176"
    by (simp add: stage_credit_def touched_pages_def demo_node_def List.map_filter_simps is_barrier_key_def version_page_for_key_def)
      (simp add: demo_committed_def segment_index_def page_uncharged_def)
  have adm: "admits demo_vlayout (vs_index demo_committed) (demo_node 2)"
    using new D(2) by (simp add: admits_iff index_ok_def) (simp add: demo_committed_def)
  let ?sh = "demo_shared [(5, 1)] 88"
  have "\<exists>self nw b. stage demo_vlayout (vs_budget ?sh) (vs_index demo_committed) (demo_node 2) 7 = Staged self nw b"
    unfolding stage_eq [OF D(1,2) ks] new credit by (simp add: demo_committed_def demo_shared_def granted_def usize_max_def)
  then obtain self nw b where st: "stage demo_vlayout (vs_budget ?sh) (vs_index demo_committed) (demo_node 2) 7 = Staged self nw b" by blast
  have e: "commit_epoch demo_committed = 6" "oldest_epoch (pins ?sh) = Some 5"
    by (simp_all add: demo_committed_def demo_shared_def oldest_epoch_def)
  have "stage_for_commit demo_vlayout (demo_node 2) (Some (demo_node 2)) (commit_epoch demo_committed + 1) demo_committed ?sh =
      Some (None, demo_committed\<lparr>vs_index := self\<rparr>, nw, False, ?sh\<lparr>vs_budget := b\<rparr>)"
    using adm st e by (simp add: stage_for_commit_def stage_fine_def stage_version_index_def del: One_nat_def)
  then show ?thesis using demo_valid e(1) by (simp add: commit_versions_def next_commit_epoch_def validate_read_epoch_def publish_versions_def u64_max_def
      del: One_nat_def map_option_eq_Some)
qed

theorem first_committer_wins_witness:
  "\<exists>st' sh'. commit_versions demo_vlayout (demo_node 2) (Some (demo_node 2)) (Some 5) True demo_committed (demo_shared [(5, 1)] 88) =
       Some (None, st', sh') \<and> \<not> invalidates (6, [VGraphNode 1], False) (VGraphNode 2) \<and>
     \<not> invalidates (6, [VGraphNode 1], False) VDatabase"
proof -
  obtain st' sh' where c: "commit_versions demo_vlayout (demo_node 2) (Some (demo_node 2)) (Some 5) True demo_committed
      (demo_shared [(5, 1)] 88) = Some (None, st', sh')" using demo_second by blast
  have "writes (demo_node 2) \<noteq> []" by (simp add: demo_node_def)
  from first_committer_wins [OF demo_reached demo_inputs this c]
  have "\<not> invalidates (6, [VGraphNode 1], False) (VGraphNode 2) \<and> \<not> invalidates (6, [VGraphNode 1], False) VDatabase"
    by (simp add: demo_keys)
  with c show ?thesis by blast
qed

theorem registered_snapshot_exact_witness:
  "validate_version_writes demo_committed (demo_node 2) 5 = Inr () \<and> validate_version_writes demo_committed (demo_node 1) 5 \<noteq> Inr ()"
proof -
  obtain snap where snap: "snapshot demo_store (demo_shared [] 0) = (snap, demo_store, demo_shared [(5, 1)] 0)" using demo_snapshot by blast
  have facts: "vs_pin demo_store = None" "commit_epoch demo_store = 5" "commit_epoch demo_committed = 6"
    by (simp_all add: demo_store_def demo_committed_def)
  have run: "(pinned_step demo_vlayout (commit_epoch demo_store))\<^sup>*\<^sup>* (demo_store, demo_shared [(5, 1)] 0, [])
      (demo_committed, demo_shared [(5, 1)] 88, [(6, [VGraphNode 1], False)])"
    using demo_run by (intro r_into_rtranclp) (simp add: pinned_step_def facts(2) pinned_def demo_shared_def cmp_lin_def)
  have ws: "writes (demo_node n) \<noteq> []" "list_all plain (map fst (writes (demo_node n)))" for n by (simp_all add: demo_node_def plain_def)
  have no: "\<not> ws_contains VDatabase (demo_node n)" "\<not> ws_contains VSchema (demo_node n)" for n
    by (simp_all add: ws_contains_def bt_contains_def demo_node_def version_key_cmp_def cmp_lin_def)
  from registered_snapshot_exact [OF demo_start facts(1) snap run ws, of 2] registered_snapshot_exact [OF demo_start facts(1) snap run ws, of 1]
  show ?thesis by (simp add: facts demo_keys no wrote_def version_key_cmp_def cmp_lin_def)
qed

theorem commit_total_witness:
  "(\<exists>s. stamp (VGraphNode 1) (vs_index demo_committed) = Some s \<and> 6 \<le> stamp_epoch s) \<and>
   (\<exists>st' sh'. commit_versions demo_vlayout (demo_node 1) (Some (demo_node 1)) None False demo_store (demo_shared [(5, 1)] 0) =
        Some (Some NotAccepted, st', sh') \<and>
      commit_epoch st' = 5 \<and> pins sh' = [(5, 1)] \<and> only_reclaimed 5 (vs_index demo_store) (vs_index st'))"
proof -
  have "version_reachable demo_vlayout (demo_store, demo_shared [(5, 1)] 0, [])"
    using version_reachable.step [OF demo_start version_step.snapshot] demo_snapshot by blast
  note total = commit_total [OF this demo_inputs, of 1 None]
  from total [of True] have "\<exists>s. stamp (VGraphNode 1) (vs_index demo_committed) = Some s \<and> 6 \<le> stamp_epoch s"
    unfolding demo_commit by (simp add: demo_node_def demo_committed_def)
  moreover obtain st' sh' where c: "commit_versions demo_vlayout (demo_node 1) (Some (demo_node 1)) None False demo_store
      (demo_shared [(5, 1)] 0) = Some (Some NotAccepted, st', sh')"
    using demo_refused by blast
  have "reclaim_watermark demo_store (demo_shared [(5, 1)] 0) = 5"
    by (simp add: reclaim_watermark_def oldest_epoch_def demo_shared_def)
  with total [of False, unfolded c option.case prod.case]
  have "commit_epoch st' = 5 \<and> pins sh' = [(5, 1)] \<and> only_reclaimed 5 (vs_index demo_store) (vs_index st')"
    by (simp add: demo_store_def demo_shared_def)
  ultimately show ?thesis using c by blast
qed

end
