(* ===== verification/Read_Dependencies.thy ===== *)
theory Read_Dependencies
  imports Version_Validation
begin

text \<open>
  Read dependencies (\<open>crates/storage/src/store/read_dependencies.rs\<close>): a bounded set of identities that a
  query relied on, captured from the canonical store with a pin on its epoch, and validated later under
  canonical ownership. Read summaries stand for domains (all nodes of a label, all rows of a table, an
  index prefix); a commit stamps those it changes, or the read barrier when they do not fit. Theorem: a
  dependency set that validates has seen no later commit that changes anything it guards.
\<close>

section \<open>Capture and recording\<close>

text \<open>The counter of live captures is shared by pointer; its identity is \<open>registry_id\<close>.\<close>

record reader_registry =
  registry_id :: nat
  reader_count :: nat

record read_dependencies =
  source_epoch :: nat
  dep_keys :: version_write_set
  refused :: bool
  dep_registry :: nat
  dep_pin :: snapshot_pin

datatype capture_error = StoreUnusable | NotCanonical | CapacityExhausted

definition capture_read_dependencies ::
    "bool \<Rightarrow> version_store \<Rightarrow> version_shared \<Rightarrow> reader_registry \<Rightarrow> nat \<Rightarrow> nat \<Rightarrow>
     capture_error + read_dependencies \<times> version_shared \<times> reader_registry" where
  "capture_read_dependencies usable st sh reg max_entries max_bytes =
     (if \<not> usable then Inl StoreUnusable
      else if vs_pin st \<noteq> None then Inl NotCanonical
      else if reader_count reg = usize_max then Inl CapacityExhausted
      else let (p, ps) = pin (commit_epoch st) (pins sh)
           in Inr (\<lparr> source_epoch = commit_epoch st, dep_keys = ws_with_limits max_entries max_bytes, refused = False,
                     dep_registry = registry_id reg, dep_pin = p \<rparr>,
                   sh\<lparr>pins := ps\<rparr>, reg\<lparr>reader_count := reader_count reg + 1\<rparr>))"

text \<open>Dropping a capture releases its pin; the counter wraps, which a live capture excludes.\<close>

definition drop_dependencies ::
    "read_dependencies \<Rightarrow> version_shared \<Rightarrow> reader_registry \<Rightarrow> (version_shared \<times> reader_registry) option" where
  "drop_dependencies deps sh reg =
     map_option (\<lambda>ps. (sh\<lparr>pins := ps\<rparr>,
         reg\<lparr>reader_count := (if reader_count reg = 0 then usize_max else reader_count reg - 1)\<rparr>))
       (drop_pin (dep_pin deps) (pins sh))"

definition tracks_read_dependencies :: "version_store \<Rightarrow> reader_registry \<Rightarrow> bool" where
  "tracks_read_dependencies st reg \<longleftrightarrow> vs_pin st = None \<and> 0 < reader_count reg"

fun covering_scope :: "version_key \<Rightarrow> version_key option" where
  "covering_scope (VRelationalRow table _) = Some (VReadRelationalTableDomain table)"
| "covering_scope (VReadRelationalIndexPrefix table _ _) = Some (VReadRelationalTableDomain table)"
| "covering_scope (VReadNodeProperty label _ _) = Some (VReadNodeDomain (Some label))"
| "covering_scope _ = None"

definition record_dependency ::
    "version_layout \<Rightarrow> version_key \<Rightarrow> read_dependencies \<Rightarrow> (write_set_error + unit) \<times> read_dependencies" where
  "record_dependency L k deps =
     (if \<not> refused deps \<and> ws_contains VDatabase (dep_keys deps) then (Inr (), deps)
      else if \<not> refused deps \<and> (case covering_scope k of None \<Rightarrow> False | Some scope \<Rightarrow> ws_contains scope (dep_keys deps)) then (Inr (), deps)
      else case record_live L k (dep_keys deps) of
        Inl e \<Rightarrow> (Inl e, deps\<lparr>refused := True\<rparr>)
      | Inr ws \<Rightarrow> (Inr (), deps\<lparr>dep_keys := ws\<rparr>))"

definition requires_unchanged_database_epoch :: "read_dependencies \<Rightarrow> bool" where
  "requires_unchanged_database_epoch deps \<longleftrightarrow> ws_contains VDatabase (dep_keys deps)"

definition is_node_domain :: "version_key \<Rightarrow> bool" where
  "is_node_domain k \<longleftrightarrow> (case k of VReadNodeDomain _ \<Rightarrow> True | _ \<Rightarrow> False)"

definition is_relationship_domain :: "version_key \<Rightarrow> bool" where
  "is_relationship_domain k \<longleftrightarrow> (case k of VReadRelationshipDomain _ \<Rightarrow> True | _ \<Rightarrow> False)"

definition domain_covers :: "bytes option \<Rightarrow> bytes \<Rightarrow> bool" where
  "domain_covers domain name \<longleftrightarrow> (case domain of None \<Rightarrow> True | Some d \<Rightarrow> name \<noteq> [] \<and> d = name)"

definition covers_node_domain :: "read_dependencies \<Rightarrow> bytes \<Rightarrow> bool" where
  "covers_node_domain deps label \<longleftrightarrow>
     \<not> refused deps \<and>
     (ws_contains VDatabase (dep_keys deps) \<or>
      list_ex (\<lambda>k. case k of VReadNodeDomain d \<Rightarrow> domain_covers d label | _ \<Rightarrow> False)
        (takeWhile is_node_domain (ws_keys_from (VReadNodeDomain None) (dep_keys deps))))"

definition covers_relationship_domain :: "read_dependencies \<Rightarrow> bytes \<Rightarrow> bool" where
  "covers_relationship_domain deps kind \<longleftrightarrow>
     \<not> refused deps \<and>
     (ws_contains VDatabase (dep_keys deps) \<or>
      list_ex (\<lambda>k. case k of VReadRelationshipDomain d \<Rightarrow> domain_covers d kind | _ \<Rightarrow> False)
        (takeWhile is_relationship_domain (ws_keys_from (VReadRelationshipDomain None) (dep_keys deps))))"

section \<open>Validation\<close>

datatype read_dependency_error = SourceChanged | CaptureRefused | DependencyConflict version_conflict | SourceUnavailable

fun dependency_scan :: "version_index \<Rightarrow> nat \<Rightarrow> version_key list \<Rightarrow> read_dependency_error + unit" where
  "dependency_scan vi epoch [] = Inr ()"
| "dependency_scan vi epoch (k # ks) =
     (case stamp k vi of
        None \<Rightarrow> dependency_scan vi epoch ks
      | Some s \<Rightarrow>
          if epoch < stamp_epoch s then Inl (DependencyConflict \<lparr> conflict_key = k, committed_epoch = stamp_epoch s \<rparr>)
          else dependency_scan vi epoch ks)"

definition validate_read_dependencies_inner ::
    "bool \<Rightarrow> version_store \<Rightarrow> reader_registry \<Rightarrow> read_dependencies \<Rightarrow> read_dependency_error + unit" where
  "validate_read_dependencies_inner usable st reg deps =
     (if \<not> usable then Inl SourceUnavailable
      else if vs_pin st \<noteq> None \<or> registry_id reg \<noteq> dep_registry deps \<or> commit_epoch st < source_epoch deps then Inl SourceChanged
      else if refused deps then Inl CaptureRefused
      else if ws_contains VDatabase (dep_keys deps) \<and> commit_epoch st \<noteq> source_epoch deps then
        Inl (DependencyConflict \<lparr> conflict_key = VDatabase, committed_epoch = commit_epoch st \<rparr>)
      else let ks = map fst (writes (dep_keys deps))
           in dependency_scan (vs_index st) (source_epoch deps)
                (ks @ [VDatabase, VSchema] @ (if list_ex is_read_summary_key ks then [VReadBarrier] else [])))"

record validation_failures =
  vf_read_barrier :: nat
  vf_database :: nat
  vf_domain :: nat
  vf_exact :: nat
  vf_schema :: nat
  vf_source_changed :: nat
  vf_capture_refused :: nat
  vf_unavailable :: nat

definition bump :: "nat \<Rightarrow> nat" where
  "bump n = min (n + 1) u64_max"

definition record_failure :: "read_dependency_error \<Rightarrow> validation_failures \<Rightarrow> validation_failures" where
  "record_failure e f =
     (case e of
        DependencyConflict c \<Rightarrow>
          if conflict_key c = VReadBarrier then f\<lparr>vf_read_barrier := bump (vf_read_barrier f)\<rparr>
          else if conflict_key c = VDatabase then f\<lparr>vf_database := bump (vf_database f)\<rparr>
          else if is_read_summary_key (conflict_key c) then f\<lparr>vf_domain := bump (vf_domain f)\<rparr>
          else if conflict_key c = VSchema then f\<lparr>vf_schema := bump (vf_schema f)\<rparr>
          else f\<lparr>vf_exact := bump (vf_exact f)\<rparr>
      | SourceChanged \<Rightarrow> f\<lparr>vf_source_changed := bump (vf_source_changed f)\<rparr>
      | CaptureRefused \<Rightarrow> f\<lparr>vf_capture_refused := bump (vf_capture_refused f)\<rparr>
      | SourceUnavailable \<Rightarrow> f\<lparr>vf_unavailable := bump (vf_unavailable f)\<rparr>)"

definition validate_read_dependencies ::
    "bool \<Rightarrow> version_store \<Rightarrow> reader_registry \<Rightarrow> read_dependencies \<Rightarrow> validation_failures \<Rightarrow>
     (read_dependency_error + unit) \<times> validation_failures" where
  "validate_read_dependencies usable st reg deps f =
     (let result = validate_read_dependencies_inner usable st reg deps
      in (result, case result of Inl e \<Rightarrow> record_failure e f | Inr _ \<Rightarrow> f))"

section \<open>What a capture guards\<close>

definition dep_run :: "version_layout \<Rightarrow> version_key list \<Rightarrow> read_dependencies \<Rightarrow> read_dependencies" where
  "dep_run L ks deps = foldl (\<lambda>d k. snd (record_dependency L k d)) deps ks"

text \<open>A key is guarded by itself, by the scope that covers it, or by the whole database.\<close>

definition guarded :: "read_dependencies \<Rightarrow> version_key \<Rightarrow> bool" where
  "guarded deps k \<longleftrightarrow>
     ws_contains k (dep_keys deps) \<or> ws_contains VDatabase (dep_keys deps) \<or>
     (case covering_scope k of None \<Rightarrow> False | Some scope \<Rightarrow> ws_contains scope (dep_keys deps))"

definition dep_ok :: "version_layout \<Rightarrow> read_dependencies \<Rightarrow> bool" where
  "dep_ok L deps \<longleftrightarrow> ws_ok L (dep_keys deps)"

lemma record_dependency_spec:
  assumes "dep_ok L deps" "snd (record_dependency L k deps) = deps'"
  shows "dep_ok L deps'" "refused deps \<Longrightarrow> refused deps'" "\<not> refused deps' \<Longrightarrow> guarded deps' k"
    "ws_contains k' (dep_keys deps) \<Longrightarrow> ws_contains k' (dep_keys deps')"
    "source_epoch deps' = source_epoch deps" "dep_registry deps' = dep_registry deps"
proof -
  consider "\<not> refused deps" "guarded deps k" "record_dependency L k deps = (Inr (), deps)"
    | e where "record_dependency L k deps = (Inl e, deps\<lparr>refused := True\<rparr>)"
    | ws where "record_live L k (dep_keys deps) = Inr ws" "record_dependency L k deps = (Inr (), deps\<lparr>dep_keys := ws\<rparr>)"
  proof (cases "\<not> refused deps \<and> (ws_contains VDatabase (dep_keys deps) \<or>
      (case covering_scope k of None \<Rightarrow> False | Some scope \<Rightarrow> ws_contains scope (dep_keys deps)))")
    case True
    then have "guarded deps k" "record_dependency L k deps = (Inr (), deps)" by (auto simp: guarded_def record_dependency_def)
    with True that(1) show thesis by blast
  next
    case False
    then have "record_dependency L k deps = (case record_live L k (dep_keys deps) of
        Inl e \<Rightarrow> (Inl e, deps\<lparr>refused := True\<rparr>) | Inr ws \<Rightarrow> (Inr (), deps\<lparr>dep_keys := ws\<rparr>))"
      unfolding record_dependency_def by argo
    with that(2,3) show thesis by (cases "record_live L k (dep_keys deps)") simp_all
  qed
  then have "dep_ok L deps' \<and> (refused deps \<longrightarrow> refused deps') \<and> (\<not> refused deps' \<longrightarrow> guarded deps' k) \<and>
      (ws_contains k' (dep_keys deps) \<longrightarrow> ws_contains k' (dep_keys deps')) \<and>
      source_epoch deps' = source_epoch deps \<and> dep_registry deps' = dep_registry deps"
  proof cases
    case (3 ws)
    note r = ws_record_ok [OF assms(1) [unfolded dep_ok_def] 3(1) [unfolded record_live_def]]
    from 3(2) r(1) r(4) [of k] r(4) [of k'] show ?thesis
      unfolding assms(2) [symmetric] by (simp add: dep_ok_def guarded_def ws_contains_def bt_contains_def version_key_cmp_refl)
  qed (use assms in \<open>auto simp: dep_ok_def\<close>)
  then show "dep_ok L deps'" "refused deps \<Longrightarrow> refused deps'" "\<not> refused deps' \<Longrightarrow> guarded deps' k"
    "ws_contains k' (dep_keys deps) \<Longrightarrow> ws_contains k' (dep_keys deps')"
    "source_epoch deps' = source_epoch deps" "dep_registry deps' = dep_registry deps" by blast+
qed

lemma guarded_mono: "(\<And>g. ws_contains g (dep_keys d) \<Longrightarrow> ws_contains g (dep_keys d')) \<Longrightarrow> guarded d k \<Longrightarrow> guarded d' k"
  by (auto simp: guarded_def split: option.splits)

lemma dep_run_spec:
  assumes "dep_ok L deps"
  shows "dep_ok L (dep_run L ks deps) \<and> (refused deps \<longrightarrow> refused (dep_run L ks deps)) \<and>
    (\<not> refused (dep_run L ks deps) \<longrightarrow> (\<forall>k \<in> set ks. guarded (dep_run L ks deps) k)) \<and>
    (\<forall>g. ws_contains g (dep_keys deps) \<longrightarrow> ws_contains g (dep_keys (dep_run L ks deps))) \<and>
    source_epoch (dep_run L ks deps) = source_epoch deps"
  using assms
proof (induction ks arbitrary: deps)
  case (Cons k ks)
  let ?d = "snd (record_dependency L k deps)"
  note r = record_dependency_spec [OF Cons.prems refl, where k = k]
  have run: "dep_run L (k # ks) deps = dep_run L ks ?d" by (simp add: dep_run_def)
  note IH = Cons.IH [OF r(1)]
  have "guarded (dep_run L ks ?d) k" if "\<not> refused (dep_run L ks ?d)"
    using guarded_mono [of ?d "dep_run L ks ?d" k] IH r(3) that by blast
  then show ?case unfolding run using IH r by auto
qed (simp add: dep_run_def)

section \<open>Soundness\<close>

lemma dependency_scan_ok:
  "dependency_scan vi epoch ks = Inr () \<longleftrightarrow> (\<forall>k \<in> set ks. \<forall>s. stamp k vi = Some s \<longrightarrow> stamp_epoch s \<le> epoch)"
  by (induction ks) (auto split: option.split)

lemma invalidates_cong: "version_key_cmp k k' = Equal \<Longrightarrow> invalidates en k \<longleftrightarrow> invalidates en k'"
  by (cases en) (simp add: invalidates_def wrote_def vkey_ord.cmp_Equal_left [of k k'] version_key_Equal_kind(1) [of k k'])

lemma contains_key:
  assumes "ws_contains k ws"
  obtains k' where "k' \<in> set (map fst (writes ws))" "version_key_cmp k k' = Equal"
  using assms bt_get_SomeD [of version_key_cmp k "writes ws"] by (force simp: ws_contains_def bt_contains_def)

lemma dependencies_safe:
  assumes h: "history_ok h (commit_epoch st) (vs_index st)" "history_floor (vs_index st) \<le> source_epoch deps"
    and v: "validate_read_dependencies_inner usable st reg deps = Inr ()"
    and en: "en \<in> set h" "source_epoch deps < fst en"
    and k: "ws_contains k (dep_keys deps) \<or> k = VDatabase \<or> k = VSchema" "k \<noteq> VReadBarrier"
  shows "\<not> invalidates en k"
proof
  assume inv: "invalidates en k"
  let ?ks = "map fst (writes (dep_keys deps))"
  let ?all = "?ks @ [VDatabase, VSchema] @ (if list_ex is_read_summary_key ?ks then [VReadBarrier] else [])"
  obtain k' where k': "k' \<in> set (?ks @ [VDatabase, VSchema])" "version_key_cmp k k' = Equal"
    using k(1) contains_key version_key_cmp_refl by (metis Un_iff list.set_intros(1,2) set_append)
  have scan: "\<forall>k \<in> set ?all. \<forall>s. stamp k (vs_index st) = Some s \<longrightarrow> stamp_epoch s \<le> source_epoch deps"
    using v unfolding dependency_scan_ok [symmetric] by (simp add: validate_read_dependencies_inner_def Let_def split: if_splits)
  have "k' \<noteq> VReadBarrier" using k(2) version_key_Equal_kind(4) [OF k'(2)] by simp
  from history_okD(3) [OF h(1) en(1) this] inv have "covered k' (fst en) (vs_index st)" by (simp add: invalidates_cong [OF k'(2)])
  then consider s where "stamp k' (vs_index st) = Some s" "fst en \<le> stamp_epoch s"
    | s where "is_read_summary_key k'" "stamp VReadBarrier (vs_index st) = Some s" "fst en \<le> stamp_epoch s"
    using h(2) en(2) by (auto simp: covered_def)
  then show False
  proof cases
    case (1 s)
    have "k' \<in> set ?all" using k'(1) by auto
    with scan 1(1) have "stamp_epoch s \<le> source_epoch deps" by blast
    with 1(2) en(2) show False by linarith
  next
    case (2 s)
    then have "VReadBarrier \<in> set ?all" using k'(1) by (auto simp: list_ex_iff)
    with scan 2(2) have "stamp_epoch s \<le> source_epoch deps" by blast
    with 2(3) en(2) show False by linarith
  qed
qed

text \<open>
  C8. Read dependencies are sound. Capture them from a store in any state that can be reached, record any
  identities, and let any steps follow while the capture stays registered. If validation then succeeds,
  every identity that was recorded is guarded (by itself, by the scope that covers it or by the whole
  database), and no commit since the capture changed a guarding identity, the schema or the whole
  database. If the whole database was recorded, no commit happened at all.
\<close>

theorem read_dependencies_sound:
  assumes "version_reachable L (st0, sh0, h0)" "capture_read_dependencies usable st0 sh0 reg0 max_entries max_bytes = Inr (deps0, sh1, reg1)"
    "(pinned_step L (source_epoch deps0))\<^sup>*\<^sup>* (st0, sh1, h0) (st, sh, h)"
    "validate_read_dependencies_inner usable' st reg (dep_run L ks deps0) = Inr ()"
  shows "case dep_run L ks deps0 of deps \<Rightarrow>
    (\<forall>k \<in> set ks. guarded deps k) \<and>
    (\<forall>en \<in> set h. commit_epoch st0 < fst en \<longrightarrow>
       \<not> ws_contains VDatabase (dep_keys deps) \<and>
       (\<forall>k. (ws_contains k (dep_keys deps) \<or> k = VDatabase \<or> k = VSchema) \<and> k \<noteq> VReadBarrier \<longrightarrow> \<not> invalidates en k))"
proof -
  let ?deps = "dep_run L ks deps0"
  have c: "source_epoch deps0 = commit_epoch st0" "dep_keys deps0 = ws_with_limits max_entries max_bytes"
    "sh1 = sh0\<lparr>pins := snd (pin (commit_epoch st0) (pins sh0))\<rparr>"
    using assms(2) by (auto simp: capture_read_dependencies_def pin_def Let_def split: if_splits)
  have "dep_ok L deps0" by (simp add: dep_ok_def c(2) ws_with_limits_def ws_ok_def ws_weight_def)
  note run = dep_run_spec [OF this, of ks]
  have src: "source_epoch ?deps = commit_epoch st0" using run c(1) by simp
  have "version_step L (st0, sh0, h0) (st0, sh1, h0)"
    unfolding c(3) by (rule version_step.register [where epoch = "commit_epoch st0"]) (auto simp: prod_eq_iff)
  then have "version_reachable L (st0, sh1, h0)" by (rule version_reachable.step [OF assms(1)])
  moreover have "history_floor (vs_index st0) \<le> source_epoch deps0"
    using c(1) history_okD(1) [OF store_invD(6) [OF reachable_inv [OF assms(1)]]] by simp
  ultimately have r: "version_reachable L (st, sh, h)" "history_floor (vs_index st) \<le> source_epoch deps0"
    using pinned_run [OF assms(3)] by simp_all
  note h = store_invD(6) [OF reachable_inv [OF r(1)]]
  have v: "\<not> refused ?deps" "ws_contains VDatabase (dep_keys ?deps) \<longrightarrow> commit_epoch st = source_epoch ?deps"
    using assms(4) by (auto simp: validate_read_dependencies_inner_def Let_def split: if_splits)
  have fl: "history_floor (vs_index st) \<le> source_epoch ?deps" using r(2) c(1) src by simp
  have "\<not> invalidates en k"
    if "en \<in> set h" "commit_epoch st0 < fst en" "(ws_contains k (dep_keys ?deps) \<or> k = VDatabase \<or> k = VSchema)" "k \<noteq> VReadBarrier" for en k
    by (rule dependencies_safe [OF h fl assms(4) that(1) _ that(3,4)]) (simp add: src that(2))
  moreover have "\<not> ws_contains VDatabase (dep_keys ?deps)" if "en \<in> set h" "commit_epoch st0 < fst en" for en
    using v(2) src history_okD(2) [OF h that(1)] that(2) by auto
  ultimately show ?thesis using run v(1) by blast
qed

definition demo_registry :: reader_registry where "demo_registry = \<lparr> registry_id = 7, reader_count = 0 \<rparr>"

definition demo_capture :: read_dependencies where
  "demo_capture = \<lparr> source_epoch = 5, dep_keys = ws_with_limits 9 1000, refused = False, dep_registry = 7,
     dep_pin = \<lparr> pin_epoch = 5, registered = True \<rparr> \<rparr>"

theorem read_dependencies_sound_witness:
  "validate_read_dependencies_inner True demo_committed demo_registry (dep_run demo_vlayout [VGraphNode 2] demo_capture) = Inr () \<and>
   guarded (dep_run demo_vlayout [VGraphNode 2] demo_capture) (VGraphNode 2) \<and> \<not> invalidates (6, [VGraphNode 1], False) (VGraphNode 2)"
proof -
  have cap: "capture_read_dependencies True demo_store (demo_shared [] 0) demo_registry 9 1000 =
      Inr (demo_capture, demo_shared [(5, 1)] 0, demo_registry\<lparr>reader_count := 1\<rparr>)"
    by (simp add: capture_read_dependencies_def demo_store_def demo_shared_def demo_registry_def demo_capture_def pin_def usize_max_def)
  have run: "(pinned_step demo_vlayout (source_epoch demo_capture))\<^sup>*\<^sup>* (demo_store, demo_shared [(5, 1)] 0, [])
      (demo_committed, demo_shared [(5, 1)] 88, [(6, [VGraphNode 1], False)])"
    using demo_run by (intro r_into_rtranclp) (simp add: pinned_step_def demo_capture_def pinned_def demo_shared_def cmp_lin_def)
  have deps: "dep_run demo_vlayout [VGraphNode 2] demo_capture = demo_capture\<lparr>dep_keys :=
      \<lparr> writes = [(VGraphNode 2, Live)], ws_max_entries = 9, ws_max_bytes = 1000, ws_bytes = 73 \<rparr>\<rparr>"
    by (simp add: dep_run_def record_dependency_def demo_capture_def ws_contains_def bt_contains_def ws_with_limits_def record_live_def
      ws_record_def checked_add_def usize_max_def)
  have v: "validate_read_dependencies_inner True demo_committed demo_registry (dep_run demo_vlayout [VGraphNode 2] demo_capture) = Inr ()"
    unfolding deps by (simp add: validate_read_dependencies_inner_def demo_committed_def demo_registry_def demo_capture_def ws_contains_def
      bt_contains_def stamp_def cow_get_def segment_index_def version_key_cmp_def cmp_lin_def)
  have key: "ws_contains (VGraphNode 2) (dep_keys (dep_run demo_vlayout [VGraphNode 2] demo_capture))"
    unfolding deps by (simp add: ws_contains_def bt_contains_def version_key_cmp_refl)
  from read_dependencies_sound [OF demo_start cap run v] v key show ?thesis by (simp add: demo_store_def)
qed

end
