(* ===== verification/Spec2Isabelle.thy ===== *)
theory Spec2Isabelle
  imports Lock_Acquire Wal_Checkpoint Wal_Value Decimal_Text Ordered_Key_Decode Read_Dependencies
begin

text \<open>
  Verification of the transaction and storage core of HawDB, an embedded database for graphs and
  relational tables. The paths below are relative to \<open>src/\<close>.

  \<^bold>\<open>The program's parts and how they interact.\<close> A transaction reads from a snapshot of the store
  and collects a set of version keys for what it writes. It takes logical locks from the lock manager
  (\<open>src/api/concurrent/coordinator.rs\<close> over \<open>crates/storage/src/transaction_locks.rs\<close>), whose targets
  are rows and key ranges of relational tables, graph records and the whole database. At commit, the
  store validates the write set against the index of committed versions (\<open>version.rs\<close>), stages a new
  index within the history budget, writes a record to the write-ahead log, and publishes the staged
  index under the next epoch. The index lives in a copy-on-write map (\<open>cow.rs\<close>), so that snapshots
  share its pages. Snapshots pin their epoch; history below the oldest pin is reclaimed. The log frames
  a record into checksummed fragments (\<open>wal/frame.rs\<close>), and recovery reads them back up to a torn
  tail. Relational rows are found by ordered index keys (\<open>relational/ordered_key.rs\<close>), byte strings
  that sort as the keys do; decimals (\<open>crates/core/src/decimal.rs\<close>) take part in them.

  \<^bold>\<open>Conventions.\<close> \<open>usize\<close> and \<open>u64\<close> counters and epochs are naturals whose overflow is written out
  (saturation, checked sums, \<open>usize_max\<close>, \<open>u64_max\<close>); values whose bits matter are words. A fallible
  operation returns \<open>Inl\<close> of an error or \<open>Inr\<close> of a result; a panic is \<open>None\<close> or \<open>Panicked\<close>, and the
  theorems show that it does not occur. \<open>BTreeMap\<close> is an ascending association list over Rust's
  \<open>Ord\<close>, \<open>Arc\<close> is a value with a flag for being shared, and \<open>size_of\<close> is a layout record.

  \<^bold>\<open>Foundations.\<close>
  \<^item> \<open>Prelude\<close>: machine integers, saturating and checked arithmetic, byte strings.
  \<^item> \<open>Rust_Ord\<close>: the contract of \<open>Ord\<close> as the locale \<open>rust_ord\<close>, lexicographic and rank-based orders.
  \<^item> \<open>BTree_Map\<close>: \<open>BTreeMap\<close> and \<open>BTreeSet\<close> over any \<open>Ord\<close>.
  \<^item> \<open>Byte_Codec\<close>: little-endian and big-endian integers, UTF-8 validity.

  \<^bold>\<open>Values.\<close>
  \<^item> \<open>Decimal\<close>, \<open>Decimal_Laws\<close>, \<open>Decimal_Text\<close> model \<open>crates/core/src/decimal.rs\<close>: construction,
    arithmetic, rescaling, the little-endian and the ordered encoding, comparison, printing and parsing.
    The order is the numeric order, equality agrees with it, arithmetic is exact or fails because no
    decimal denotes the result, and the printed form is parsed back.
  \<^item> \<open>Relational_Value\<close> models the scalars and keys of \<open>crates/storage/src/relational.rs\<close>, the overflow
    reference and the timestamp precision; \<open>Graph_Value\<close> models \<open>crates/core/src/value.rs\<close> and
    \<open>logical_type.rs\<close>. Their orders meet the contract of \<open>Ord\<close>, the borrowed view of a value agrees
    with the value, and the logical types accept what they promise.
  \<^item> \<open>Ordered_Key\<close> and \<open>Ordered_Key_Decode\<close> model \<open>relational/ordered_key.rs\<close> and its encoder: one
    grammar over five sinks. Byte order is key order, the decoder inverts the encoder, the sinks agree,
    the prefix scan finds the value boundaries, and decoding into a reused buffer changes nothing.

  \<^bold>\<open>Locks.\<close>
  \<^item> \<open>Lock_Target\<close>, \<open>Lock_Table\<close> and \<open>Lock_Wait\<close> model \<open>transaction_locks.rs\<close>: covering, overlap and
    conflict of targets against the set of resources they stand for (covering implies inclusion, and
    is inclusion for closed nonempty ranges; overlap is never missed); granting, escalation, release and
    savepoints; the wait queue, the breadth-first deadlock check and the wait-for graph.
  \<^item> \<open>Lock_Manager\<close> models the \<open>LockManager\<close> of \<open>coordinator.rs\<close>. A critical section is one step of
    the relation \<open>lm_step\<close>, and \<open>lm_reachable\<close> are the states of any interleaving. In all of them
    conflicting locks are never held together, the waits-for relation is acyclic, some waiter can
    proceed, and the memory accounting is exact.
  \<^item> \<open>Lock_Acquire\<close> puts the rounds of an acquisition together into \<open>LockManager::acquire\<close>: the loop
    over the sorted requests and, for each, the loop of waits. What other transactions do during a
    wait, and how it ends, is the argument \<open>wakes\<close>, under the hypothesis that only steps of other
    transactions are taken. A success covers all requests, and every exit leaves the queue.

  \<^bold>\<open>Log.\<close>
  \<^item> \<open>Wire\<close> models \<open>wire.rs\<close>: varints, tags, field bodies and the skipping of unknown fields.
  \<^item> \<open>Wal_Frame\<close> and \<open>Wal_Log\<close> model \<open>wal/frame.rs\<close>. What was framed is read back; a log cut at any
    byte gives the complete records before the cut; a fragment with a wrong checksum ends the log, in
    the middle of a record as well; over arbitrary bytes and failing sources the reader returns, and
    what it reports has valid checksums.
  \<^item> \<open>Wal_Value\<close> models the value messages of a record's payload (\<open>wal/binary.rs\<close>,
    \<open>wal/binary/value_decode.rs\<close>) with the payloads of temporal values
    (\<open>crates/core/src/temporal/codec.rs\<close>) and the limits of stored values (\<open>canonical.rs\<close>): a value
    within the limits is decoded to itself.
  \<^item> \<open>Wal_Checkpoint\<close> models the fragment stream of \<open>wal/frame/checkpoint.rs\<close>, equivalent to the framing
    in one buffer.

  \<^bold>\<open>Versions.\<close>
  \<^item> \<open>Cow_Map\<close> models \<open>cow.rs\<close> and \<open>cow/page.rs\<close>: the segmented map refines one ordered map.
  \<^item> \<open>Version_Key\<close>, \<open>Version_Pages\<close>, \<open>Version_Index\<close> and \<open>Version_Prune\<close> model \<open>version.rs\<close>,
    \<open>version/history_budget.rs\<close> and \<open>cow/version_pages.rs\<close>: version keys and write sets, the credit of
    pages, staging, read summaries with their barrier, and pruning. Nothing panics, the credit is
    exact, and the stamps after an operation are the ones they should be.
  \<^item> \<open>Version_Store\<close> models the version side of the store (\<open>store.rs\<close>, \<open>store/graph_commit.rs\<close>,
    \<open>store/graph_checkpoint.rs\<close>, \<open>store/relational_index_shadow.rs\<close>): pins, snapshots, reclaiming,
    validation and commits. \<open>Version_Validation\<close> interleaves these in the relation \<open>version_step\<close>,
    with a history of commits that the code does not keep, and shows that the first committer wins,
    that a registered snapshot is judged exactly, and that a commit never panics and, when it fails,
    has at most reclaimed history below the oldest pin.
  \<^item> \<open>Read_Dependencies\<close> models \<open>store/read_dependencies.rs\<close>: a dependency set that validates has seen no
    later commit that changes what it guards.

  \<^bold>\<open>Parameters.\<close> The checksum of the crate \<open>crc32c\<close> is an argument of the framing; no law about it is
  assumed. The byte source of a log reader is an argument under the contract of \<open>Read\<close> (locale
  \<open>byte_reader\<close>). The work context of background work is an argument of encoders and of the
  checkpoint stream, and the ranges of chrono's types are arguments of the decoders. The outcome of the parts of a commit beside its versions, and the read summaries
  it brings along, are arguments of the commit.

  \<^bold>\<open>Bounds and fuel.\<close> The depth-first search of the wait-for graph takes the number of owners as fuel,
  which bounds the length of a simple path; the path of the breadth-first check takes the number of
  waiters plus one. The loops of the log reader are partial functions with \<open>None\<close> for not returning;
  that they return, over any source that meets the contract, is proved. The other loops are total functions.

  \<^bold>\<open>Not modelled.\<close>
  \<^item> Group commit, the transaction coordinator, the file system, durability and branch publication:
    scheduling of threads and calls of the operating system.
  \<^item> The operations and the envelope of the records that the frames carry, around the value messages:
    one of them embeds the text form of checkpoints, with that of chrono's types.
  \<^item> Graph mutation, relational and append table state, checkpoint formats, projections and statistics:
    the commit model takes their outcome as an argument.
  \<^item> The front ends, planners, optimizers, executors and search: no modelled operation calls them.
  \<^item> Temporal arithmetic and vector distances: they rest on third-party crates and on floating point.
\<close>

end
